(* ===== verification/Prelude.thy ===== *)
theory Prelude
  imports Main "HOL-Library.Word"
begin

text \<open>
  Shared vocabulary of the TrustedGateway development: the machine types of the C code, the
  faults a C statement can run into, results that are either a fault or a value, unsigned
  32-bit subtraction on \<open>nat\<close>, and the list facts the component theories share.
\<close>

section \<open>Machine types\<close>

type_synonym byte = "8 word"
type_synonym u8 = "8 word"
type_synonym u16 = "16 word"
type_synonym u32 = "32 word"
type_synonym u64 = "64 word"

section \<open>Faults and results\<close>

text \<open>
  \<open>Panic\<close> is a call of OP-TEE's \<open>panic()\<close>, \<open>Assert_failed\<close> a failing \<open>assert()\<close>. The
  other constructors are undefined behaviour of C made visible: a null pointer that is read
  through, an access outside an object, a division by zero, a \<open>free\<close> of something that is
  not an allocated block, a read of an uninitialised variable, recursion without end, and a loop without end.
\<close>

datatype fault = Panic | Assert_failed | Null_deref | Out_of_bounds | Div_zero | Bad_free
  | Uninitialised | Stack_exhausted | Endless

type_synonym 'a res = "fault + 'a"

text \<open>The codes of the TEE that the entry points return.\<close>

datatype tee_result = TEE_SUCCESS | TEE_ERROR_GENERIC | TEE_ERROR_ACCESS_DENIED | TEE_ERROR_BAD_FORMAT | TEE_ERROR_BAD_PARAMETERS
  | TEE_ERROR_NOT_IMPLEMENTED | TEE_ERROR_NOT_SUPPORTED | TEE_ERROR_OUT_OF_MEMORY | TEE_ERROR_SHORT_BUFFER | TEE_ERROR_COMMUNICATION
  | TEE_ERROR_ITEM_NOT_FOUND | TEE_ERROR_BUSY | TEE_ERROR_BAD_STATE | TEE_ERROR_NO_DATA | TEE_ERROR_EXCESS_DATA | TEE_ERROR_CANCEL

definition bind_res :: "'a res \<Rightarrow> ('a \<Rightarrow> 'b res) \<Rightarrow> 'b res" where
  "bind_res r f = (case r of Inl e \<Rightarrow> Inl e | Inr x \<Rightarrow> f x)"

lemma bind_res_simps [simp]:
  "bind_res (Inl e) f = Inl e"
  "bind_res (Inr x) f = f x"
  by (simp_all add: bind_res_def)

lemma bind_res_Inr_iff:
  "bind_res r f = Inr y \<longleftrightarrow> (\<exists>x. r = Inr x \<and> f x = Inr y)"
  by (cases r) auto

lemma bind_res_split:
  "P (bind_res r f) \<longleftrightarrow> (\<forall>e. r = Inl e \<longrightarrow> P (Inl e)) \<and> (\<forall>x. r = Inr x \<longrightarrow> P (f x))"
  by (cases r) auto

lemma bind_res_cong [fundef_cong]:
  "r = r' \<Longrightarrow> (\<And>x. r' = Inr x \<Longrightarrow> f x = g x) \<Longrightarrow> bind_res r f = bind_res r' g"
  by (cases r') auto

text \<open>
  \<open>safe r Q\<close>: the computation panics deliberately or returns a value with property \<open>Q\<close>; no other
  fault occurs.
\<close>

definition safe :: "'a res \<Rightarrow> ('a \<Rightarrow> bool) \<Rightarrow> bool" where
  "safe r Q = (case r of Inl e \<Rightarrow> e = Panic | Inr x \<Rightarrow> Q x)"

lemma safe_simps [simp]: "safe (Inr x) Q = Q x" "safe (Inl e) Q = (e = Panic)"
  by (simp_all add: safe_def)

lemma safe_bind: "safe r Q \<Longrightarrow> (\<And>x. r = Inr x \<Longrightarrow> Q x \<Longrightarrow> safe (f x) R) \<Longrightarrow> safe (bind_res r f) R"
  by (cases r) auto

lemma safe_mono: "safe r Q \<Longrightarrow> (\<And>x. Q x \<Longrightarrow> R x) \<Longrightarrow> safe r R"
  by (cases r) auto

section \<open>Unsigned 32-bit arithmetic on nat\<close>

text \<open>
  Counters of type \<open>unsigned int\<close> and \<open>size_t\<close> (32 bit on the target) are \<open>nat\<close> where an
  invariant keeps them far from the limit. A subtraction still wraps when it goes below zero.
\<close>

definition add32 :: "nat \<Rightarrow> nat \<Rightarrow> nat" where
  "add32 a b = (a + b) mod 2 ^ 32"

definition sub32 :: "nat \<Rightarrow> nat \<Rightarrow> nat" where
  "sub32 a b = (a + 2 ^ 32 - b) mod 2 ^ 32"

lemma sub32_eq [simp]:
  assumes "b \<le> a" "a < 2 ^ 32"
  shows "sub32 a b = a - b"
proof -
  have "a + 2 ^ 32 - b = (a - b) + 2 ^ 32" using assms by simp
  then show ?thesis using assms unfolding sub32_def
    by (metis less_imp_diff_less mod_add_self2 mod_less)
qed

lemma sub32_lt [simp]: "sub32 a b < 2 ^ 32"
  by (simp add: sub32_def)

text \<open>
  Rounding up to a multiple of \<open>m\<close>. The sources write it with a mask, \<open>(x + m - 1) & ~(m - 1)\<close>,
  for \<open>m\<close> a power of two, where both agree.
\<close>

definition roundup2 :: "nat \<Rightarrow> nat \<Rightarrow> nat" where
  "roundup2 x m = ((x + (m - 1)) div m) * m"

lemma roundup2_ge:
  assumes "0 < m"
  shows "x \<le> roundup2 x m"
proof -
  have "(x + (m - 1)) mod m \<le> m - 1"
    using assms by (metis Suc_pred' less_Suc_eq_le mod_less_divisor)
  then show ?thesis
    using div_mult_mod_eq [of "x + (m - 1)" m] unfolding roundup2_def by linarith
qed

section \<open>Lists\<close>

named_theorems list_facts

lemma take_update_self [list_facts]: "i < length xs \<Longrightarrow> take (Suc i) (xs[i := x]) = take i xs @ [x]"
  by (simp add: take_Suc_conv_app_nth)

lemma mod_add_eq_self_iff:
  fixes a b c n :: nat
  assumes "a + b < a + n" "a + c < a + n"
  shows "(a + b) mod n = (a + c) mod n \<longleftrightarrow> b = c"
proof
  assume eq: "(a + b) mod n = (a + c) mod n"
  have "int b mod int n = int c mod int n"
  proof -
    have "(int a + int b) mod int n = (int a + int c) mod int n"
      using eq by (metis of_nat_add of_nat_mod)
    then have "(int a + int b - int a) mod int n = (int a + int c - int a) mod int n"
      by (metis mod_diff_left_eq)
    then show ?thesis by simp
  qed
  then have "b mod n = c mod n"
    by (metis of_nat_eq_iff of_nat_mod)
  then show "b = c" using assms by simp
qed simp

lemma map_nth_drop_take:
  "a + n \<le> length xs \<Longrightarrow> map (\<lambda>i. xs ! (a + i)) [0..<n] = take n (drop a xs)"
  by (rule nth_equalityI) simp_all

lemma drop_map_upt:
  "k \<le> n \<Longrightarrow> drop k (map f [0..<n]) = map (\<lambda>i. f (k + i)) [0..<n - k]"
  by (rule nth_equalityI) simp_all

section \<open>Byte arrays\<close>

text \<open>
  \<open>slice xs off n\<close> reads \<open>n\<close> elements at offset \<open>off\<close>; \<open>blit xs off ys\<close> is \<open>memcpy\<close> of \<open>ys\<close>
  to offset \<open>off\<close>. Callers check that the range lies inside the array.
\<close>

definition slice :: "'a list \<Rightarrow> nat \<Rightarrow> nat \<Rightarrow> 'a list" where
  "slice xs off n = take n (drop off xs)"

definition blit :: "'a list \<Rightarrow> nat \<Rightarrow> 'a list \<Rightarrow> 'a list" where
  "blit xs off ys = take off xs @ ys @ drop (off + length ys) xs"

lemma length_slice [simp]: "off + n \<le> length xs \<Longrightarrow> length (slice xs off n) = n"
  by (simp add: slice_def)

lemma nth_slice: "i < n \<Longrightarrow> off + i < length xs \<Longrightarrow> slice xs off n ! i = xs ! (off + i)"
  by (simp add: slice_def)

lemma slice_0 [simp]: "slice xs off 0 = []"
  by (simp add: slice_def)

lemma length_blit [simp]: "off + length ys \<le> length xs \<Longrightarrow> length (blit xs off ys) = length xs"
  by (simp add: blit_def)

lemma blit_Nil [simp]: "blit xs off [] = xs"
  by (simp add: blit_def)

lemma slice_blit_same [simp]:
  "off + length ys \<le> length xs \<Longrightarrow> n = length ys \<Longrightarrow> slice (blit xs off ys) off n = ys"
  by (simp add: slice_def blit_def)

lemma slice_blit_before:
  "off + length ys \<le> length xs \<Longrightarrow> a + n \<le> off \<Longrightarrow> slice (blit xs off ys) a n = slice xs a n"
  by (simp add: slice_def blit_def take_drop min_def)

lemma slice_blit_after:
  assumes "off + length ys \<le> length xs" "off + length ys \<le> a"
  shows "slice (blit xs off ys) a n = slice xs a n"
proof -
  have "drop (a - length ys - min (length xs) off) (drop (off + length ys) xs) = drop a xs"
    using assms by simp
  then show ?thesis using assms by (simp add: slice_def blit_def)
qed

lemma slice_append:
  "slice xs a (m + n) = slice xs a m @ slice xs (a + m) n"
  by (simp add: slice_def take_add add.commute)

lemma slice_slice: "b + m \<le> n \<Longrightarrow> slice (slice xs a n) b m = slice xs (a + b) m"
  by (simp add: slice_def drop_take min_def add.commute)

lemma blit_append:
  "off + length (ys @ zs) \<le> length xs \<Longrightarrow>
   blit (blit xs off ys) (off + length ys) zs = blit xs off (ys @ zs)"
  by (simp add: blit_def ac_simps)

end
