(* ===== verification/Nwmem.thy ===== *)
theory Nwmem
  imports Prelude
begin

text \<open>
  The memory the secure world shares with the normal world, as the virtual NIC sees it: a flat
  byte memory that the normal world may rewrite between any two accesses. The normal world is a
  function \<open>env\<close> that is applied to the memory before every access, so a statement without a
  hypothesis on \<open>env\<close> holds against every normal world, double fetches included. Values are
  little endian, as \<open>virtio_ring.h\<close> demands.
\<close>

section \<open>Byte memory\<close>

type_synonym mem = "nat \<Rightarrow> byte"

definition rd :: "mem \<Rightarrow> nat \<Rightarrow> nat \<Rightarrow> byte list" where
  "rd m a n = map m [a..<a + n]"

definition wr :: "mem \<Rightarrow> nat \<Rightarrow> byte list \<Rightarrow> mem" where
  "wr m a bs = (\<lambda>x. if a \<le> x \<and> x < a + length bs then bs ! (x - a) else m x)"

lemma length_rd [simp]: "length (rd m a n) = n"
  by (simp add: rd_def)

lemma nth_rd: "i < n \<Longrightarrow> rd m a n ! i = m (a + i)"
  by (simp add: rd_def)

lemma rd_0 [simp]: "rd m a 0 = []"
  by (simp add: rd_def)

lemma rd_add: "rd m a (n + k) = rd m a n @ rd m (a + n) k"
  unfolding rd_def by (metis add.assoc le_add1 map_append upt_add_eq_append)

lemma rd_cong: "(\<And>x. a \<le> x \<Longrightarrow> x < a + n \<Longrightarrow> m' x = m x) \<Longrightarrow> rd m' a n = rd m a n"
  by (simp add: rd_def)

lemma rd_wr_same [simp]: "n = length bs \<Longrightarrow> rd (wr m a bs) a n = bs"
  by (rule nth_equalityI) (simp_all add: rd_def wr_def)

lemma wr_other: "x < a \<or> a + length bs \<le> x \<Longrightarrow> wr m a bs x = m x"
  by (auto simp: wr_def)

lemma rd_wr_disjoint: "a + n \<le> b \<or> b + length bs \<le> a \<Longrightarrow> rd (wr m b bs) a n = rd m a n"
  by (rule rd_cong) (auto simp: wr_def)

lemma take_rd: "k \<le> n \<Longrightarrow> take k (rd m a n) = rd m a k"
  by (simp add: rd_def take_map)

lemma drop_rd: "drop k (rd m a n) = rd m (a + k) (n - k)"
  by (cases "k \<le> n") (simp_all add: rd_def drop_map)

section \<open>Little-endian values\<close>

fun le_val :: "byte list \<Rightarrow> nat" where
  "le_val [] = 0"
| "le_val (b # bs) = unat b + 256 * le_val bs"

fun le_bytes :: "nat \<Rightarrow> nat \<Rightarrow> byte list" where
  "le_bytes 0 v = []"
| "le_bytes (Suc k) v = of_nat (v mod 256) # le_bytes k (v div 256)"

lemma length_le_bytes [simp]: "length (le_bytes k v) = k"
  by (induction k arbitrary: v) simp_all

lemma le_val_le_bytes: "le_val (le_bytes k v) = v mod 256 ^ k"
proof (induction k arbitrary: v)
  case (Suc k)
  have "unat (of_nat (v mod 256) :: byte) = v mod 256"
    by (simp add: unat_of_nat)
  then show ?case
    using Suc by (simp add: mod_mult2_eq)
qed simp

lemma le_val_less: "le_val bs < 256 ^ length bs"
proof (induction bs)
  case (Cons b bs)
  have "unat b < 256" by (rule order_less_le_trans [OF unsigned_less]) simp
  then show ?case using Cons by simp
qed simp

definition rd16 :: "mem \<Rightarrow> nat \<Rightarrow> nat" where "rd16 m a = le_val (rd m a 2)"
definition rd32 :: "mem \<Rightarrow> nat \<Rightarrow> nat" where "rd32 m a = le_val (rd m a 4)"
definition rd64 :: "mem \<Rightarrow> nat \<Rightarrow> nat" where "rd64 m a = le_val (rd m a 8)"

lemma rd16_less: "rd16 m a < 2 ^ 16"
  unfolding rd16_def using le_val_less [of "rd m a 2"] by simp

lemma rd32_less: "rd32 m a < 2 ^ 32"
  unfolding rd32_def using le_val_less [of "rd m a 4"] by simp

text \<open>Evaluation of reads and writes at concrete addresses.\<close>

lemma rd_Suc: "rd m a (Suc n) = m a # rd m (a + 1) n"
  using rd_add [of m a 1 n] by (simp add: rd_def)

lemma rd_numeral: "rd m a (numeral k) = m a # rd m (a + 1) (pred_numeral k)"
  by (simp only: numeral_eq_Suc [of k] rd_Suc)

lemma le_bytes_numeral:
  "le_bytes (numeral k) v = of_nat (v mod 256) # le_bytes (pred_numeral k) (v div 256)"
  by (simp only: numeral_eq_Suc [of k] le_bytes.simps)

lemmas mem_eval = rd_numeral rd_Suc le_bytes_numeral wr_def nth_append rd16_def rd32_def rd64_def

section \<open>Accesses with an interfering normal world\<close>

record nwmach =
  nwmem :: mem
  nwenv :: "nat \<Rightarrow> mem \<Rightarrow> mem"
  nwtick :: nat

type_synonym 'a nw = "nwmach \<Rightarrow> ('a \<times> nwmach) res"

definition ret_nw :: "'a \<Rightarrow> 'a nw" where
  "ret_nw x = (\<lambda>s. Inr (x, s))"

definition fail_nw :: "fault \<Rightarrow> 'a nw" where
  "fail_nw e = (\<lambda>s. Inl e)"

definition bind_nw :: "'a nw \<Rightarrow> ('a \<Rightarrow> 'b nw) \<Rightarrow> 'b nw" where
  "bind_nw c f = (\<lambda>s. bind_res (c s) (\<lambda>(x, s'). f x s'))"

text \<open>The normal world moves, then the access happens.\<close>

definition sync :: "nwmach \<Rightarrow> nwmach" where
  "sync s = s\<lparr>nwmem := nwenv s (nwtick s) (nwmem s), nwtick := nwtick s + 1\<rparr>"

definition load16 :: "nat \<Rightarrow> nat nw" where
  "load16 a = (\<lambda>s. let s' = sync s in Inr (rd16 (nwmem s') a, s'))"

definition load32 :: "nat \<Rightarrow> nat nw" where
  "load32 a = (\<lambda>s. let s' = sync s in Inr (rd32 (nwmem s') a, s'))"

definition load64 :: "nat \<Rightarrow> nat nw" where
  "load64 a = (\<lambda>s. let s' = sync s in Inr (rd64 (nwmem s') a, s'))"

definition store :: "nat \<Rightarrow> byte list \<Rightarrow> unit nw" where
  "store a bs = (\<lambda>s. let s' = sync s in Inr ((), s'\<lparr>nwmem := wr (nwmem s') a bs\<rparr>))"

definition store16 :: "nat \<Rightarrow> nat \<Rightarrow> unit nw" where
  "store16 a v = store a (le_bytes 2 v)"

definition store32 :: "nat \<Rightarrow> nat \<Rightarrow> unit nw" where
  "store32 a v = store a (le_bytes 4 v)"

lemma nw_simps [simp]:
  "bind_nw (ret_nw x) f s = f x s"
  "bind_nw (fail_nw e) f s = Inl e"
  "ret_nw x s = Inr (x, s)"
  "fail_nw e s = Inl e"
  by (simp_all add: bind_nw_def ret_nw_def fail_nw_def)

lemma bind_nw_Inr_iff:
  "bind_nw c f s = Inr r \<longleftrightarrow> (\<exists>x s'. c s = Inr (x, s') \<and> f x s' = Inr r)"
  by (auto simp: bind_nw_def bind_res_Inr_iff)

lemma bind_nw_load [simp]:
  "bind_nw (load16 a) f s = f (rd16 (nwmem (sync s)) a) (sync s)"
  "bind_nw (load32 a) f s = f (rd32 (nwmem (sync s)) a) (sync s)"
  "bind_nw (load64 a) f s = f (rd64 (nwmem (sync s)) a) (sync s)"
  "bind_nw (store a bs) g s = g () ((sync s)\<lparr>nwmem := wr (nwmem (sync s)) a bs\<rparr>)"
  "bind_nw (store16 a v) g s = g () ((sync s)\<lparr>nwmem := wr (nwmem (sync s)) a (le_bytes 2 v)\<rparr>)"
  "bind_nw (store32 a v) g s = g () ((sync s)\<lparr>nwmem := wr (nwmem (sync s)) a (le_bytes 4 v)\<rparr>)"
  by (simp_all add: bind_nw_def load16_def load32_def load64_def store16_def store32_def store_def
      Let_def)

text \<open>A normal world that leaves the memory alone.\<close>

definition quiet :: "nwmach \<Rightarrow> bool" where
  "quiet s \<longleftrightarrow> (\<forall>t. nwenv s t = id)"

lemma quiet_sync [simp]: "quiet s \<Longrightarrow> nwmem (sync s) = nwmem s" "quiet (sync s) = quiet s"
  "nwenv (sync s) = nwenv s" "nwtick (sync s) = nwtick s + 1"
  by (simp_all add: quiet_def sync_def)

lemma quiet_nwmem_update [simp]: "quiet (s\<lparr>nwmem := m\<rparr>) = quiet s"
  by (simp add: quiet_def)

end
