(* ===== verification/Iovec.thy ===== *)
theory Iovec
  imports Nwmem
begin

text \<open>
  Copies between a secure buffer and the scatter list of a virtqueue buffer
  (\<open>virtio-nic/vnic/src/iovec.c\<close>). The scatter list points into normal-world memory, which is
  flat; the secure buffer is one allocated block of known size with an offset into it, so that a
  copy that leaves the block shows as \<open>Out_of_bounds\<close>. A null pointer is address 0, or \<open>None\<close>
  for the secure buffer. The list stands for the array \<open>iov\<close> with \<open>iov_cnt\<close> entries.
\<close>

section \<open>The copies\<close>

record iovec_kern =
  iov_base :: nat
  iov_len :: nat

definition ERR_INVALID_ARGS :: int where "ERR_INVALID_ARGS = -8"

text \<open>The conversions between \<open>size_t\<close> and \<open>ssize_t\<close>, both 32 bits wide.\<close>

definition ssize_of :: "int \<Rightarrow> int" where
  "ssize_of n = (let k = n mod 2 ^ 32 in if k < 2 ^ 31 then k else k - 2 ^ 32)"

fun to_iovec_loop :: "iovec_kern list \<Rightarrow> byte list \<Rightarrow> nat \<Rightarrow> nat \<Rightarrow> nat \<Rightarrow> mem \<Rightarrow> (int \<times> mem) res" where
  "to_iovec_loop [] buf off len copied m = Inr (ssize_of (int copied), m)"
| "to_iovec_loop (v # vs) buf off len copied m =
     (let to_copy = (if len > iov_len v then iov_len v else len) in
      if to_copy = 0 then to_iovec_loop vs buf off len copied m
      else if iov_base v = 0 then Inr (ERR_INVALID_ARGS, m)
      else if off + to_copy > length buf then Inl Out_of_bounds
      else
        let m' = wr m (iov_base v) (slice buf off to_copy) in
        if len - to_copy = 0 then Inr (ssize_of (int (copied + to_copy)), m')
        else to_iovec_loop vs buf (off + to_copy) (len - to_copy) (copied + to_copy) m')"

definition membuf_to_kern_iovec ::
    "iovec_kern list \<Rightarrow> byte list \<Rightarrow> nat option \<Rightarrow> nat \<Rightarrow> mem \<Rightarrow> (int \<times> mem) res" where
  "membuf_to_kern_iovec iov buf p len m =
     (if iov = [] \<or> len = 0 then Inr (0, m)
      else case p of None \<Rightarrow> Inr (ERR_INVALID_ARGS, m)
           | Some off \<Rightarrow> to_iovec_loop iov buf off len 0 m)"

text \<open>
  The first loop of the skipping variant. It passes over entries that lie in the prefix; the entry
  that reaches beyond it receives \<open>rest_buf\<close> bytes, which is what the source copies (the bounded
  \<open>to_copy\<close> only decides whether the function returns). The remaining entries are filled by the
  plain copy, whose result, an error code included, is added to what was copied so far.
\<close>

fun to_iovec_skip_loop ::
    "iovec_kern list \<Rightarrow> byte list \<Rightarrow> nat \<Rightarrow> nat \<Rightarrow> nat \<Rightarrow> nat \<Rightarrow> mem \<Rightarrow> (int \<times> mem) res" where
  "to_iovec_skip_loop [] buf off len prefix_skip skipped m =
     (if skipped < prefix_skip then Inr (ERR_INVALID_ARGS, m) else Inl Out_of_bounds)"
| "to_iovec_skip_loop (v # vs) buf off len prefix_skip skipped m =
     (let next_len = iov_len v in
      if add32 skipped next_len < prefix_skip
      then to_iovec_skip_loop vs buf off len prefix_skip (add32 skipped next_len) m
      else
        let rest_buf = add32 skipped next_len - prefix_skip;
            to_copy = (if rest_buf > len then len else rest_buf);
            m' = wr m (iov_base v + sub32 next_len rest_buf) (slice buf off rest_buf) in
        if rest_buf > 0 \<and> iov_base v = 0 then Inr (ERR_INVALID_ARGS, m)
        else if rest_buf > 0 \<and> off + rest_buf > length buf then Inl Out_of_bounds
        else if rest_buf > 0 \<and> to_copy = len then Inr (ssize_of (int len), m')
        else if add32 skipped (sub32 next_len rest_buf) \<noteq> prefix_skip then Inl Assert_failed
        else bind_res (membuf_to_kern_iovec vs buf (Some (off + rest_buf)) (len - rest_buf)
                        (if rest_buf > 0 then m' else m))
               (\<lambda>(r, m''). Inr (ssize_of (int rest_buf + r), m'')))"

definition membuf_to_kern_iovec_skip_begin ::
    "iovec_kern list \<Rightarrow> byte list \<Rightarrow> nat option \<Rightarrow> nat \<Rightarrow> nat \<Rightarrow> mem \<Rightarrow> (int \<times> mem) res" where
  "membuf_to_kern_iovec_skip_begin iov buf p len prefix_skip m =
     (if prefix_skip = 0 then membuf_to_kern_iovec iov buf p len m
      else if iov = [] \<or> len = 0 then Inr (0, m)
      else case p of None \<Rightarrow> Inr (ERR_INVALID_ARGS, m)
           | Some off \<Rightarrow> to_iovec_skip_loop iov buf off len prefix_skip 0 m)"

fun from_iovec_loop :: "byte list \<Rightarrow> nat \<Rightarrow> nat \<Rightarrow> nat \<Rightarrow> iovec_kern list \<Rightarrow> mem \<Rightarrow> (int \<times> byte list) res" where
  "from_iovec_loop buf off len copied [] m = Inr (ssize_of (int copied), buf)"
| "from_iovec_loop buf off len copied (v # vs) m =
     (let to_copy = (if len > iov_len v then iov_len v else len) in
      if to_copy = 0 then from_iovec_loop buf off len copied vs m
      else if iov_base v = 0 then Inr (ERR_INVALID_ARGS, buf)
      else if off + to_copy > length buf then Inl Out_of_bounds
      else
        let buf' = blit buf off (rd m (iov_base v) to_copy) in
        if len - to_copy = 0 then Inr (ssize_of (int (copied + to_copy)), buf')
        else from_iovec_loop buf' (off + to_copy) (len - to_copy) (copied + to_copy) vs m)"

definition kern_iovec_to_membuf ::
    "byte list \<Rightarrow> nat option \<Rightarrow> nat \<Rightarrow> iovec_kern list \<Rightarrow> mem \<Rightarrow> (int \<times> byte list) res" where
  "kern_iovec_to_membuf buf p len iov m =
     (if iov = [] \<or> len = 0 then Inr (0, buf)
      else case p of None \<Rightarrow> Inr (ERR_INVALID_ARGS, buf)
           | Some off \<Rightarrow> from_iovec_loop buf off len 0 iov m)"

fun from_iovec_skip_loop ::
    "byte list \<Rightarrow> nat \<Rightarrow> nat \<Rightarrow> iovec_kern list \<Rightarrow> nat \<Rightarrow> nat \<Rightarrow> mem \<Rightarrow> (int \<times> byte list) res" where
  "from_iovec_skip_loop buf off len [] prefix_skip skipped m =
     (if skipped < prefix_skip then Inr (ERR_INVALID_ARGS, buf) else Inl Out_of_bounds)"
| "from_iovec_skip_loop buf off len (v # vs) prefix_skip skipped m =
     (let next_len = iov_len v in
      if add32 skipped next_len < prefix_skip
      then from_iovec_skip_loop buf off len vs prefix_skip (add32 skipped next_len) m
      else
        let rest_buf = add32 skipped next_len - prefix_skip;
            to_copy = (if rest_buf > len then len else rest_buf);
            buf' = blit buf off (rd m (iov_base v + sub32 next_len rest_buf) rest_buf) in
        if rest_buf > 0 \<and> iov_base v = 0 then Inr (ERR_INVALID_ARGS, buf)
        else if rest_buf > 0 \<and> off + rest_buf > length buf then Inl Out_of_bounds
        else if rest_buf > 0 \<and> to_copy = len then Inr (ssize_of (int len), buf')
        else if add32 skipped (sub32 next_len rest_buf) \<noteq> prefix_skip then Inl Assert_failed
        else bind_res (kern_iovec_to_membuf (if rest_buf > 0 then buf' else buf)
                        (Some (off + rest_buf)) (len - rest_buf) vs m)
               (\<lambda>(r, b). Inr (ssize_of (int rest_buf + r), b)))"

definition kern_iovec_to_membuf_skip_begin ::
    "byte list \<Rightarrow> nat option \<Rightarrow> nat \<Rightarrow> iovec_kern list \<Rightarrow> nat \<Rightarrow> mem \<Rightarrow> (int \<times> byte list) res" where
  "kern_iovec_to_membuf_skip_begin buf p len iov prefix_skip m =
     (if prefix_skip = 0 then kern_iovec_to_membuf buf p len iov m
      else if iov = [] \<or> len = 0 then Inr (0, buf)
      else case p of None \<Rightarrow> Inr (ERR_INVALID_ARGS, buf)
           | Some off \<Rightarrow> from_iovec_skip_loop buf off len iov prefix_skip 0 m)"

section \<open>What the copies do\<close>

definition iov_total :: "iovec_kern list \<Rightarrow> nat" where
  "iov_total vs = sum_list (map iov_len vs)"

definition iov_bytes :: "mem \<Rightarrow> iovec_kern list \<Rightarrow> byte list" where
  "iov_bytes m vs = concat (map (\<lambda>v. rd m (iov_base v) (iov_len v)) vs)"

definition in_iov :: "nat \<Rightarrow> iovec_kern \<Rightarrow> bool" where
  "in_iov x v \<longleftrightarrow> iov_base v \<le> x \<and> x < iov_base v + iov_len v"

definition iov_apart :: "iovec_kern \<Rightarrow> iovec_kern \<Rightarrow> bool" where
  "iov_apart v w \<longleftrightarrow> iov_base v + iov_len v \<le> iov_base w \<or> iov_base w + iov_len w \<le> iov_base v"

fun iov_disjoint :: "iovec_kern list \<Rightarrow> bool" where
  "iov_disjoint [] \<longleftrightarrow> True"
| "iov_disjoint (v # vs) \<longleftrightarrow> list_all (iov_apart v) vs \<and> iov_disjoint vs"

definition iov_mapped :: "iovec_kern list \<Rightarrow> bool" where
  "iov_mapped vs \<longleftrightarrow> list_all (\<lambda>v. iov_base v \<noteq> 0) vs"

lemmas iov_defs = iov_total_def iov_bytes_def iov_mapped_def

lemma iov_simps [simp]:
  "iov_total [] = 0" "iov_total (v # vs) = iov_len v + iov_total vs"
  "iov_bytes m [] = []" "iov_bytes m (v # vs) = rd m (iov_base v) (iov_len v) @ iov_bytes m vs"
  "iov_mapped []" "iov_mapped (v # vs) \<longleftrightarrow> iov_base v \<noteq> 0 \<and> iov_mapped vs"
  by (simp_all add: iov_defs)

lemma length_iov_bytes [simp]: "length (iov_bytes m vs) = iov_total vs"
  by (induction vs) simp_all

lemma ssize_of_small [simp]: "0 \<le> n \<Longrightarrow> n < 2 ^ 31 \<Longrightarrow> ssize_of n = n"
  by (simp add: ssize_of_def)

lemma iov_bytes_wr_apart:
  assumes "list_all (iov_apart v) vs" "length bs \<le> iov_len v"
  shows "iov_bytes (wr m (iov_base v) bs) vs = iov_bytes m vs"
  using assms(1)
proof (induction vs)
  case (Cons w vs)
  then have "rd (wr m (iov_base v) bs) (iov_base w) (iov_len w) = rd m (iov_base w) (iov_len w)"
    using assms(2) by (intro rd_wr_disjoint) (auto simp: iov_apart_def)
  with Cons show ?case by simp
qed simp

text \<open>The plain copies: scatter and gather.\<close>

lemma to_iovec_loop_spec:
  assumes "iov_mapped vs" "iov_disjoint vs" "0 < len" "off + len \<le> length buf"
    "copied + len < 2 ^ 31"
  shows "\<exists>m'. to_iovec_loop vs buf off len copied m =
       Inr (int copied + int (min len (iov_total vs)), m') \<and>
     iov_bytes m' vs = slice buf off (min len (iov_total vs)) @ drop len (iov_bytes m vs) \<and>
     (\<forall>x. list_all (\<lambda>v. \<not> in_iov x v) vs \<longrightarrow> m' x = m x)"
  using assms
proof (induction vs arbitrary: off len copied m)
  case Nil
  then show ?case by simp
next
  case (Cons v vs)
  let ?k = "if len > iov_len v then iov_len v else len"
  let ?m = "wr m (iov_base v) (slice buf off ?k)"
  have ap: "list_all (iov_apart v) vs" and dj: "iov_disjoint vs" and mp: "iov_mapped vs"
    and nz: "iov_base v \<noteq> 0" using Cons.prems by simp_all
  have len_k: "length (slice buf off ?k) = ?k" using Cons.prems(4) by simp
  have frame: "\<not> in_iov x v \<Longrightarrow> ?m x = m x" for x
    using len_k by (auto simp: in_iov_def wr_def split: if_splits)
  have rest: "iov_bytes ?m vs = iov_bytes m vs"
    by (rule iov_bytes_wr_apart [OF ap]) (use len_k in \<open>simp split: if_splits\<close>)
  consider "iov_len v = 0" | "0 < iov_len v" "len \<le> iov_len v" | "0 < iov_len v" "iov_len v < len"
    by linarith
  then show ?case
  proof cases
    case 1
    with Cons.IH [OF mp dj Cons.prems(3,4,5), of m] Cons.prems(3) show ?thesis
      by (auto simp: Let_def)
  next
    case 2
    have "rd ?m (iov_base v) (iov_len v) = slice buf off len @ drop len (rd m (iov_base v) (iov_len v))"
    proof -
      have "rd ?m (iov_base v) (len + (iov_len v - len)) =
          slice buf off len @ rd m (iov_base v + len) (iov_len v - len)"
        using 2 len_k unfolding rd_add by (simp add: rd_wr_disjoint)
      then show ?thesis using 2 by (simp add: drop_rd)
    qed
    with 2 rest frame Cons.prems nz show ?thesis
      by (auto simp: Let_def)
  next
    case 3
    from 3 Cons.prems have "\<exists>m'. to_iovec_loop vs buf (off + iov_len v) (len - iov_len v)
        (copied + iov_len v) ?m =
       Inr (int (copied + iov_len v) + int (min (len - iov_len v) (iov_total vs)), m') \<and>
     iov_bytes m' vs = slice buf (off + iov_len v) (min (len - iov_len v) (iov_total vs)) @
        drop (len - iov_len v) (iov_bytes ?m vs) \<and>
     (\<forall>x. list_all (\<lambda>v. \<not> in_iov x v) vs \<longrightarrow> m' x = ?m x)"
      by (intro Cons.IH [OF mp dj]) simp_all
    then obtain m' where m': "to_iovec_loop vs buf (off + iov_len v) (len - iov_len v)
        (copied + iov_len v) ?m =
       Inr (int (copied + iov_len v) + int (min (len - iov_len v) (iov_total vs)), m')"
      "iov_bytes m' vs = slice buf (off + iov_len v) (min (len - iov_len v) (iov_total vs)) @
        drop (len - iov_len v) (iov_bytes m vs)"
      "\<forall>x. list_all (\<lambda>v. \<not> in_iov x v) vs \<longrightarrow> m' x = ?m x"
      unfolding rest by blast
    have "rd m' (iov_base v) (iov_len v) = rd ?m (iov_base v) (iov_len v)"
    proof (rule rd_cong)
      fix x assume "iov_base v \<le> x" "x < iov_base v + iov_len v"
      then have "list_all (\<lambda>w. \<not> in_iov x w) vs"
        using ap by (auto simp: list_all_iff iov_apart_def in_iov_def)
      then show "m' x = ?m x" using m'(3) by blast
    qed
    then have own: "rd m' (iov_base v) (iov_len v) = slice buf off (iov_len v)"
      using 3 len_k by simp
    have "min len (iov_len v + iov_total vs) = iov_len v + min (len - iov_len v) (iov_total vs)"
      using 3 by simp
    with m' own 3 frame Cons.prems nz show ?thesis
      by (auto simp: Let_def slice_append)
  qed
qed

lemma from_iovec_loop_spec:
  assumes "iov_mapped vs" "0 < len" "off + len \<le> length buf" "copied + len < 2 ^ 31"
  shows "from_iovec_loop buf off len copied vs m =
       Inr (int copied + int (min len (iov_total vs)), blit buf off (take len (iov_bytes m vs)))"
  using assms
proof (induction vs arbitrary: buf off len copied)
  case Nil
  then show ?case by simp
next
  case (Cons v vs)
  consider "iov_len v = 0" | "0 < iov_len v" "len \<le> iov_len v" | "0 < iov_len v" "iov_len v < len"
    by linarith
  then show ?case
  proof cases
    case 3
    let ?b = "blit buf off (rd m (iov_base v) (iov_len v))"
    have "from_iovec_loop ?b (off + iov_len v) (len - iov_len v) (copied + iov_len v) vs m =
        Inr (int (copied + iov_len v) + int (min (len - iov_len v) (iov_total vs)),
          blit ?b (off + iov_len v) (take (len - iov_len v) (iov_bytes m vs)))"
      using 3 Cons.prems by (intro Cons.IH) simp_all
    moreover have "blit ?b (off + iov_len v) (take (len - iov_len v) (iov_bytes m vs)) =
        blit buf off (rd m (iov_base v) (iov_len v) @ take (len - iov_len v) (iov_bytes m vs))"
      using blit_append [of off "rd m (iov_base v) (iov_len v)" "take (len - iov_len v) (iov_bytes m vs)" buf]
        3 Cons.prems by simp
    moreover have "min len (iov_len v + iov_total vs) =
        iov_len v + min (len - iov_len v) (iov_total vs)"
      using 3 by simp
    ultimately show ?thesis using 3 Cons.prems by (auto simp: Let_def)
  qed (use Cons in \<open>auto simp: Let_def take_rd\<close>)
qed

lemma membuf_to_kern_iovec_spec:
  assumes "iov_mapped vs" "iov_disjoint vs" "off + len \<le> length buf" "len < 2 ^ 31"
  obtains m' where
    "membuf_to_kern_iovec vs buf (Some off) len m = Inr (int (min len (iov_total vs)), m')"
    "iov_bytes m' vs = slice buf off (min len (iov_total vs)) @ drop len (iov_bytes m vs)"
    "\<And>x. list_all (\<lambda>v. \<not> in_iov x v) vs \<Longrightarrow> m' x = m x"
proof (cases "vs = [] \<or> len = 0")
  case True
  then show ?thesis using that [of m] by (auto simp: membuf_to_kern_iovec_def)
next
  case False
  with to_iovec_loop_spec [of vs len off buf 0 m] assms obtain m' where
    "to_iovec_loop vs buf off len 0 m = Inr (int (min len (iov_total vs)), m')"
    "iov_bytes m' vs = slice buf off (min len (iov_total vs)) @ drop len (iov_bytes m vs)"
    "\<forall>x. list_all (\<lambda>v. \<not> in_iov x v) vs \<longrightarrow> m' x = m x"
    by auto
  then show ?thesis using that [of m'] False by (auto simp: membuf_to_kern_iovec_def)
qed

lemma kern_iovec_to_membuf_spec:
  assumes "iov_mapped vs" "off + len \<le> length buf" "len < 2 ^ 31"
  shows "kern_iovec_to_membuf buf (Some off) len vs m =
     Inr (int (min len (iov_total vs)), blit buf off (take len (iov_bytes m vs)))"
  using from_iovec_loop_spec [of vs len off buf 0 m] assms
  by (auto simp: kern_iovec_to_membuf_def)

text \<open>The reference for the skipping variants: the scatter list with its first bytes cut off.\<close>

fun iov_skip :: "nat \<Rightarrow> iovec_kern list \<Rightarrow> iovec_kern list" where
  "iov_skip n [] = []"
| "iov_skip n (v # vs) =
     (if n = 0 then v # vs
      else if iov_len v \<le> n then iov_skip (n - iov_len v) vs
      else v\<lparr>iov_base := iov_base v + n, iov_len := iov_len v - n\<rparr> # vs)"

lemma iov_skip_0 [simp]: "iov_skip 0 vs = vs"
  by (cases vs) simp_all

lemma iov_skip_bytes: "iov_bytes m (iov_skip n vs) = drop n (iov_bytes m vs)"
  by (induction n vs rule: iov_skip.induct) (auto simp: drop_rd)

lemma iov_skip_total: "iov_total (iov_skip n vs) = iov_total vs - n"
  by (induction n vs rule: iov_skip.induct) auto

lemma iov_skip_mapped: "iov_mapped vs \<Longrightarrow> iov_mapped (iov_skip n vs)"
  by (induction n vs rule: iov_skip.induct) auto

lemma add32_small: "a + b < 2 ^ 32 \<Longrightarrow> add32 a b = a + b"
  by (simp add: add32_def)

lemma to_iovec_loop_ret:
  assumes "iov_mapped vs" "off + len \<le> length buf" "copied + len < 2 ^ 31" "0 < len"
  obtains m' where
    "\<And>c. c + copied + len < 2 ^ 31 \<Longrightarrow> to_iovec_loop vs buf off len (c + copied) m =
        Inr (int c + int copied + int (min len (iov_total vs)), m')"
proof -
  have "\<exists>m'. \<forall>c. c + copied + len < 2 ^ 31 \<longrightarrow> to_iovec_loop vs buf off len (c + copied) m =
        Inr (int c + int copied + int (min len (iov_total vs)), m')"
    using assms
  proof (induction vs arbitrary: off len copied m)
    case (Cons v vs)
    consider "iov_len v = 0" | "0 < iov_len v" "len \<le> iov_len v" | "0 < iov_len v" "iov_len v < len"
      by linarith
    then show ?case
    proof cases
      case 1
      with Cons show ?thesis by (simp add: Let_def)
    next
      case 2
      with Cons.prems show ?thesis
        by (intro exI [of _ "wr m (iov_base v) (slice buf off len)"]) (auto simp: Let_def)
    next
      case 3
      let ?m = "wr m (iov_base v) (slice buf off (iov_len v))"
      from 3 Cons.prems obtain m' where m': "\<forall>c. c + (copied + iov_len v) + (len - iov_len v) < 2 ^ 31 \<longrightarrow>
          to_iovec_loop vs buf (off + iov_len v) (len - iov_len v) (c + (copied + iov_len v)) ?m =
          Inr (int c + int (copied + iov_len v) + int (min (len - iov_len v) (iov_total vs)), m')"
        using Cons.IH [of "off + iov_len v" "len - iov_len v" "copied + iov_len v" ?m] by auto
      have "min len (iov_len v + iov_total vs) = iov_len v + min (len - iov_len v) (iov_total vs)"
        using 3 by simp
      with m' 3 Cons.prems show ?thesis
        by (intro exI [of _ m']) (auto simp: Let_def add.assoc)
    qed
  qed simp
  then show ?thesis using that by blast
qed

lemma to_iovec_skip_hit:
  assumes v: "iov_len v = d + r" "iov_base v \<noteq> 0" and r: "0 < d" "0 < r" "r \<le> len"
    and b: "iov_mapped vs" "off + len \<le> length buf" "len < 2 ^ 31" "skipped + d + r < 2 ^ 32"
  shows "to_iovec_skip_loop (v # vs) buf off len (skipped + d) skipped m =
     membuf_to_kern_iovec (v\<lparr>iov_base := iov_base v + d, iov_len := r\<rparr> # vs) buf (Some off) len m"
proof -
  let ?m = "wr m (iov_base v + d) (slice buf off r)"
  have sum: "add32 skipped (d + r) = skipped + d + r" "add32 skipped d = skipped + d"
    "sub32 (d + r) r = d"
    using b by (simp_all add: add32_small)
  show ?thesis
  proof (cases "r = len")
    case True
    then show ?thesis
      using v r b sum by (simp add: membuf_to_kern_iovec_def Let_def)
  next
    case False
    have pre: "iov_mapped vs" "off + r + (len - r) \<le> length buf" "0 + (len - r) < 2 ^ 31" "0 < len - r"
      using False r b by auto
    obtain m' where m': "\<And>c. c + 0 + (len - r) < 2 ^ 31 \<Longrightarrow>
        to_iovec_loop vs buf (off + r) (len - r) (c + 0) ?m =
          Inr (int c + int 0 + int (min (len - r) (iov_total vs)), m')"
      using to_iovec_loop_ret [OF pre, of ?m] by blast
    have l0: "to_iovec_loop vs buf (off + r) (len - r) 0 ?m =
          Inr (int (min (len - r) (iov_total vs)), m')"
      and lr: "to_iovec_loop vs buf (off + r) (len - r) r ?m =
          Inr (int r + int (min (len - r) (iov_total vs)), m')"
      using m' [of 0] m' [of r] False r b by auto
    have mid: "membuf_to_kern_iovec vs buf (Some (off + r)) (len - r) ?m =
        Inr (int (min (len - r) (iov_total vs)), if vs = [] then ?m else m')"
      using l0 False r by (simp add: membuf_to_kern_iovec_def)
    have nil: "vs = [] \<Longrightarrow> m' = ?m" using l0 by auto
    have "ssize_of (int r + int (min (len - r) (iov_total vs))) =
        int r + int (min (len - r) (iov_total vs))"
      using r b by (intro ssize_of_small) auto
    then have "to_iovec_skip_loop (v # vs) buf off len (skipped + d) skipped m =
        Inr (int r + int (min (len - r) (iov_total vs)), m')"
      using v r b False sum mid nil by simp
    moreover have "membuf_to_kern_iovec (v\<lparr>iov_base := iov_base v + d, iov_len := r\<rparr> # vs) buf (Some off) len m
        = Inr (int r + int (min (len - r) (iov_total vs)), m')"
      using v r b False lr by (simp add: membuf_to_kern_iovec_def Let_def)
    ultimately show ?thesis by simp
  qed
qed

lemma to_iovec_skip_loop_eq:
  assumes "iov_mapped vs" "off + len \<le> length buf" "0 < len" "len < 2 ^ 31"
    "skipped < p" "skipped + iov_total vs < 2 ^ 32" "p \<le> skipped + iov_total vs"
    "skipped + iov_total vs \<le> p + len"
  shows "to_iovec_skip_loop vs buf off len p skipped m =
     membuf_to_kern_iovec (iov_skip (p - skipped) vs) buf (Some off) len m"
  using assms
proof (induction vs arbitrary: skipped)
  case (Cons v vs)
  have sum: "add32 skipped (iov_len v) = skipped + iov_len v"
    using Cons.prems(6) by (intro add32_small) simp
  consider "skipped + iov_len v < p" | "skipped + iov_len v = p" | "p < skipped + iov_len v"
    by linarith
  then show ?case
  proof cases
    case 1
    then have "iov_len v \<le> p - skipped" by simp
    with 1 Cons sum show ?thesis by (simp add: add.assoc)
  next
    case 2
    then have "iov_skip (p - skipped) (v # vs) = vs" using Cons.prems(5) by simp
    moreover have "bind_res (membuf_to_kern_iovec vs buf (Some off) len m)
        (\<lambda>(r, m''). Inr (ssize_of r, m'')) = membuf_to_kern_iovec vs buf (Some off) len m"
    proof (cases "vs = []")
      case False
      obtain m' where "to_iovec_loop vs buf off len 0 m = Inr (int (min len (iov_total vs)), m')"
        using to_iovec_loop_ret [of vs off len buf 0 m] Cons.prems by fastforce
      with False Cons.prems show ?thesis by (simp add: membuf_to_kern_iovec_def)
    qed (simp add: membuf_to_kern_iovec_def)
    ultimately show ?thesis using 2 sum Cons.prems by simp
  next
    case 3
    define d where "d = p - skipped"
    define r where "r = iov_len v - d"
    have dr: "iov_len v = d + r" "0 < d" "0 < r" "r \<le> len" "p = skipped + d" "skipped + d + r < 2 ^ 32"
      using 3 Cons.prems by (auto simp: d_def r_def)
    have "iov_skip d (v # vs) = v\<lparr>iov_base := iov_base v + d, iov_len := r\<rparr> # vs"
      using dr by simp
    then show ?thesis
      using to_iovec_skip_hit [OF dr(1) _ dr(2-4) _ Cons.prems(2,4) dr(6), of vs m] Cons.prems(1) dr(5)
      by simp
  qed
qed simp

lemma from_iovec_skip_hit:
  assumes v: "iov_len v = d + r" "iov_base v \<noteq> 0" and r: "0 < d" "0 < r" "r \<le> len"
    and b: "iov_mapped vs" "off + len \<le> length buf" "len < 2 ^ 31" "skipped + d + r < 2 ^ 32"
    and t: "r + iov_total vs \<le> len"
  shows "from_iovec_skip_loop buf off len (v # vs) (skipped + d) skipped m =
     Inr (int (r + iov_total vs), blit buf off (rd m (iov_base v + d) r @ iov_bytes m vs))"
proof -
  let ?b = "blit buf off (rd m (iov_base v + d) r)"
  have sum: "add32 skipped (d + r) = skipped + d + r" "add32 skipped d = skipped + d"
    "sub32 (d + r) r = d"
    using b by (simp_all add: add32_small)
  have "kern_iovec_to_membuf ?b (Some (off + r)) (len - r) vs m =
      Inr (int (iov_total vs), blit ?b (off + r) (iov_bytes m vs))"
    using kern_iovec_to_membuf_spec [of vs "off + r" "len - r" ?b m] r b t by auto
  moreover have "blit ?b (off + r) (iov_bytes m vs) =
      blit buf off (rd m (iov_base v + d) r @ iov_bytes m vs)"
    using blit_append [of off "rd m (iov_base v + d) r" "iov_bytes m vs" buf] b t by simp
  moreover have "r = len \<Longrightarrow> iov_bytes m vs = [] \<and> iov_total vs = 0"
    using t length_iov_bytes [of m vs] by (metis add_le_same_cancel1 le_zero_eq length_0_conv)
  moreover have "d + r < 2 ^ 32" "\<not> len < r" using b r by auto
  ultimately show ?thesis
    using v r b t sum by (auto simp: Let_def)
qed

lemma from_iovec_skip_loop_eq:
  assumes "iov_mapped vs" "off + len \<le> length buf" "0 < len" "len < 2 ^ 31"
    "skipped < p" "skipped + iov_total vs < 2 ^ 32" "p \<le> skipped + iov_total vs"
    "skipped + iov_total vs \<le> p + len"
  shows "from_iovec_skip_loop buf off len vs p skipped m =
     Inr (int (skipped + iov_total vs - p), blit buf off (drop (p - skipped) (iov_bytes m vs)))"
  using assms
proof (induction vs arbitrary: skipped)
  case (Cons v vs)
  have sum: "add32 skipped (iov_len v) = skipped + iov_len v"
    using Cons.prems(6) by (intro add32_small) simp
  consider "skipped + iov_len v < p" | "skipped + iov_len v = p" | "p < skipped + iov_len v"
    by linarith
  then show ?case
  proof cases
    case 1
    with Cons sum show ?thesis by (simp add: add.assoc Let_def)
  next
    case 2
    with kern_iovec_to_membuf_spec [of vs off len buf m] sum Cons.prems show ?thesis by auto
  next
    case 3
    define d where "d = p - skipped"
    define r where "r = iov_len v - d"
    have dr: "iov_len v = d + r" "0 < d" "0 < r" "r \<le> len" "p = skipped + d" "skipped + d + r < 2 ^ 32"
      "r + iov_total vs \<le> len"
      using 3 Cons.prems by (auto simp: d_def r_def)
    then show ?thesis
      using from_iovec_skip_hit [OF dr(1) _ dr(2-4) _ Cons.prems(2,4) dr(6,7), of m] Cons.prems(1)
      by (simp add: drop_rd)
  qed
qed simp

text \<open>
  Claim C23. Scattering a buffer over mapped, non-overlapping entries that are large enough and
  gathering it again gives the buffer back: both copies report the full length, the gathered
  block holds the bytes at its offset, and the scatter changed nothing outside the entries.
\<close>

theorem iovec_scatter_gather:
  assumes "iov_mapped vs" and "iov_disjoint vs" and "off + len \<le> length buf" and "len < 2 ^ 31"
    and "len \<le> iov_total vs" and "off' + len \<le> length buf'"
  shows "\<exists>m'. membuf_to_kern_iovec vs buf (Some off) len m = Inr (int len, m') \<and>
     kern_iovec_to_membuf buf' (Some off') len vs m' = Inr (int len, blit buf' off' (slice buf off len)) \<and>
     (\<forall>x. list_all (\<lambda>v. \<not> in_iov x v) vs \<longrightarrow> m' x = m x)"
proof -
  obtain m' where m': "membuf_to_kern_iovec vs buf (Some off) len m = Inr (int (min len (iov_total vs)), m')"
    "iov_bytes m' vs = slice buf off (min len (iov_total vs)) @ drop len (iov_bytes m vs)"
    "\<And>x. list_all (\<lambda>v. \<not> in_iov x v) vs \<Longrightarrow> m' x = m x"
    using membuf_to_kern_iovec_spec [OF assms(1-4)] by blast
  have "take len (iov_bytes m' vs) = slice buf off len"
    using m'(2) assms(3,5) by (simp add: min_absorb1)
  with m' kern_iovec_to_membuf_spec [OF assms(1,6,4), of m'] assms(5) show ?thesis
    by (auto simp: min_absorb1)
qed

definition two_iovs :: "iovec_kern list" where
  "two_iovs = [\<lparr>iov_base = 100, iov_len = 2\<rparr>, \<lparr>iov_base = 200, iov_len = 3\<rparr>]"

theorem iovec_scatter_gather_witness:
  "\<exists>m'. membuf_to_kern_iovec two_iovs [1, 2, 3, 4, 5] (Some 1) 4 (\<lambda>_. 0) = Inr (4, m') \<and>
     kern_iovec_to_membuf [0, 0, 0, 0] (Some 0) 4 two_iovs m' = Inr (4, [2, 3, 4, 5])"
  using iovec_scatter_gather [of two_iovs 1 4 "[1, 2, 3, 4, 5]" 0 "[0, 0, 0, 0]" "\<lambda>_. 0"]
  by (auto simp: two_iovs_def iov_apart_def slice_def blit_def)

text \<open>
  As long as the scatter list holds no more than the prefix and the payload together,
  the skipping copies are the plain copies on the list with its first \<open>p\<close> bytes cut off: the
  scatter direction equals the plain scatter on that list, and the gather direction fills the
  buffer with the bytes behind the prefix and reports their number.
\<close>

lemma iovec_skip_begin_correct:
  assumes "iov_mapped vs" and "off + len \<le> length buf" and "0 < len" and "len < 2 ^ 31" and "0 < p"
    and "iov_total vs < 2 ^ 32" and "p \<le> iov_total vs" and "iov_total vs \<le> p + len"
  shows "membuf_to_kern_iovec_skip_begin vs buf (Some off) len p m =
       membuf_to_kern_iovec (iov_skip p vs) buf (Some off) len m \<and>
     kern_iovec_to_membuf_skip_begin buf (Some off) len vs p m =
       Inr (int (iov_total vs - p), blit buf off (drop p (iov_bytes m vs)))"
proof -
  from assms have "vs \<noteq> []" by auto
  then show ?thesis
    using to_iovec_skip_loop_eq [of vs off len buf 0 p m] from_iovec_skip_loop_eq [of vs off len buf 0 p m]
      assms
    by (simp add: membuf_to_kern_iovec_skip_begin_def kern_iovec_to_membuf_skip_begin_def)
qed

text \<open>
  Claim C27. When one entry is longer than prefix and payload together, the skipping copies move
  as many bytes as the entry has behind the prefix instead of the payload length. Towards the
  normal world the bytes of the secure block that follow the payload are published, while the
  function reports the payload length; if the block ends before the entry does, the copy leaves
  the block. From the normal world the copy runs over the end of a block that is large enough for
  the payload.
\<close>

theorem iovec_skip_begin_overrun:
  assumes "iov_base v \<noteq> 0" and "0 < len" and "len < 2 ^ 31" and "0 < p" and "p + len < iov_len v"
    and "iov_len v < 2 ^ 32"
  shows "if off + (iov_len v - p) \<le> length buf then
       \<exists>m'. membuf_to_kern_iovec_skip_begin [v] buf (Some off) len p m = Inr (int len, m') \<and>
         rd m' (iov_base v + p + len) (iov_len v - p - len) =
           slice buf (off + len) (iov_len v - p - len)
     else membuf_to_kern_iovec_skip_begin [v] buf (Some off) len p m = Inl Out_of_bounds \<and>
       kern_iovec_to_membuf_skip_begin buf (Some off) len [v] p m = Inl Out_of_bounds"
proof -
  have eq: "add32 0 (iov_len v) = iov_len v" "sub32 (iov_len v) (iov_len v - p) = p"
    using assms by (simp_all add: add32_small)
  have gt: "len < iov_len v - p" using assms by simp
  show ?thesis
  proof (cases "off + (iov_len v - p) \<le> length buf")
    case fit: True
    let ?m = "wr m (iov_base v + p) (slice buf off (iov_len v - p))"
    have split: "iov_len v - p = len + (iov_len v - p - len)" using assms by simp
    have "rd ?m (iov_base v + p) (iov_len v - p) = slice buf off (iov_len v - p)"
      using fit by simp
    then have "rd ?m (iov_base v + p) len @ rd ?m (iov_base v + p + len) (iov_len v - p - len) =
        slice buf off len @ slice buf (off + len) (iov_len v - p - len)"
      by (metis split rd_add slice_append)
    then have "rd ?m (iov_base v + p + len) (iov_len v - p - len) =
        slice buf (off + len) (iov_len v - p - len)"
      using fit assms by (simp add: append_eq_append_conv)
    moreover have "membuf_to_kern_iovec_skip_begin [v] buf (Some off) len p m = Inr (int len, ?m)"
      using fit assms eq gt by (simp add: membuf_to_kern_iovec_skip_begin_def)
    ultimately show ?thesis using fit by auto
  next
    case False
    with assms eq gt show ?thesis
      by (simp add: membuf_to_kern_iovec_skip_begin_def kern_iovec_to_membuf_skip_begin_def)
  qed
qed

theorem iovec_skip_begin_overrun_witness:
  "(\<exists>m'. membuf_to_kern_iovec_skip_begin [\<lparr>iov_base = 100, iov_len = 5\<rparr>] [1, 2, 3, 42] (Some 0) 3 1 (\<lambda>_. 0)
       = Inr (3, m') \<and> rd m' 104 1 = [42]) \<and>
   membuf_to_kern_iovec_skip_begin [\<lparr>iov_base = 100, iov_len = 6\<rparr>] [1, 2, 3, 42] (Some 0) 3 1 (\<lambda>_. 0) =
     Inl Out_of_bounds"
  using iovec_skip_begin_overrun [of "\<lparr>iov_base = 100, iov_len = 5\<rparr>" 3 1 0 "[1, 2, 3, 42]" "\<lambda>_. 0"]
    iovec_skip_begin_overrun [of "\<lparr>iov_base = 100, iov_len = 6\<rparr>" 3 1 0 "[1, 2, 3, 42]" "\<lambda>_. 0"]
  by (auto simp: slice_def)

end
