(* ===== verification/Vqueue.thy ===== *)
theory Vqueue
  imports Iovec
begin

text \<open>
  The virtqueue of the virtual NIC (\<open>virtio-nic/vnic/src/vqueue.c\<close>, \<open>vqueue.h\<close> and the ring
  layout of \<open>virtio_ring.h\<close>). The rings live in normal-world memory at virtual addresses; the
  normal world may change them between any two reads. Address translation is OP-TEE's: the
  function \<open>va\<close> maps a physical address of non-secure RAM to its virtual address, 0 when it is
  not mapped, and \<open>add_mapping\<close> may extend it. A spin lock makes the locked operations atomic
  among themselves.
\<close>

unbundle bit_operations_syntax

section \<open>State\<close>

record vring =
  vr_num :: nat
  vr_num_default :: nat
  vr_desc :: nat
  vr_avail :: nat
  vr_used :: nat

datatype vqueue_cb = Vnic_vq_notify_cb | Vnic_vq_kick_cb

record vqueue =
  vq_id :: nat
  vq_vring :: vring
  vring_addr :: nat
  vring_sz :: nat
  vring_align :: nat
  last_avail_idx :: nat
  own_event :: bool
  notify_cb :: "vqueue_cb option"
  kick_cb :: "vqueue_cb option"

abbreviation vq_num :: "vqueue \<Rightarrow> nat" where "vq_num vq \<equiv> vr_num (vq_vring vq)"
abbreviation vq_desc :: "vqueue \<Rightarrow> nat" where "vq_desc vq \<equiv> vr_desc (vq_vring vq)"
abbreviation vq_avail :: "vqueue \<Rightarrow> nat" where "vq_avail vq \<equiv> vr_avail (vq_vring vq)"
abbreviation vq_used :: "vqueue \<Rightarrow> nat" where "vq_used vq \<equiv> vr_used (vq_vring vq)"

text \<open>
  The scatter lists of a buffer: \<open>phys\<close> and \<open>iovs\<close> are arrays of \<open>iovs_cnt\<close> entries, the empty
  list when the caller left the pointers null.
\<close>

record vqueue_iovs =
  iovs_cnt :: nat
  iovs_used :: nat
  iovs_len :: nat
  phys :: "nat list"
  iovs :: "iovec_kern list"

record vqueue_buf =
  vb_head :: nat
  in_iovs :: vqueue_iovs
  out_iovs :: vqueue_iovs

definition NO_ERROR :: int where "NO_ERROR = 0"
definition ERR_NOT_VALID :: int where "ERR_NOT_VALID = -7"
definition ERR_NOT_ENOUGH_BUFFER :: int where "ERR_NOT_ENOUGH_BUFFER = -9"
definition ERR_CHANNEL_CLOSED :: int where "ERR_CHANNEL_CLOSED = -15"
definition ERR_TOO_BIG :: int where "ERR_TOO_BIG = -25"

lemmas vq_errs = NO_ERROR_def ERR_NOT_VALID_def ERR_NOT_ENOUGH_BUFFER_def ERR_CHANNEL_CLOSED_def
  ERR_TOO_BIG_def

definition sub16 :: "nat \<Rightarrow> nat \<Rightarrow> nat" where
  "sub16 a b = (a + 2 ^ 16 - b) mod 2 ^ 16"

section \<open>Set-up and teardown\<close>

definition vqueue_init :: "vqueue \<Rightarrow> nat \<Rightarrow> nat \<Rightarrow> nat \<Rightarrow> vqueue_cb option \<Rightarrow> vqueue_cb option \<Rightarrow> vqueue" where
  "vqueue_init vq i num align ncb kcb =
     vq\<lparr>vring_align := align,
        vq_vring := \<lparr>vr_num = num, vr_num_default = num, vr_desc = 0, vr_avail = 0, vr_used = 0\<rparr>,
        last_avail_idx := 0, vq_id := i, notify_cb := ncb, kick_cb := kcb, vring_addr := 0\<rparr>"

definition vring_size :: "nat \<Rightarrow> nat \<Rightarrow> nat" where
  "vring_size num align = roundup2 (16 * num + 2 * (3 + num)) align + 2 * 3 + 8 * num"

definition check_ring_layout :: "(nat \<Rightarrow> nat) \<Rightarrow> nat \<Rightarrow> nat \<Rightarrow> int" where
  "check_ring_layout va pa ref_va = (if va pa = 0 then -1 else if va pa = ref_va then 0 else -1)"

definition SMALL_PAGE_SIZE :: nat where "SMALL_PAGE_SIZE = 4096"

text \<open>
  \<open>add_mapping va pa len\<close> is the translation after a successful \<open>core_mmu_add_mapping\<close>. The
  assertions on the physical addresses are reached with values the normal world wrote.
\<close>

definition vring_map :: "((nat \<Rightarrow> nat) \<Rightarrow> nat \<Rightarrow> nat \<Rightarrow> (nat \<Rightarrow> nat) option) \<Rightarrow> (nat \<Rightarrow> nat) \<Rightarrow> nat \<Rightarrow> nat \<Rightarrow> nat \<Rightarrow> nat" where
  "vring_map add_mapping va pa sz =
     (if va pa \<noteq> 0 then va
      else case add_mapping va pa (roundup2 sz SMALL_PAGE_SIZE) of None \<Rightarrow> va | Some va' \<Rightarrow> va')"

definition vqueue_vring_setup ::
    "((nat \<Rightarrow> nat) \<Rightarrow> nat \<Rightarrow> nat \<Rightarrow> (nat \<Rightarrow> nat) option) \<Rightarrow> (nat \<Rightarrow> nat) \<Rightarrow> vqueue \<Rightarrow> nat \<Rightarrow> nat \<Rightarrow> nat \<Rightarrow>
      (int \<times> vqueue \<times> (nat \<Rightarrow> nat)) res" where
  "vqueue_vring_setup add_mapping va vq desc_pa avail_pa used_pa =
     (if desc_pa = 0 \<or> avail_pa = 0 \<or> used_pa = 0 then Inl Assert_failed
      else
        let num = vq_num vq; align = vring_align vq;
            vq1 = vq\<lparr>vring_sz := vring_size num align\<rparr>;
            va' = vring_map add_mapping va desc_pa (vring_sz vq1);
            vaddr = va' desc_pa in
        if vaddr = 0 then Inr (-1, vq1, va')
        else
          let avail = vaddr + num * 16;
              used = roundup2 (avail + 4 + 2 * num + 2) align;
              ok = (check_ring_layout va' avail_pa avail = 0 \<and> check_ring_layout va' used_pa used = 0);
              vr = vq_vring vq1 in
          if ok
          then Inr (0, vq1\<lparr>vring_addr := vaddr,
                            vq_vring := vr\<lparr>vr_desc := vaddr, vr_avail := avail, vr_used := used\<rparr>\<rparr>, va')
          else Inr (-1, vq1\<lparr>vring_addr := 0,
                             vq_vring := vr\<lparr>vr_desc := 0, vr_avail := 0, vr_used := 0\<rparr>\<rparr>, va'))"

definition vqueue_vring_teardown :: "vqueue \<Rightarrow> vqueue res" where
  "vqueue_vring_teardown vq =
     (let vr = vq_vring vq;
          vq1 = vq\<lparr>vring_addr := 0, vring_sz := 0, last_avail_idx := 0\<rparr> in
      if vring_addr vq \<noteq> 0
      then Inr (vq1\<lparr>vq_vring := vr\<lparr>vr_used := 0, vr_avail := 0, vr_desc := 0\<rparr>\<rparr>)
      else if vr_desc vr \<noteq> 0 \<or> vr_avail vr \<noteq> 0 \<or> vr_used vr \<noteq> 0 then Inl Assert_failed
      else Inr vq1)"

text \<open>\<open>vqueue_destroy\<close> also frees the condition variable and mutex when the queue owns them.\<close>

definition vqueue_destroy :: "vqueue \<Rightarrow> (vqueue \<times> bool) res" where
  "vqueue_destroy vq = bind_res (vqueue_vring_teardown vq) (\<lambda>vq'. Inr (vq', own_event vq'))"

section \<open>Taking buffers from the available ring\<close>

definition deref :: "nat \<Rightarrow> 'a res \<Rightarrow> 'a res" where
  "deref p x = (if p = 0 then Inl Null_deref else x)"

definition VRING_DESC_F_NEXT :: nat where "VRING_DESC_F_NEXT = 1"
definition VRING_DESC_F_WRITE :: nat where "VRING_DESC_F_WRITE = 2"
definition VRING_USED_F_NO_NOTIFY :: nat where "VRING_USED_F_NO_NOTIFY = 1"

text \<open>
  One entry of a scatter list: the length is read once for the entry, the 64-bit address once for
  the 32-bit physical address and once more for the assertion that nothing was cut off, the length
  again for the running total. \<open>None\<close> is the full list.
\<close>

definition iovlist_add :: "nat \<Rightarrow> vqueue_iovs \<Rightarrow> nwmach \<Rightarrow> (vqueue_iovs \<times> nwmach) option res" where
  "iovlist_add da l s =
     (if iovs_used l < iovs_cnt l then
        let i = iovs_used l;
            s1 = sync s; len1 = rd32 (nwmem s1) (da + 8);
            s2 = sync s1; pa = rd64 (nwmem s2) da mod 2 ^ 32;
            s3 = sync s2; pa' = rd64 (nwmem s3) da;
            s4 = sync s3; len2 = rd32 (nwmem s4) (da + 8) in
        if length (iovs l) \<le> i \<or> length (phys l) \<le> i then Inl Out_of_bounds
        else if pa \<noteq> pa' then Inl Assert_failed
        else Inr (Some (l\<lparr>iovs := (iovs l)[i := (iovs l ! i)\<lparr>iov_len := len1\<rparr>],
                           phys := (phys l)[i := pa],
                           iovs_used := i + 1,
                           iovs_len := (iovs_len l + len2) mod 2 ^ 32\<rparr>, s4))
      else Inr None)"

function desc_loop :: "vqueue \<Rightarrow> nat \<Rightarrow> vqueue_buf \<Rightarrow> nwmach \<Rightarrow> (int \<times> vqueue_buf \<times> nwmach) res" where
  "desc_loop vq next_idx b s =
     (if next_idx \<ge> vq_num vq then Inr (ERR_NOT_VALID, b, s)
      else
        let da = vq_desc vq + 16 * next_idx;
            s1 = sync s;
            wrt = (rd16 (nwmem s1) (da + 12) AND VRING_DESC_F_WRITE \<noteq> 0) in
        case iovlist_add da (if wrt then out_iovs b else in_iovs b) s1 of
          Inl e \<Rightarrow> Inl e
        | Inr None \<Rightarrow> Inr (ERR_TOO_BIG, b, s1)
        | Inr (Some (l, s2)) \<Rightarrow>
            let b' = (if wrt then b\<lparr>out_iovs := l\<rparr> else b\<lparr>in_iovs := l\<rparr>);
                s3 = sync s2; next' = rd16 (nwmem s3) (da + 14);
                s4 = sync s3; flags = rd16 (nwmem s4) (da + 12) in
            if flags AND VRING_DESC_F_NEXT \<noteq> 0 then desc_loop vq next' b' s4
            else Inr (NO_ERROR, b', s4))"
  by pat_completeness auto

definition iov_room :: "vqueue_iovs \<Rightarrow> nat" where
  "iov_room l = iovs_cnt l - iovs_used l"

lemma iovlist_add_room:
  "iovlist_add da l s = Inr (Some (l', s')) \<Longrightarrow> iov_room l' < iov_room l"
  by (auto simp: iovlist_add_def iov_room_def Let_def split: if_splits)

termination desc_loop
proof (relation "measure (\<lambda>(vq, i, b, s). iov_room (in_iovs b) + iov_room (out_iovs b))", goal_cases)
  case 1
  then show ?case by simp
next
  case (2 vq next_idx b s da s1 wrt l s2 b' s3 next' s4 flags)
  then show ?case by (auto dest!: iovlist_add_room split: if_splits)
qed

declare desc_loop.simps [simp del]

definition vqueue_get_avail_buf :: "vqueue \<Rightarrow> vqueue_buf \<Rightarrow> nwmach \<Rightarrow> (int \<times> vqueue \<times> vqueue_buf \<times> nwmach) res" where
  "vqueue_get_avail_buf vq b s =
     (if vring_addr vq = 0 then Inr (ERR_CHANNEL_CLOSED, vq, b, s)
      else deref (vq_avail vq) (
        let s1 = sync s; avail_cnt = sub16 (rd16 (nwmem s1) (vq_avail vq + 2)) (last_avail_idx vq) in
        if avail_cnt > vq_num vq mod 2 ^ 16 then Inl Panic
        else
          let s2 = sync s1 in
          if last_avail_idx vq = rd16 (nwmem s2) (vq_avail vq + 2)
          then Inr (ERR_NOT_ENOUGH_BUFFER, vq, b, s2)
          else if vq_num vq = 0 then Inl Div_zero
          else
            let s3 = sync s2;
                next_idx = rd16 (nwmem s3) (vq_avail vq + 4 + 2 * (last_avail_idx vq mod vq_num vq));
                vq' = vq\<lparr>last_avail_idx := (last_avail_idx vq + 1) mod 2 ^ 16\<rparr> in
            if next_idx \<ge> vq_num vq then Inl Panic
            else
              let b' = b\<lparr>vb_head := next_idx,
                         in_iovs := (in_iovs b)\<lparr>iovs_used := 0, iovs_len := 0\<rparr>,
                         out_iovs := (out_iovs b)\<lparr>iovs_used := 0, iovs_len := 0\<rparr>\<rparr> in
              bind_res (desc_loop vq' next_idx b' s3) (\<lambda>(r, b'', s'). Inr (r, vq', b'', s'))))"

definition vqueue_num_of_avail_buf :: "vqueue \<Rightarrow> nwmach \<Rightarrow> (nat \<times> nwmach) res" where
  "vqueue_num_of_avail_buf vq s =
     deref (vq_avail vq)
       (let s1 = sync s in Inr (sub16 (rd16 (nwmem s1) (vq_avail vq + 2)) (last_avail_idx vq), s1))"

text \<open>A read-modify-write of the flags of the used ring.\<close>

definition used_flags_update :: "(nat \<Rightarrow> nat) \<Rightarrow> vqueue \<Rightarrow> nwmach \<Rightarrow> nwmach res" where
  "used_flags_update f vq s =
     deref (vq_used vq)
       (let s1 = sync s; v = rd16 (nwmem s1) (vq_used vq); s2 = sync s1 in
        Inr (s2\<lparr>nwmem := wr (nwmem s2) (vq_used vq) (le_bytes 2 (f v))\<rparr>))"

definition vqueue_napi_signal_avail :: "vqueue \<Rightarrow> nwmach \<Rightarrow> nwmach res" where
  "vqueue_napi_signal_avail vq s =
     (if vring_addr vq \<noteq> 0 then used_flags_update (\<lambda>v. v OR VRING_USED_F_NO_NOTIFY) vq s else Inr s)"

definition vqueue_num_of_avail_buf_and_notify :: "vqueue \<Rightarrow> nwmach \<Rightarrow> (nat \<times> nwmach) res" where
  "vqueue_num_of_avail_buf_and_notify vq s =
     bind_res (vqueue_num_of_avail_buf vq s) (\<lambda>(num_bufs, s1).
       if num_bufs \<noteq> 0
       then bind_res (used_flags_update (\<lambda>v. v OR VRING_USED_F_NO_NOTIFY) vq s1) (\<lambda>s2. Inr (num_bufs, s2))
       else bind_res (used_flags_update (\<lambda>v. v AND 0xFFFE) vq s1) (\<lambda>s2.
         let s3 = sync s2 in
         if last_avail_idx vq = rd16 (nwmem s3) (vq_avail vq + 2) then Inr (0, s3)
         else bind_res (vqueue_num_of_avail_buf vq s3) (\<lambda>(num_bufs', s4).
           bind_res (used_flags_update (\<lambda>v. v OR VRING_USED_F_NO_NOTIFY) vq s4) (\<lambda>s5. Inr (num_bufs', s5)))))"

section \<open>Mapping scatter lists\<close>

text \<open>
  The loop stores the translated address of every entry. When one is not mapped, the addresses
  stored so far are cleared and the function returns \<open>ret\<close>, which nothing has assigned: \<open>junk\<close> is
  whatever value the variable happens to hold.
\<close>

fun map_iovs_loop :: "(nat \<Rightarrow> nat) \<Rightarrow> nat \<Rightarrow> nat \<Rightarrow> vqueue_iovs \<Rightarrow> (nat option \<times> vqueue_iovs) res" where
  "map_iovs_loop va i 0 l = Inr (None, l)"
| "map_iovs_loop va i (Suc n) l =
     (if length (iovs l) \<le> i \<or> length (phys l) \<le> i then Inl Out_of_bounds
      else
        let vaddr = va (phys l ! i);
            l' = l\<lparr>iovs := (iovs l)[i := (iovs l ! i)\<lparr>iov_base := vaddr\<rparr>]\<rparr> in
        if vaddr = 0 then Inr (Some i, l') else map_iovs_loop va (i + 1) n l')"

fun clear_bases :: "nat \<Rightarrow> iovec_kern list \<Rightarrow> iovec_kern list" where
  "clear_bases 0 vs = vs"
| "clear_bases (Suc i) vs = clear_bases i (vs[i := (vs ! i)\<lparr>iov_base := 0\<rparr>])"

definition vqueue_map_iovs :: "(nat \<Rightarrow> nat) \<Rightarrow> int \<Rightarrow> vqueue_iovs \<Rightarrow> (int \<times> vqueue_iovs) res" where
  "vqueue_map_iovs va junk l =
     (if phys l = [] \<or> iovs l = [] \<or> \<not> iovs_used l \<le> iovs_cnt l then Inl Assert_failed
      else bind_res (map_iovs_loop va 0 (iovs_used l) l) (\<lambda>(bad, l').
        case bad of None \<Rightarrow> Inr (NO_ERROR, l')
        | Some i \<Rightarrow> Inr (junk, l'\<lparr>iovs := clear_bases i (iovs l')\<rparr>)))"

fun unmap_loop :: "nat \<Rightarrow> nat \<Rightarrow> iovec_kern list \<Rightarrow> iovec_kern list res" where
  "unmap_loop i 0 vs = Inr vs"
| "unmap_loop i (Suc n) vs =
     (if length vs \<le> i then Inl Out_of_bounds
      else if iov_base (vs ! i) = 0 then Inl Assert_failed
      else unmap_loop (i + 1) n (vs[i := (vs ! i)\<lparr>iov_base := 0\<rparr>]))"

definition vqueue_unmap_iovs :: "vqueue_iovs \<Rightarrow> vqueue_iovs res" where
  "vqueue_unmap_iovs l =
     (if phys l = [] \<or> iovs l = [] \<or> \<not> iovs_used l \<le> iovs_cnt l then Inl Assert_failed
      else bind_res (unmap_loop 0 (iovs_used l) (iovs l)) (\<lambda>vs. Inr (l\<lparr>iovs := vs\<rparr>)))"

section \<open>Returning buffers on the used ring\<close>

definition vqueue_add_buf :: "vqueue \<Rightarrow> vqueue_buf \<Rightarrow> nat \<Rightarrow> nwmach \<Rightarrow> (int \<times> nwmach) res" where
  "vqueue_add_buf vq b len s =
     (if vring_addr vq = 0 then Inr (ERR_CHANNEL_CLOSED, s)
      else if vb_head b \<ge> vq_num vq then Inr (ERR_NOT_VALID, s)
      else deref (vq_used vq) (
        let s1 = sync s;
            slot = vq_used vq + 4 + 8 * (rd16 (nwmem s1) (vq_used vq + 2) mod vq_num vq);
            s2 = sync s1; s2' = s2\<lparr>nwmem := wr (nwmem s2) slot (le_bytes 4 (vb_head b))\<rparr>;
            s3 = sync s2'; s3' = s3\<lparr>nwmem := wr (nwmem s3) (slot + 4) (le_bytes 4 len)\<rparr>;
            s4 = sync s3'; idx = rd16 (nwmem s4) (vq_used vq + 2);
            s5 = sync s4 in
        Inr (NO_ERROR, s5\<lparr>nwmem := wr (nwmem s5) (vq_used vq + 2) (le_bytes 2 (idx + 1))\<rparr>)))"

definition vqueue_id :: "vqueue \<Rightarrow> nat" where
  "vqueue_id vq = vq_id vq"

section \<open>Layout\<close>

text \<open>A queue that is set up: the three areas follow each other in the layout of the standard.\<close>

definition vring_ok :: "vqueue \<Rightarrow> bool" where
  "vring_ok vq \<longleftrightarrow> vring_addr vq \<noteq> 0 \<and> vq_desc vq = vring_addr vq \<and>
     vq_avail vq = vring_addr vq + 16 * vq_num vq \<and>
     vq_used vq = roundup2 (vq_avail vq + 4 + 2 * vq_num vq + 2) (vring_align vq) \<and>
     vring_sz vq = vring_size (vq_num vq) (vring_align vq)"

definition vring_off :: "vqueue \<Rightarrow> bool" where
  "vring_off vq \<longleftrightarrow> vring_addr vq = 0 \<and> vq_desc vq = 0 \<and> vq_avail vq = 0 \<and> vq_used vq = 0"

lemma roundup2_mono_add:
  assumes "0 < m" "m dvd a"
  shows "roundup2 (a + x) m = a + roundup2 x m"
proof -
  from assms(2) obtain k where "a = m * k" by (auto elim: dvdE)
  moreover have "(m * k + (x + (m - 1))) div m = k + (x + (m - 1)) div m"
    using assms(1) by (rule div_mult_self4 [OF not_sym [OF less_imp_neq]])
  ultimately have "(a + x + (m - 1)) div m = k + (x + (m - 1)) div m"
    by (simp only: add.assoc)
  then show ?thesis using \<open>a = m * k\<close> by (simp add: roundup2_def algebra_simps)
qed

lemma vring_ok_region:
  assumes "vring_ok vq" "0 < vring_align vq" "vring_align vq dvd vring_addr vq"
  shows "vq_avail vq + 4 + 2 * vq_num vq + 2 \<le> vq_used vq"
    and "vq_used vq + 4 + 8 * vq_num vq + 2 = vring_addr vq + vring_sz vq"
proof -
  let ?n = "vq_num vq"
  have u: "vq_used vq = vring_addr vq + roundup2 (16 * ?n + 2 * (3 + ?n)) (vring_align vq)"
  proof -
    have "vq_avail vq + 4 + 2 * ?n + 2 = vring_addr vq + (16 * ?n + 2 * (3 + ?n))"
      using assms(1) by (simp add: vring_ok_def)
    then show ?thesis
      using assms(1) roundup2_mono_add [OF assms(2,3), of "16 * ?n + 2 * (3 + ?n)"]
      unfolding vring_ok_def by argo
  qed
  show "vq_avail vq + 4 + 2 * vq_num vq + 2 \<le> vq_used vq"
    using assms(1) roundup2_ge [OF assms(2)] by (simp add: vring_ok_def)
  show "vq_used vq + 4 + 8 * vq_num vq + 2 = vring_addr vq + vring_sz vq"
    using assms(1) u by (simp add: vring_ok_def vring_size_def)
qed


definition sample_vq :: vqueue where
  "sample_vq = vqueue_init \<lparr>vq_id = 0, vq_vring = \<lparr>vr_num = 0, vr_num_default = 0, vr_desc = 0,
      vr_avail = 0, vr_used = 0\<rparr>, vring_addr = 0, vring_sz = 0, vring_align = 0, last_avail_idx = 0,
      own_event = False, notify_cb = None, kick_cb = None\<rparr> 1 4 4096
      (Some Vnic_vq_notify_cb) (Some Vnic_vq_kick_cb)"

definition sample_ring :: vqueue where
  "sample_ring = sample_vq\<lparr>vring_sz := 4096 + 38, vring_addr := 0x10000,
      vq_vring := \<lparr>vr_num = 4, vr_num_default = 4, vr_desc = 0x10000, vr_avail = 0x10040, vr_used = 0x11000\<rparr>\<rparr>"

lemmas sample_defs = sample_vq_def sample_ring_def vqueue_init_def


section \<open>Reading the available ring against any normal world\<close>

definition iovs_wf :: "vqueue_iovs \<Rightarrow> bool" where
  "iovs_wf l \<longleftrightarrow> length (iovs l) = iovs_cnt l \<and> length (phys l) = iovs_cnt l \<and> iovs_used l \<le> iovs_cnt l"

definition vbuf_wf :: "vqueue_buf \<Rightarrow> bool" where
  "vbuf_wf b \<longleftrightarrow> iovs_wf (in_iovs b) \<and> iovs_wf (out_iovs b)"

lemma iovlist_add_cases:
  assumes "iovs_wf l"
  obtains "iovlist_add da l s = Inl Assert_failed" | "iovlist_add da l s = Inr None"
  | l' s' where "iovlist_add da l s = Inr (Some (l', s'))" "iovs_wf l'" "iovs_used l' = iovs_used l + 1"
proof (cases "iovs_used l < iovs_cnt l")
  case True
  show ?thesis
  proof (cases "rd64 (nwmem (sync (sync s))) da mod 2 ^ 32 = rd64 (nwmem (sync (sync (sync s)))) da")
    case eq: True
    show ?thesis
      by (rule that(3)) (use True eq assms in \<open>auto simp: iovlist_add_def iovs_wf_def Let_def\<close>)
  next
    case False
    with True assms show ?thesis
      by (intro that(1)) (auto simp: iovlist_add_def iovs_wf_def Let_def)
  qed
next
  case False
  then show ?thesis using that(2) by (simp add: iovlist_add_def)
qed

lemma desc_loop_safe:
  assumes "vbuf_wf b"
  shows "case desc_loop vq i b s of Inl e \<Rightarrow> e = Assert_failed
    | Inr (r, b', s') \<Rightarrow> r \<in> {NO_ERROR, ERR_NOT_VALID, ERR_TOO_BIG} \<and> vbuf_wf b' \<and> vb_head b' = vb_head b \<and>
        iovs_used (in_iovs b) + iovs_used (out_iovs b) \<le> iovs_used (in_iovs b') + iovs_used (out_iovs b') \<and>
        (r = NO_ERROR \<longrightarrow> 0 < iovs_used (in_iovs b') + iovs_used (out_iovs b'))"
  using assms
proof (induction vq i b s rule: desc_loop.induct)
  case (1 vq i b s)
  show ?case
  proof (cases "vq_num vq \<le> i")
    case True
    with 1 show ?thesis by (simp add: desc_loop.simps vq_errs)
  next
    case False
    let ?da = "vq_desc vq + 16 * i"
    define wrt where "wrt = (rd16 (nwmem (sync s)) (?da + 12) AND VRING_DESC_F_WRITE \<noteq> 0)"
    define l where "l = (if wrt then out_iovs b else in_iovs b)"
    have "iovs_wf l" using "1.prems" by (simp add: l_def vbuf_wf_def)
    then show ?thesis
    proof (cases rule: iovlist_add_cases [where da = ?da and s = "sync s"])
      case 1
      with False show ?thesis by (simp add: desc_loop.simps Let_def l_def wrt_def)
    next
      case 2
      with False "1.prems" show ?thesis
        by (simp add: desc_loop.simps Let_def l_def wrt_def vq_errs)
    next
      case (3 l' s')
      let ?b = "if wrt then b\<lparr>out_iovs := l'\<rparr> else b\<lparr>in_iovs := l'\<rparr>"
      let ?i = "rd16 (nwmem (sync s')) (?da + 14)"
      have wf: "vbuf_wf ?b" using 3 "1.prems" by (simp add: vbuf_wf_def)
      have cnt: "iovs_used (in_iovs ?b) + iovs_used (out_iovs ?b) =
          iovs_used (in_iovs b) + iovs_used (out_iovs b) + 1"
        using 3(3) by (simp add: l_def split: if_splits)
      have step: "desc_loop vq i b s =
        (if rd16 (nwmem (sync (sync s'))) (?da + 12) AND VRING_DESC_F_NEXT \<noteq> 0
         then desc_loop vq ?i ?b (sync (sync s')) else Inr (NO_ERROR, ?b, sync (sync s')))"
        using False 3(1) by (subst desc_loop.simps) (simp add: Let_def l_def wrt_def)
      show ?thesis
      proof (cases "rd16 (nwmem (sync (sync s'))) (?da + 12) AND VRING_DESC_F_NEXT \<noteq> 0")
        case True
        have "case desc_loop vq ?i ?b (sync (sync s')) of Inl e \<Rightarrow> e = Assert_failed
          | Inr (r, b', s') \<Rightarrow> r \<in> {NO_ERROR, ERR_NOT_VALID, ERR_TOO_BIG} \<and> vbuf_wf b' \<and> vb_head b' = vb_head ?b \<and>
            iovs_used (in_iovs ?b) + iovs_used (out_iovs ?b) \<le> iovs_used (in_iovs b') + iovs_used (out_iovs b') \<and>
            (r = NO_ERROR \<longrightarrow> 0 < iovs_used (in_iovs b') + iovs_used (out_iovs b'))"
          using 3(1) False True wf unfolding l_def wrt_def by (intro "1.IH") simp_all
        moreover have "vb_head ?b = vb_head b" by simp
        ultimately show ?thesis unfolding step using True cnt
          by (auto split: sum.splits)
      next
        case False
        then show ?thesis unfolding step using wf cnt by auto
      qed
    qed
  qed
qed

lemma get_avail_buf_spec:
  assumes "vbuf_wf b" and "0 < vq_num vq" and "vring_addr vq = 0 \<or> vq_avail vq \<noteq> 0"
  shows "case vqueue_get_avail_buf vq b s of
      Inl e \<Rightarrow> e = Panic \<or> e = Assert_failed
    | Inr (r, vq', b', s') \<Rightarrow>
        r \<in> {NO_ERROR, ERR_NOT_VALID, ERR_NOT_ENOUGH_BUFFER, ERR_CHANNEL_CLOSED, ERR_TOO_BIG} \<and> vbuf_wf b' \<and>
        (vq' = vq \<or> vq' = vq\<lparr>last_avail_idx := (last_avail_idx vq + 1) mod 2 ^ 16\<rparr>) \<and>
        (r = NO_ERROR \<longrightarrow> vb_head b' < vq_num vq \<and> 0 < iovs_used (in_iovs b') + iovs_used (out_iovs b'))"
proof -
  define b0 where "b0 i = b\<lparr>vb_head := i, in_iovs := (in_iovs b)\<lparr>iovs_used := 0, iovs_len := 0\<rparr>,
      out_iovs := (out_iovs b)\<lparr>iovs_used := 0, iovs_len := 0\<rparr>\<rparr>" for i
  define vq1 where "vq1 = vq\<lparr>last_avail_idx := (last_avail_idx vq + 1) mod 2 ^ 16\<rparr>"
  have wf: "vbuf_wf (b0 i)" "vb_head (b0 i) = i" for i
    using assms(1) by (simp_all add: b0_def vbuf_wf_def iovs_wf_def)
  let ?s = "sync (sync (sync s))"
  define i where "i = rd16 (nwmem ?s) (vq_avail vq + 4 + 2 * (last_avail_idx vq mod vq_num vq))"
  consider "vring_addr vq = 0"
    | "vring_addr vq \<noteq> 0" "sub16 (rd16 (nwmem (sync s)) (vq_avail vq + 2)) (last_avail_idx vq) > vq_num vq mod 2 ^ 16"
    | "vring_addr vq \<noteq> 0" "last_avail_idx vq = rd16 (nwmem (sync (sync s))) (vq_avail vq + 2)"
      "\<not> sub16 (rd16 (nwmem (sync s)) (vq_avail vq + 2)) (last_avail_idx vq) > vq_num vq mod 2 ^ 16"
    | "vring_addr vq \<noteq> 0" "last_avail_idx vq \<noteq> rd16 (nwmem (sync (sync s))) (vq_avail vq + 2)"
      "\<not> sub16 (rd16 (nwmem (sync s)) (vq_avail vq + 2)) (last_avail_idx vq) > vq_num vq mod 2 ^ 16"
    by blast
  then show ?thesis
  proof cases
    case 4
    then have "vqueue_get_avail_buf vq b s =
        (if i \<ge> vq_num vq then Inl Panic
         else bind_res (desc_loop vq1 i (b0 i) ?s) (\<lambda>(r, b'', s'). Inr (r, vq1, b'', s')))"
      using assms by (simp add: vqueue_get_avail_buf_def deref_def Let_def b0_def vq1_def i_def)
    then show ?thesis
      using desc_loop_safe [OF wf(1) [of i], of vq1 i ?s] wf(2) by (auto simp: vq1_def bind_res_def split: sum.splits)
  qed (use assms in \<open>auto simp: vqueue_get_avail_buf_def deref_def Let_def vq_errs\<close>)
qed


section \<open>Reading a chain the driver wrote\<close>

definition d_addr :: "mem \<Rightarrow> vqueue \<Rightarrow> nat \<Rightarrow> nat" where
  "d_addr m vq d = rd64 m (vq_desc vq + 16 * d)"

definition d_len :: "mem \<Rightarrow> vqueue \<Rightarrow> nat \<Rightarrow> nat" where
  "d_len m vq d = rd32 m (vq_desc vq + 16 * d + 8)"

definition d_write :: "mem \<Rightarrow> vqueue \<Rightarrow> nat \<Rightarrow> bool" where
  "d_write m vq d \<longleftrightarrow> rd16 m (vq_desc vq + 16 * d + 12) AND VRING_DESC_F_WRITE \<noteq> 0"

definition d_more :: "mem \<Rightarrow> vqueue \<Rightarrow> nat \<Rightarrow> bool" where
  "d_more m vq d \<longleftrightarrow> rd16 m (vq_desc vq + 16 * d + 12) AND VRING_DESC_F_NEXT \<noteq> 0"

definition d_next :: "mem \<Rightarrow> vqueue \<Rightarrow> nat \<Rightarrow> nat" where
  "d_next m vq d = rd16 m (vq_desc vq + 16 * d + 14)"

text \<open>\<open>desc_chain m vq d ds\<close>: the descriptors of the chain that starts at \<open>d\<close> are \<open>ds\<close>.\<close>

fun desc_chain :: "mem \<Rightarrow> vqueue \<Rightarrow> nat \<Rightarrow> nat list \<Rightarrow> bool" where
  "desc_chain m vq d [] \<longleftrightarrow> False"
| "desc_chain m vq d (e # es) \<longleftrightarrow> d = e \<and> d < vq_num vq \<and> d_addr m vq d < 2 ^ 32 \<and>
     (if d_more m vq d then desc_chain m vq (d_next m vq d) es else es = [])"

text \<open>What a scatter list holds: the lengths and the physical addresses of its used entries.\<close>

definition iovs_view :: "vqueue_iovs \<Rightarrow> (nat \<times> nat) list" where
  "iovs_view l = zip (take (iovs_used l) (phys l)) (map iov_len (take (iovs_used l) (iovs l)))"

definition d_view :: "mem \<Rightarrow> vqueue \<Rightarrow> nat list \<Rightarrow> (nat \<times> nat) list" where
  "d_view m vq ds = map (\<lambda>d. (d_addr m vq d, d_len m vq d)) ds"

definition d_total :: "mem \<Rightarrow> vqueue \<Rightarrow> nat list \<Rightarrow> nat" where
  "d_total m vq ds = sum_list (map (d_len m vq) ds)"

lemma iovlist_add_quiet:
  assumes "quiet s" "iovs_wf l" "iovs_used l < iovs_cnt l" "d_addr (nwmem s) vq d < 2 ^ 32"
  obtains l' s' where "iovlist_add (vq_desc vq + 16 * d) l s = Inr (Some (l', s'))"
    "iovs_wf l'" "iovs_used l' = iovs_used l + 1" "iovs_cnt l' = iovs_cnt l"
    "iovs_view l' = iovs_view l @ d_view (nwmem s) vq [d]"
    "iovs_len l' = (iovs_len l + d_len (nwmem s) vq d) mod 2 ^ 32"
    "quiet s'" "nwmem s' = nwmem s"
proof -
  let ?i = "iovs_used l"
  let ?l = "l\<lparr>iovs := (iovs l)[?i := (iovs l ! ?i)\<lparr>iov_len := d_len (nwmem s) vq d\<rparr>],
      phys := (phys l)[?i := d_addr (nwmem s) vq d], iovs_used := ?i + 1,
      iovs_len := (iovs_len l + d_len (nwmem s) vq d) mod 2 ^ 32\<rparr>"
  have "iovlist_add (vq_desc vq + 16 * d) l s = Inr (Some (?l, sync (sync (sync (sync s)))))"
    using assms by (simp add: iovlist_add_def iovs_wf_def Let_def d_addr_def d_len_def)
  moreover have "iovs_view ?l = iovs_view l @ d_view (nwmem s) vq [d]"
    using assms(2,3) by (simp add: iovs_view_def d_view_def iovs_wf_def list_facts)
  ultimately show ?thesis
    using assms by (intro that [of ?l "sync (sync (sync (sync s)))"]) (simp_all add: iovs_wf_def)
qed

definition d_ins :: "mem \<Rightarrow> vqueue \<Rightarrow> nat list \<Rightarrow> nat list" where
  "d_ins m vq ds = filter (\<lambda>d. \<not> d_write m vq d) ds"

definition d_outs :: "mem \<Rightarrow> vqueue \<Rightarrow> nat list \<Rightarrow> nat list" where
  "d_outs m vq ds = filter (d_write m vq) ds"

definition buf_extends :: "mem \<Rightarrow> vqueue \<Rightarrow> nat list \<Rightarrow> vqueue_buf \<Rightarrow> vqueue_buf \<Rightarrow> bool" where
  "buf_extends m vq ds b b' \<longleftrightarrow> vbuf_wf b' \<and> vb_head b' = vb_head b \<and>
     iovs_view (in_iovs b') = iovs_view (in_iovs b) @ d_view m vq (d_ins m vq ds) \<and>
     iovs_view (out_iovs b') = iovs_view (out_iovs b) @ d_view m vq (d_outs m vq ds) \<and>
     iovs_len (in_iovs b') mod 2 ^ 32 = (iovs_len (in_iovs b) + d_total m vq (d_ins m vq ds)) mod 2 ^ 32 \<and>
     iovs_len (out_iovs b') mod 2 ^ 32 = (iovs_len (out_iovs b) + d_total m vq (d_outs m vq ds)) mod 2 ^ 32"

definition buf_fits :: "mem \<Rightarrow> vqueue \<Rightarrow> nat list \<Rightarrow> vqueue_buf \<Rightarrow> bool" where
  "buf_fits m vq ds b \<longleftrightarrow>
     iovs_used (in_iovs b) + length (d_ins m vq ds) \<le> iovs_cnt (in_iovs b) \<and>
     iovs_used (out_iovs b) + length (d_outs m vq ds) \<le> iovs_cnt (out_iovs b)"

lemma d_split_simps [simp]:
  "d_ins m vq [] = []" "d_outs m vq [] = []"
  "d_ins m vq (d # ds) = (if d_write m vq d then d_ins m vq ds else d # d_ins m vq ds)"
  "d_outs m vq (d # ds) = (if d_write m vq d then d # d_outs m vq ds else d_outs m vq ds)"
  "d_view m vq [] = []" "d_view m vq (d # ds) = (d_addr m vq d, d_len m vq d) # d_view m vq ds"
  "d_total m vq [] = 0" "d_total m vq (d # ds) = d_len m vq d + d_total m vq ds"
  by (simp_all add: d_ins_def d_outs_def d_view_def d_total_def)

lemma mod_chain:
  fixes x y z t :: nat
  shows "x mod k = (z + u) mod k \<Longrightarrow> y mod k = (x + t) mod k \<Longrightarrow> y mod k = (z + (u + t)) mod k"
  by (metis add.assoc mod_add_left_eq)

lemma buf_extends_step:
  assumes "buf_extends m vq [d] b b1" "buf_extends m vq ds b1 b2"
  shows "buf_extends m vq (d # ds) b b2"
proof (cases "d_write m vq d")
  case True
  with assms show ?thesis
    using mod_chain [of "iovs_len (out_iovs b1)" "2 ^ 32" "iovs_len (out_iovs b)" "d_len m vq d"
        "iovs_len (out_iovs b2)" "d_total m vq (d_outs m vq ds)"]
      mod_chain [of "iovs_len (in_iovs b1)" "2 ^ 32" "iovs_len (in_iovs b)" 0
        "iovs_len (in_iovs b2)" "d_total m vq (d_ins m vq ds)"]
    unfolding buf_extends_def by simp
next
  case False
  with assms show ?thesis
    using mod_chain [of "iovs_len (in_iovs b1)" "2 ^ 32" "iovs_len (in_iovs b)" "d_len m vq d"
        "iovs_len (in_iovs b2)" "d_total m vq (d_ins m vq ds)"]
      mod_chain [of "iovs_len (out_iovs b1)" "2 ^ 32" "iovs_len (out_iovs b)" 0
        "iovs_len (out_iovs b2)" "d_total m vq (d_outs m vq ds)"]
    unfolding buf_extends_def by simp
qed

lemma desc_step_quiet:
  assumes "quiet s" "vbuf_wf b" "buf_fits (nwmem s) vq (d # ds) b" "d < vq_num vq"
    "d_addr (nwmem s) vq d < 2 ^ 32"
  obtains b1 s1 where "desc_loop vq d b s =
      (if d_more (nwmem s) vq d then desc_loop vq (d_next (nwmem s) vq d) b1 s1 else Inr (NO_ERROR, b1, s1))"
    "quiet s1" "nwmem s1 = nwmem s" "buf_extends (nwmem s) vq [d] b b1" "buf_fits (nwmem s) vq ds b1"
proof -
  let ?w = "d_write (nwmem s) vq d"
  define l where "l = (if ?w then out_iovs b else in_iovs b)"
  have l: "iovs_wf l" "iovs_used l < iovs_cnt l"
    using assms(2,3) by (simp_all add: l_def vbuf_wf_def buf_fits_def split: if_splits)
  obtain l' s' where l': "iovlist_add (vq_desc vq + 16 * d) l (sync s) = Inr (Some (l', s'))"
    "iovs_wf l'" "iovs_used l' = iovs_used l + 1" "iovs_cnt l' = iovs_cnt l"
    "iovs_view l' = iovs_view l @ d_view (nwmem s) vq [d]"
    "iovs_len l' = (iovs_len l + d_len (nwmem s) vq d) mod 2 ^ 32"
    "quiet s'" "nwmem s' = nwmem s"
    using iovlist_add_quiet [of "sync s" l vq d] assms(1,5) l by auto
  let ?b = "if ?w then b\<lparr>out_iovs := l'\<rparr> else b\<lparr>in_iovs := l'\<rparr>"
  have "desc_loop vq d b s = (if d_more (nwmem s) vq d
      then desc_loop vq (d_next (nwmem s) vq d) ?b (sync (sync s')) else Inr (NO_ERROR, ?b, sync (sync s')))"
    using assms(1,4) l' unfolding l_def
    by (subst desc_loop.simps) (simp add: Let_def d_write_def d_more_def d_next_def)
  moreover have "buf_extends (nwmem s) vq [d] b ?b"
    using assms(2) l' by (auto simp: buf_extends_def l_def vbuf_wf_def)
  moreover have "buf_fits (nwmem s) vq ds ?b"
    using assms(3) l' by (auto simp: buf_fits_def l_def split: if_splits)
  ultimately show ?thesis
    using l'(7,8) by (intro that [of ?b "sync (sync s')"]) simp_all
qed

lemma desc_loop_chain:
  assumes "quiet s" "desc_chain (nwmem s) vq d ds" "vbuf_wf b" "buf_fits (nwmem s) vq ds b"
  obtains b' s' where "desc_loop vq d b s = Inr (NO_ERROR, b', s')" "quiet s'" "nwmem s' = nwmem s"
    "buf_extends (nwmem s) vq ds b b'"
  using assms
proof (induction ds arbitrary: d b s thesis)
  case (Cons e es)
  from Cons.prems(3) have d: "d = e" "d < vq_num vq" "d_addr (nwmem s) vq d < 2 ^ 32" by auto
  obtain b1 s1 where st: "desc_loop vq d b s =
      (if d_more (nwmem s) vq d then desc_loop vq (d_next (nwmem s) vq d) b1 s1 else Inr (NO_ERROR, b1, s1))"
    "quiet s1" "nwmem s1 = nwmem s" "buf_extends (nwmem s) vq [d] b b1" "buf_fits (nwmem s) vq es b1"
    using desc_step_quiet [OF Cons.prems(2,4) _ d(2,3), of es] Cons.prems(5) d(1) by blast
  show ?case
  proof (cases "d_more (nwmem s) vq d")
    case True
    then have "desc_chain (nwmem s1) vq (d_next (nwmem s) vq d) es" using Cons.prems(3) st(3) by auto
    moreover have "vbuf_wf b1" using st(4) by (simp add: buf_extends_def)
    ultimately obtain b' s' where "desc_loop vq (d_next (nwmem s) vq d) b1 s1 = Inr (NO_ERROR, b', s')"
      "quiet s'" "nwmem s' = nwmem s" "buf_extends (nwmem s) vq es b1 b'"
      using Cons.IH [OF _ st(2), of "d_next (nwmem s) vq d" b1] st(3,5) by metis
    with True st buf_extends_step d(1) show ?thesis by (intro Cons.prems(1) [of b' s']) auto
  next
    case False
    with Cons.prems(3) have "es = []" by simp
    with False st d(1) show ?thesis by (intro Cons.prems(1) [of b1 s1]) auto
  qed
qed simp

text \<open>The read index plays no role in what a chain is.\<close>

lemma d_last_idx:
  "d_write m (vq\<lparr>last_avail_idx := k\<rparr>) = d_write m vq"
  "d_view m (vq\<lparr>last_avail_idx := k\<rparr>) = d_view m vq"
  "d_total m (vq\<lparr>last_avail_idx := k\<rparr>) = d_total m vq"
  by (intro ext, simp add: d_write_def d_view_def d_total_def d_addr_def d_len_def cong: map_cong)+

lemma d_last_idx_split:
  "d_ins m (vq\<lparr>last_avail_idx := k\<rparr>) = d_ins m vq"
  "d_outs m (vq\<lparr>last_avail_idx := k\<rparr>) = d_outs m vq"
  by (intro ext, simp add: d_ins_def d_outs_def d_last_idx)+

lemma desc_chain_last_idx: "desc_chain m (vq\<lparr>last_avail_idx := k\<rparr>) d ds = desc_chain m vq d ds"
  by (induction ds arbitrary: d) (simp_all add: d_addr_def d_more_def d_next_def)

lemmas same = d_last_idx d_last_idx_split desc_chain_last_idx

text \<open>
  Claim C17. When the driver has published the chain \<open>ds\<close> and leaves it alone, taking a buffer
  succeeds and delivers exactly that chain: the head, the physical addresses and lengths of its
  readable descriptors as the in-list and of its writable ones as the out-list, in order, with the
  sum of their lengths modulo \<open>2 ^ 32\<close> as the total, and the read index advances by one.
\<close>

theorem get_avail_buf_chain:
  assumes "quiet s" and "vring_addr vq \<noteq> 0" and "vq_avail vq \<noteq> 0" and "vq_num vq < 2 ^ 16"
    and "sub16 (rd16 (nwmem s) (vq_avail vq + 2)) (last_avail_idx vq) \<le> vq_num vq"
    and "last_avail_idx vq \<noteq> rd16 (nwmem s) (vq_avail vq + 2)"
    and "desc_chain (nwmem s) vq (rd16 (nwmem s) (vq_avail vq + 4 + 2 * (last_avail_idx vq mod vq_num vq))) ds"
    and "vbuf_wf b" and "length (d_ins (nwmem s) vq ds) \<le> iovs_cnt (in_iovs b)"
    and "length (d_outs (nwmem s) vq ds) \<le> iovs_cnt (out_iovs b)"
  shows "\<exists>b' s'. vqueue_get_avail_buf vq b s =
       Inr (NO_ERROR, vq\<lparr>last_avail_idx := (last_avail_idx vq + 1) mod 2 ^ 16\<rparr>, b', s') \<and>
     vb_head b' = hd ds \<and>
     iovs_view (in_iovs b') = d_view (nwmem s) vq (d_ins (nwmem s) vq ds) \<and>
     iovs_view (out_iovs b') = d_view (nwmem s) vq (d_outs (nwmem s) vq ds) \<and>
     iovs_len (in_iovs b') mod 2 ^ 32 = d_total (nwmem s) vq (d_ins (nwmem s) vq ds) mod 2 ^ 32 \<and>
     nwmem s' = nwmem s"
proof -
  let ?i = "rd16 (nwmem s) (vq_avail vq + 4 + 2 * (last_avail_idx vq mod vq_num vq))"
  let ?vq = "vq\<lparr>last_avail_idx := (last_avail_idx vq + 1) mod 2 ^ 16\<rparr>"
  let ?s = "sync (sync (sync s))"
  define b0 where "b0 = b\<lparr>vb_head := ?i, in_iovs := (in_iovs b)\<lparr>iovs_used := 0, iovs_len := 0\<rparr>,
      out_iovs := (out_iovs b)\<lparr>iovs_used := 0, iovs_len := 0\<rparr>\<rparr>"
  from assms(7) obtain es where ds: "ds = ?i # es" "?i < vq_num vq" by (cases ds) auto
  have wf: "vbuf_wf b0" "buf_fits (nwmem s) ?vq ds b0"
    using assms(8-10) by (simp_all add: b0_def vbuf_wf_def iovs_wf_def buf_fits_def same)
  have q: "quiet ?s" "nwmem ?s = nwmem s" using assms(1) by simp_all
  have pre: "quiet ?s" "desc_chain (nwmem ?s) ?vq ?i ds" "vbuf_wf b0" "buf_fits (nwmem ?s) ?vq ds b0"
    using q wf assms(7) by (simp_all add: same)
  obtain b' s' where b': "desc_loop ?vq ?i b0 ?s = Inr (NO_ERROR, b', s')" "nwmem s' = nwmem ?s"
    "buf_extends (nwmem ?s) ?vq ds b0 b'"
    using desc_loop_chain [OF pre] by blast
  have "vqueue_get_avail_buf vq b s = Inr (NO_ERROR, ?vq, b', s')"
    using assms(1-6) b'(1) ds(2) unfolding b0_def
    by (simp add: vqueue_get_avail_buf_def deref_def Let_def)
  moreover have "vb_head b' = hd ds"
    using b'(3) ds(1) by (simp add: buf_extends_def b0_def)
  moreover have "iovs_view (in_iovs b0) = []" "iovs_view (out_iovs b0) = []" "iovs_len (in_iovs b0) = 0"
    by (simp_all add: b0_def iovs_view_def)
  ultimately show ?thesis
    using b'(2,3) unfolding q(2) by (auto simp: buf_extends_def same)
qed

definition sample_mem :: mem where
  "sample_mem = wr (wr (\<lambda>_. 0) 0x10000
     (le_bytes 8 0x5000 @ le_bytes 4 12 @ le_bytes 2 1 @ le_bytes 2 2 @ replicate 16 0 @
      le_bytes 8 0x6000 @ le_bytes 4 60 @ le_bytes 2 0 @ le_bytes 2 0)) 0x10042 (le_bytes 2 1)"

definition sample_nw :: nwmach where
  "sample_nw = \<lparr>nwmem = sample_mem, nwenv = (\<lambda>_. id), nwtick = 0\<rparr>"

definition tx_buf :: vqueue_buf where
  "tx_buf = \<lparr>vb_head = 0,
     in_iovs = \<lparr>iovs_cnt = 4, iovs_used = 0, iovs_len = 0, phys = replicate 4 0,
       iovs = replicate 4 \<lparr>iov_base = 0, iov_len = 0\<rparr>\<rparr>,
     out_iovs = \<lparr>iovs_cnt = 0, iovs_used = 0, iovs_len = 0, phys = [], iovs = []\<rparr>\<rparr>"

lemma sample_nw_simps [simp]: "quiet sample_nw" "nwmem sample_nw = sample_mem"
  by (simp_all add: sample_nw_def quiet_def)

lemma sample_ring_simps [simp]:
  "vring_addr sample_ring = 0x10000" "vq_avail sample_ring = 0x10040" "vq_num sample_ring = 4"
  "last_avail_idx sample_ring = 0" "vq_used sample_ring = 0x11000" "vring_align sample_ring = 4096"
  by (simp_all add: sample_defs)

lemma tx_buf_wf: "vbuf_wf tx_buf" "iovs_cnt (in_iovs tx_buf) = 4" "iovs_cnt (out_iovs tx_buf) = 0"
  by (simp_all add: tx_buf_def vbuf_wf_def iovs_wf_def)

lemma sample_fields:
  "rd16 sample_mem 0x10042 = 1" "rd16 sample_mem 0x10044 = 0" "rd16 sample_mem 0x11002 = 0"
  "d_addr sample_mem sample_ring 0 = 0x5000" "d_len sample_mem sample_ring 0 = 12"
  "d_more sample_mem sample_ring 0" "\<not> d_write sample_mem sample_ring 0" "d_next sample_mem sample_ring 0 = 2"
  "d_addr sample_mem sample_ring 2 = 0x6000" "d_len sample_mem sample_ring 2 = 60"
  "\<not> d_more sample_mem sample_ring 2" "\<not> d_write sample_mem sample_ring 2"
  by (simp_all add: sample_mem_def mem_eval d_addr_def d_len_def d_more_def d_write_def d_next_def
      sample_ring_def VRING_DESC_F_NEXT_def VRING_DESC_F_WRITE_def)

lemma sample_chain:
  "desc_chain sample_mem sample_ring 0 [0, 2]"
  "d_ins sample_mem sample_ring [0, 2] = [0, 2]" "d_outs sample_mem sample_ring [0, 2] = []"
  "d_view sample_mem sample_ring [0, 2] = [(0x5000, 12), (0x6000, 60)]"
  "d_total sample_mem sample_ring [0, 2] = 72"
  by (simp_all add: sample_fields)

theorem get_avail_buf_chain_witness:
  "\<exists>b' s'. vqueue_get_avail_buf sample_ring tx_buf sample_nw =
       Inr (NO_ERROR, sample_ring\<lparr>last_avail_idx := 1\<rparr>, b', s') \<and>
     vb_head b' = 0 \<and> iovs_view (in_iovs b') = [(0x5000, 12), (0x6000, 60)] \<and>
     iovs_view (out_iovs b') = []"
  using get_avail_buf_chain [of sample_nw sample_ring "[0, 2]" tx_buf]
  by (auto simp: sample_chain sample_fields tx_buf_wf sub16_def simp del: desc_chain.simps d_split_simps(3,4,6,8))


section \<open>Publishing used buffers\<close>

lemma rd16_wr: "rd16 (wr m a (le_bytes 2 v)) a = v mod 2 ^ 16"
  by (simp add: rd16_def le_val_le_bytes)

lemma rd32_wr: "rd32 (wr m a (le_bytes 4 v)) a = v mod 2 ^ 32"
  by (simp add: rd32_def le_val_le_bytes)

lemma rd16_wr_other: "a + 2 \<le> b \<or> b + length bs \<le> a \<Longrightarrow> rd16 (wr m b bs) a = rd16 m a"
  by (simp add: rd16_def rd_wr_disjoint)

lemma rd32_wr_other: "a + 4 \<le> b \<or> b + length bs \<le> a \<Longrightarrow> rd32 (wr m b bs) a = rd32 m a"
  by (simp add: rd32_def rd_wr_disjoint)



section \<open>Mapping\<close>

lemma map_iovs_loop_ok:
  assumes "iovs_wf l" "i + n \<le> iovs_cnt l" "\<forall>j. i \<le> j \<and> j < i + n \<longrightarrow> va (phys l ! j) \<noteq> 0"
  shows "\<exists>l'. map_iovs_loop va i n l = Inr (None, l') \<and> map iov_len (iovs l') = map iov_len (iovs l) \<and>
    (\<forall>j. i \<le> j \<and> j < i + n \<longrightarrow> iov_base (iovs l' ! j) = va (phys l ! j)) \<and>
    (\<forall>j. j < i \<longrightarrow> iovs l' ! j = iovs l ! j)"
  using assms
proof (induction n arbitrary: i l)
  case (Suc n)
  let ?l = "l\<lparr>iovs := (iovs l)[i := (iovs l ! i)\<lparr>iov_base := va (phys l ! i)\<rparr>]\<rparr>"
  have len: "i < length (iovs l)" "i < length (phys l)" using Suc.prems by (auto simp: iovs_wf_def)
  have "iovs_wf ?l" "Suc i + n \<le> iovs_cnt ?l" "\<forall>j. Suc i \<le> j \<and> j < Suc i + n \<longrightarrow> va (phys ?l ! j) \<noteq> 0"
    using Suc.prems by (auto simp: iovs_wf_def)
  from Suc.IH [OF this] obtain l' where l': "map_iovs_loop va (Suc i) n ?l = Inr (None, l')"
    "map iov_len (iovs l') = map iov_len (iovs ?l)"
    "\<And>j. Suc i \<le> j \<Longrightarrow> j < Suc i + n \<Longrightarrow> iov_base (iovs l' ! j) = va (phys ?l ! j)"
    "\<And>j. j < Suc i \<Longrightarrow> iovs l' ! j = iovs ?l ! j"
    by blast
  have "map iov_len (iovs ?l) = map iov_len (iovs l)"
    using len(1) by (simp add: map_update list_update_same_conv)
  moreover have "iov_base (iovs l' ! j) = va (phys l ! j)" if "i \<le> j" "j < i + Suc n" for j
    using that l'(3) [of j] l'(4) [of i] len by (cases "j = i") auto
  moreover have "map_iovs_loop va i (Suc n) l = Inr (None, l')"
    using l'(1) len Suc.prems(3) by (simp add: Let_def)
  ultimately show ?case using l'(2,4) by auto
qed simp

text \<open>
  Mapping a scatter list whose addresses all lie in mapped non-secure RAM reports success
  and stores the translated address of every used entry, and unmapping it succeeds. When the first
  address is not mapped, the value returned is the one the uninitialised result variable holds: if
  that is 0 the caller sees success with an entry that is null, and unmapping fails its assertion.
\<close>

lemma map_iovs_result:
  assumes "iovs_wf l" and "0 < iovs_used l"
  shows "if \<forall>j < iovs_used l. va (phys l ! j) \<noteq> 0 then
       \<exists>l'. vqueue_map_iovs va junk l = Inr (NO_ERROR, l') \<and>
         (\<forall>j < iovs_used l. iov_base (iovs l' ! j) = va (phys l ! j)) \<and>
         map iov_len (iovs l') = map iov_len (iovs l)
     else va (phys l ! 0) = 0 \<longrightarrow>
       (\<exists>l'. vqueue_map_iovs va junk l = Inr (junk, l') \<and> iov_base (iovs l' ! 0) = 0 \<and>
         vqueue_unmap_iovs l' = Inl Assert_failed)"
proof -
  have ne: "phys l \<noteq> []" "iovs l \<noteq> []" "iovs_used l \<le> iovs_cnt l"
    using assms by (auto simp: iovs_wf_def)
  show ?thesis
  proof (cases "\<forall>j < iovs_used l. va (phys l ! j) \<noteq> 0")
    case True
    from map_iovs_loop_ok [of l 0 "iovs_used l" va] assms(1) True ne
    obtain l' where "map_iovs_loop va 0 (iovs_used l) l = Inr (None, l')"
      "map iov_len (iovs l') = map iov_len (iovs l)"
      "\<forall>j. j < iovs_used l \<longrightarrow> iov_base (iovs l' ! j) = va (phys l ! j)"
      by auto
    with True ne show ?thesis by (simp add: vqueue_map_iovs_def)
  next
    case False
    have "\<exists>l'. vqueue_map_iovs va junk l = Inr (junk, l') \<and> iov_base (iovs l' ! 0) = 0 \<and>
         vqueue_unmap_iovs l' = Inl Assert_failed" if z: "va (phys l ! 0) = 0"
    proof -
      let ?l = "l\<lparr>iovs := (iovs l)[0 := (iovs l ! 0)\<lparr>iov_base := 0\<rparr>]\<rparr>"
      obtain k where k: "iovs_used l = Suc k" using assms(2) gr0_implies_Suc by blast
      have "vqueue_map_iovs va junk l = Inr (junk, ?l)"
        using ne z k by (simp add: vqueue_map_iovs_def)
      moreover have "vqueue_unmap_iovs ?l = Inl Assert_failed"
        using ne k by (simp add: vqueue_unmap_iovs_def)
      moreover have "iov_base (iovs ?l ! 0) = 0" using ne by simp
      ultimately show ?thesis by blast
    qed
    with False show ?thesis by auto
  qed
qed

definition one_iov :: vqueue_iovs where
  "one_iov = \<lparr>iovs_cnt = 1, iovs_used = 1, iovs_len = 60, phys = [0x5000],
     iovs = [\<lparr>iov_base = 0, iov_len = 60\<rparr>]\<rparr>"

end
