(* ===== verification/Pktq.thy ===== *)
theory Pktq
  imports Prelude
begin

text \<open>
  The egress packet queue of an interface (\<open>nettrug/pta/bstgw_pktq.h\<close> and the start/stop
  flag of \<open>bstgw_netif_utils.h\<close>): a ring of buffer pointers with a read index, a write
  index and a count. The ring refines a bounded first-in first-out list; the interface is the
  locale \<open>bounded_fifo\<close>, whose client lemma says that what leaves a queue is what entered it,
  in order, for every sequence of operations.
\<close>

section \<open>The interface\<close>

datatype 'a fifo_op = Put "'a list" | Get nat

text \<open>
  A client's run: it puts batches and takes elements from the front, never more than there are.
  The result collects what the queue accepted and what was taken, both in order.
\<close>

fun fifo_run :: "('q \<Rightarrow> 'a list \<Rightarrow> ('q \<times> nat) res) \<Rightarrow> ('q \<Rightarrow> nat \<Rightarrow> 'q res) \<Rightarrow> ('q \<Rightarrow> 'a list) \<Rightarrow>
    'q \<Rightarrow> 'a fifo_op list \<Rightarrow> ('q \<times> 'a list \<times> 'a list) res" where
  "fifo_run p g l q [] = Inr (q, [], [])"
| "fifo_run p g l q (Put xs # ops) =
     bind_res (p q xs) (\<lambda>(q1, n). bind_res (fifo_run p g l q1 ops)
       (\<lambda>(q2, acc, out). Inr (q2, take n xs @ acc, out)))"
| "fifo_run p g l q (Get n # ops) =
     (let k = min n (length (l q)) in
      bind_res (g q k) (\<lambda>q1. bind_res (fifo_run p g l q1 ops)
        (\<lambda>(q2, acc, out). Inr (q2, acc, take k (l q) @ out))))"

locale bounded_fifo =
  fixes lst :: "'q \<Rightarrow> 'a list"
    and room :: "'q \<Rightarrow> nat"
    and invar :: "'q \<Rightarrow> bool"
    and put :: "'q \<Rightarrow> 'a list \<Rightarrow> ('q \<times> nat) res"
    and get :: "'q \<Rightarrow> nat \<Rightarrow> 'q res"
  assumes put_spec: "invar q \<Longrightarrow>
      \<exists>q'. put q xs = Inr (q', min (length xs) (room q)) \<and> invar q' \<and>
           lst q' = lst q @ take (room q) xs \<and>
           room q' = room q - length xs"
    and get_spec: "invar q \<Longrightarrow> n \<le> length (lst q) \<Longrightarrow> 0 < length (lst q) + room q \<Longrightarrow>
      \<exists>q'. get q n = Inr q' \<and> invar q' \<and> lst q' = drop n (lst q) \<and> room q' = room q + n"
begin

lemma put_step:
  assumes "invar q"
  obtains q' where "put q xs = Inr (q', min (length xs) (room q))" "invar q'"
    "lst q' = lst q @ take (min (length xs) (room q)) xs"
    "length (lst q') + room q' = length (lst q) + room q"
  using put_spec [OF assms, of xs] that by (auto simp: min_def split: if_splits)

lemma get_step:
  assumes "invar q" "n \<le> length (lst q)" "0 < length (lst q) + room q"
  obtains q' where "get q n = Inr q'" "invar q'" "lst q' = drop n (lst q)"
    "length (lst q') + room q' = length (lst q) + room q"
  using get_spec [OF assms] that assms(2) by auto

lemma run_history:
  assumes "invar q" "0 < length (lst q) + room q"
  shows "\<exists>q' acc out. fifo_run put get lst q ops = Inr (q', acc, out) \<and> invar q' \<and>
      lst q @ acc = out @ lst q' \<and> length (lst q') + room q' = length (lst q) + room q"
  using assms
proof (induction ops arbitrary: q)
  case Nil
  then show ?case by simp
next
  case (Cons opr ops)
  show ?case
  proof (cases opr)
    case (Put xs)
    obtain q1 where q1: "put q xs = Inr (q1, min (length xs) (room q))" "invar q1"
      "lst q1 = lst q @ take (min (length xs) (room q)) xs"
      "length (lst q1) + room q1 = length (lst q) + room q"
      using put_step [OF Cons.prems(1)] by blast
    with Cons.IH [of q1] Cons.prems(2) Put show ?thesis by fastforce
  next
    case (Get n)
    let ?k = "min n (length (lst q))"
    obtain q1 where q1: "get q ?k = Inr q1" "invar q1" "lst q1 = drop ?k (lst q)"
      "length (lst q1) + room q1 = length (lst q) + room q"
      using get_step [OF Cons.prems(1) _ Cons.prems(2), of ?k] by auto
    from Cons.IH [of q1] q1(2,4) Cons.prems(2) obtain q2 acc out where
      "fifo_run put get lst q1 ops = Inr (q2, acc, out)" "invar q2"
      "lst q1 @ acc = out @ lst q2" "length (lst q2) + room q2 = length (lst q) + room q"
      by auto
    moreover have "lst q @ acc = take ?k (lst q) @ lst q1 @ acc"
      using q1(3) by (metis append.assoc append_take_drop_id)
    ultimately show ?thesis using q1(1) Get by (auto simp: Let_def)
  qed
qed

end

section \<open>The ring\<close>

record 'a pktqueue =
  stopped :: bool
  next_read :: nat
  next_write :: nat
  pq_count :: nat
  pq_capacity :: nat
  pkt :: "'a list"

definition bstgw_pktq_locked_is_full :: "'a pktqueue \<Rightarrow> bool" where
  "bstgw_pktq_locked_is_full pq \<longleftrightarrow> pq_count pq \<ge> pq_capacity pq"

definition bstgw_pktq_locked_is_empty :: "'a pktqueue \<Rightarrow> bool" where
  "bstgw_pktq_locked_is_empty pq \<longleftrightarrow> pq_count pq = 0"

text \<open>
  One round of the write loop: store at \<open>next_write\<close>, advance it modulo the capacity.
\<close>

definition ring_store :: "'a pktqueue \<Rightarrow> 'a \<Rightarrow> 'a pktqueue res" where
  "ring_store pq b =
     (if next_write pq \<ge> length (pkt pq) then Inl Out_of_bounds
      else if pq_capacity pq = 0 then Inl Div_zero
      else Inr (pq\<lparr>pkt := (pkt pq)[next_write pq := b],
                   next_write := (next_write pq + 1) mod pq_capacity pq\<rparr>))"

fun ring_store_all :: "'a pktqueue \<Rightarrow> 'a list \<Rightarrow> 'a pktqueue res" where
  "ring_store_all pq [] = Inr pq"
| "ring_store_all pq (b # bs) = bind_res (ring_store pq b) (\<lambda>pq'. ring_store_all pq' bs)"

definition bstgw_pktq_locked_bulk_add_buff :: "'a pktqueue \<Rightarrow> 'a list \<Rightarrow> ('a pktqueue \<times> nat) res" where
  "bstgw_pktq_locked_bulk_add_buff pq bs =
     (let nbufs = length bs;
          space_left = sub32 (pq_capacity pq) (pq_count pq);
          will_add = (if nbufs \<le> space_left then nbufs else space_left)
      in bind_res (ring_store_all pq (take will_add bs))
           (\<lambda>pq'. Inr (pq'\<lparr>pq_count := pq_count pq' + will_add\<rparr>, will_add)))"

definition bstgw_pktq_locked_add_buf :: "'a pktqueue \<Rightarrow> 'a \<Rightarrow> ('a pktqueue \<times> bool) res" where
  "bstgw_pktq_locked_add_buf pq b =
     (if bstgw_pktq_locked_is_full pq then Inr (pq, False)
      else bind_res (ring_store pq b)
             (\<lambda>pq'. Inr (pq'\<lparr>pq_count := pq_count pq' + 1\<rparr>, True)))"

text \<open>
  The code reduces \<open>next_read\<close> modulo the capacity even when nothing is dropped, so a queue of
  capacity zero (an interface that is not attached) divides by zero here.
\<close>

definition bstgw_pktq_locked_drop_bufs :: "'a pktqueue \<Rightarrow> nat \<Rightarrow> 'a pktqueue res" where
  "bstgw_pktq_locked_drop_bufs pq num =
     (if \<not> num \<le> pq_count pq then Inl Assert_failed
      else if pq_capacity pq = 0 then Inl Div_zero
      else Inr (pq\<lparr>next_read := (next_read pq + num) mod pq_capacity pq,
                   pq_count := pq_count pq - num\<rparr>))"

definition bstgw_pktq_locked_contig_bufs :: "'a pktqueue \<Rightarrow> nat" where
  "bstgw_pktq_locked_contig_bufs pq =
     (if bstgw_pktq_locked_is_empty pq then 0
      else let till_end = 1 + sub32 (sub32 (pq_capacity pq) 1) (next_read pq)
           in if till_end > pq_count pq then pq_count pq else till_end)"

definition netif_tx_start_queue :: "'a pktqueue \<Rightarrow> 'a pktqueue" where
  "netif_tx_start_queue pq = pq\<lparr>stopped := False\<rparr>"

definition netif_tx_stop_queue :: "'a pktqueue \<Rightarrow> 'a pktqueue" where
  "netif_tx_stop_queue pq = pq\<lparr>stopped := True\<rparr>"

definition netif_tx_queue_stopped :: "'a pktqueue \<Rightarrow> bool" where
  "netif_tx_queue_stopped pq = stopped pq"

text \<open>
  \<open>netif_tx_wake_queue\<close> is a compare-and-swap of \<open>stopped\<close> from true to false: it reports
  whether the egress notification handler has to be called.
\<close>

definition netif_tx_wake_queue :: "'a pktqueue \<Rightarrow> 'a pktqueue \<times> bool" where
  "netif_tx_wake_queue pq = (if stopped pq then (pq\<lparr>stopped := False\<rparr>, True) else (pq, False))"

section \<open>Well-formed rings and the list they hold\<close>

definition pktq_wf :: "'a pktqueue \<Rightarrow> bool" where
  "pktq_wf pq \<longleftrightarrow>
     length (pkt pq) = pq_capacity pq \<and> pq_count pq \<le> pq_capacity pq \<and> pq_capacity pq < 2 ^ 31 \<and>
     (if pq_capacity pq = 0 then next_read pq = 0 \<and> next_write pq = 0
      else next_read pq < pq_capacity pq \<and>
           next_write pq = (next_read pq + pq_count pq) mod pq_capacity pq)"

definition pktq_list :: "'a pktqueue \<Rightarrow> 'a list" where
  "pktq_list pq =
     map (\<lambda>i. pkt pq ! ((next_read pq + i) mod pq_capacity pq)) [0..<pq_count pq]"

definition pktq_room :: "'a pktqueue \<Rightarrow> nat" where
  "pktq_room pq = pq_capacity pq - pq_count pq"

lemma length_pktq_list [simp]: "length (pktq_list pq) = pq_count pq"
  by (simp add: pktq_list_def)

lemma pktq_wf_room: "pktq_wf pq \<Longrightarrow> pq_count pq + pktq_room pq = pq_capacity pq"
  by (simp add: pktq_wf_def pktq_room_def)

lemma pktq_space_left:
  "pktq_wf pq \<Longrightarrow> sub32 (pq_capacity pq) (pq_count pq) = pktq_room pq"
  by (simp add: pktq_wf_def pktq_room_def)

text \<open>Writing one element at a free slot appends it to the list.\<close>

lemma ring_store_append:
  assumes wf: "pktq_wf (pq\<lparr>pq_count := k\<rparr>)" and room: "k < pq_capacity pq"
  shows "\<exists>pq'. ring_store pq b = Inr pq' \<and> pq_count pq' = pq_count pq \<and>
      pktq_wf (pq'\<lparr>pq_count := Suc k\<rparr>) \<and>
      pktq_list (pq'\<lparr>pq_count := Suc k\<rparr>) = pktq_list (pq\<lparr>pq_count := k\<rparr>) @ [b] \<and>
      pq_capacity pq' = pq_capacity pq \<and> stopped pq' = stopped pq"
proof -
  let ?c = "pq_capacity pq" and ?r = "next_read pq"
  from room have c0: "0 < ?c" by simp
  from wf c0 have len: "length (pkt pq) = ?c" and rc: "?r < ?c"
    and wr: "next_write pq = (?r + k) mod ?c" and big: "?c < 2 ^ 31" by (auto simp: pktq_wf_def)
  have wlt: "next_write pq < length (pkt pq)" using c0 len wr by simp
  let ?pq' = "pq\<lparr>pkt := (pkt pq)[next_write pq := b], next_write := (next_write pq + 1) mod ?c\<rparr>"
  have st: "ring_store pq b = Inr ?pq'"
    using wlt c0 by (simp add: ring_store_def)
  have other: "(pkt pq)[next_write pq := b] ! ((?r + i) mod ?c) = pkt pq ! ((?r + i) mod ?c)"
    if "i < k" for i
  proof -
    have "(?r + i) mod ?c \<noteq> next_write pq"
      using mod_add_eq_self_iff [of ?r i ?c k] that room wr by simp
    then show ?thesis by simp
  qed
  have "pktq_list (?pq'\<lparr>pq_count := Suc k\<rparr>) = pktq_list (pq\<lparr>pq_count := k\<rparr>) @ [b]"
    unfolding pktq_list_def using wlt by (simp add: other wr [symmetric])
  moreover have "pktq_wf (?pq'\<lparr>pq_count := Suc k\<rparr>)"
    using len rc room big c0 wr by (simp add: pktq_wf_def mod_Suc_eq)
  ultimately show ?thesis using st by simp
qed

lemma ring_store_all_append:
  assumes "pktq_wf (pq\<lparr>pq_count := k\<rparr>)" "k + length bs \<le> pq_capacity pq"
  shows "\<exists>pq'. ring_store_all pq bs = Inr pq' \<and> pq_count pq' = pq_count pq \<and>
      pktq_wf (pq'\<lparr>pq_count := k + length bs\<rparr>) \<and>
      pktq_list (pq'\<lparr>pq_count := k + length bs\<rparr>) = pktq_list (pq\<lparr>pq_count := k\<rparr>) @ bs \<and>
      pq_capacity pq' = pq_capacity pq \<and> stopped pq' = stopped pq"
  using assms
proof (induction bs arbitrary: pq k)
  case Nil
  then show ?case by simp
next
  case (Cons b bs)
  then have "k < pq_capacity pq" by simp
  from ring_store_append [OF Cons.prems(1) this, of b] obtain p1 where
    p1: "ring_store pq b = Inr p1" "pq_count p1 = pq_count pq"
      "pktq_wf (p1\<lparr>pq_count := Suc k\<rparr>)"
      "pktq_list (p1\<lparr>pq_count := Suc k\<rparr>) = pktq_list (pq\<lparr>pq_count := k\<rparr>) @ [b]"
      "pq_capacity p1 = pq_capacity pq" "stopped p1 = stopped pq" by blast
  from Cons.IH [OF p1(3)] Cons.prems(2) p1(5) obtain p3 where
    "ring_store_all p1 bs = Inr p3" "pq_count p3 = pq_count p1"
    "pktq_wf (p3\<lparr>pq_count := Suc k + length bs\<rparr>)"
    "pktq_list (p3\<lparr>pq_count := Suc k + length bs\<rparr>) = pktq_list (pq\<lparr>pq_count := k\<rparr>) @ [b] @ bs"
    "pq_capacity p3 = pq_capacity p1" "stopped p3 = stopped p1"
    by (fastforce simp: p1(4))
  with p1 show ?case by simp
qed

lemma bulk_add_spec:
  assumes wf: "pktq_wf pq"
  shows "\<exists>pq'. bstgw_pktq_locked_bulk_add_buff pq bs = Inr (pq', min (length bs) (pktq_room pq)) \<and>
      pktq_wf pq' \<and> pktq_list pq' = pktq_list pq @ take (pktq_room pq) bs \<and>
      pq_capacity pq' = pq_capacity pq \<and> stopped pq' = stopped pq \<and>
      pktq_room pq' = pktq_room pq - length bs"
proof -
  let ?k = "min (length bs) (pktq_room pq)"
  have k: "(if length bs \<le> sub32 (pq_capacity pq) (pq_count pq) then length bs
            else sub32 (pq_capacity pq) (pq_count pq)) = ?k"
    using pktq_space_left [OF wf] by simp
  have tk: "take ?k bs = take (pktq_room pq) bs"
    by (simp add: min_def)
  have le: "pq_count pq + length (take ?k bs) \<le> pq_capacity pq"
    using pktq_wf_room [OF wf] by simp
  have "pktq_wf (pq\<lparr>pq_count := pq_count pq\<rparr>)" using wf by simp
  from ring_store_all_append [OF this le] obtain p where
    p: "ring_store_all pq (take ?k bs) = Inr p" "pq_count p = pq_count pq"
      "pktq_wf (p\<lparr>pq_count := pq_count pq + ?k\<rparr>)"
      "pktq_list (p\<lparr>pq_count := pq_count pq + ?k\<rparr>) = pktq_list pq @ take ?k bs"
      "pq_capacity p = pq_capacity pq" "stopped p = stopped pq" by auto
  have "bstgw_pktq_locked_bulk_add_buff pq bs = Inr (p\<lparr>pq_count := pq_count pq + ?k\<rparr>, ?k)"
    unfolding bstgw_pktq_locked_bulk_add_buff_def Let_def k using p(1,2) by simp
  moreover have "pktq_room (p\<lparr>pq_count := pq_count pq + ?k\<rparr>) = pktq_room pq - length bs"
    using p(5) by (simp add: pktq_room_def)
  ultimately show ?thesis using p tk by simp
qed

lemma drop_bufs_spec:
  assumes wf: "pktq_wf pq" and n: "num \<le> pq_count pq" and c: "0 < pq_capacity pq"
  shows "\<exists>pq'. bstgw_pktq_locked_drop_bufs pq num = Inr pq' \<and> pktq_wf pq' \<and>
      pktq_list pq' = drop num (pktq_list pq) \<and> pktq_room pq' = pktq_room pq + num \<and>
      pq_capacity pq' = pq_capacity pq \<and> stopped pq' = stopped pq"
proof -
  let ?pq' = "pq\<lparr>next_read := (next_read pq + num) mod pq_capacity pq, pq_count := pq_count pq - num\<rparr>"
  have "bstgw_pktq_locked_drop_bufs pq num = Inr ?pq'"
    using n c by (simp add: bstgw_pktq_locked_drop_bufs_def)
  moreover have "pktq_wf ?pq'"
  proof -
    have "((next_read pq + num) mod pq_capacity pq + (pq_count pq - num)) mod pq_capacity pq =
        (next_read pq + pq_count pq) mod pq_capacity pq"
      using n by (subst mod_add_left_eq) simp
    then show ?thesis using wf n c by (auto simp: pktq_wf_def)
  qed
  moreover have "pktq_list ?pq' = drop num (pktq_list pq)"
    unfolding pktq_list_def using n by (simp add: drop_map_upt mod_add_left_eq add.assoc)
  moreover have "pktq_room ?pq' = pktq_room pq + num"
    using wf n by (simp add: pktq_room_def pktq_wf_def)
  ultimately show ?thesis by simp
qed

interpretation pktq: bounded_fifo pktq_list pktq_room pktq_wf
  bstgw_pktq_locked_bulk_add_buff bstgw_pktq_locked_drop_bufs
proof (unfold_locales, goal_cases)
  case (1 q xs)
  from bulk_add_spec [OF 1(1), of xs] show ?case by blast
next
  case (2 q n)
  from 2(1,3) have "0 < pq_capacity q" by (simp add: pktq_wf_room)
  with drop_bufs_spec [OF 2(1)] 2(2) show ?case by fastforce
qed

section \<open>Properties\<close>

lemma add_buf_spec:
  assumes wf: "pktq_wf pq"
  shows "\<exists>pq'. bstgw_pktq_locked_add_buf pq b = Inr (pq', 0 < pktq_room pq) \<and> pktq_wf pq' \<and>
      pktq_list pq' = pktq_list pq @ take (pktq_room pq) [b]"
proof (cases "bstgw_pktq_locked_is_full pq")
  case True
  then show ?thesis using wf
    by (simp add: bstgw_pktq_locked_add_buf_def bstgw_pktq_locked_is_full_def pktq_room_def)
next
  case False
  then have room: "pq_count pq < pq_capacity pq" by (simp add: bstgw_pktq_locked_is_full_def)
  have "pktq_wf (pq\<lparr>pq_count := pq_count pq\<rparr>)" using wf by simp
  from ring_store_append [OF this room] obtain pq' where
    "ring_store pq b = Inr pq'" "pq_count pq' = pq_count pq"
    "pktq_wf (pq'\<lparr>pq_count := Suc (pq_count pq)\<rparr>)"
    "pktq_list (pq'\<lparr>pq_count := Suc (pq_count pq)\<rparr>) = pktq_list pq @ [b]" by auto
  with False room show ?thesis
    by (auto simp: bstgw_pktq_locked_add_buf_def pktq_room_def)
qed

lemma contig_bufs_eq:
  assumes "pktq_wf pq"
  shows "bstgw_pktq_locked_contig_bufs pq = min (pq_count pq) (pq_capacity pq - next_read pq)"
proof (cases "pq_count pq = 0")
  case True
  then show ?thesis
    by (simp add: bstgw_pktq_locked_contig_bufs_def bstgw_pktq_locked_is_empty_def)
next
  case False
  with assms have "next_read pq < pq_capacity pq" "pq_capacity pq < 2 ^ 31"
    by (auto simp: pktq_wf_def split: if_splits)
  then have "1 + sub32 (sub32 (pq_capacity pq) 1) (next_read pq) = pq_capacity pq - next_read pq"
    by simp
  with False show ?thesis
    by (simp only: bstgw_pktq_locked_contig_bufs_def bstgw_pktq_locked_is_empty_def Let_def)
       (simp add: min_def)
qed

text \<open>
  Claim C7. The packet queue is a first-in first-out queue: from any well-formed ring of non-zero
  capacity, every sequence of bulk additions and drops runs without a fault (no index leaves the
  array, no assertion fails), keeps the ring well-formed and of the same capacity, and what was
  queued before followed by what was accepted equals what was taken followed by what is left.
\<close>

theorem pktq_fifo_history:
  assumes "pktq_wf pq" and "0 < pq_capacity pq"
  shows "\<exists>pq' acc out.
      fifo_run bstgw_pktq_locked_bulk_add_buff bstgw_pktq_locked_drop_bufs pktq_list pq ops
        = Inr (pq', acc, out) \<and>
      pktq_wf pq' \<and> pktq_list pq @ acc = out @ pktq_list pq' \<and>
      pq_count pq' + pktq_room pq' = pq_capacity pq"
  using pktq.run_history [of pq ops] assms pktq_wf_room [of pq] by auto

theorem pktq_fifo_history_witness:
  "\<exists>pq' acc out.
      fifo_run bstgw_pktq_locked_bulk_add_buff bstgw_pktq_locked_drop_bufs pktq_list
        \<lparr>stopped = False, next_read = 2, next_write = 1, pq_count = 2, pq_capacity = 3,
         pkt = [11, 0, 10::nat]\<rparr> [Put [5, 6], Get 2, Put [7, 8, 9]]
        = Inr (pq', acc, out) \<and>
      pktq_wf pq' \<and> [10, 11] @ acc = out @ pktq_list pq' \<and>
      pq_count pq' + pktq_room pq' = 3"
proof -
  let ?pq = "\<lparr>stopped = False, next_read = 2, next_write = 1, pq_count = 2, pq_capacity = 3,
         pkt = [11, 0, 10::nat]\<rparr>"
  have "pktq_wf ?pq" by (simp add: pktq_wf_def)
  moreover have "pktq_list ?pq = [10, 11]" by (simp add: pktq_list_def upt_rec)
  ultimately show ?thesis
    using pktq_fifo_history [of ?pq "[Put [5, 6], Get 2, Put [7, 8, 9]]"] by simp
qed

lemma contig_slice:
  assumes "pktq_wf pq" "n = bstgw_pktq_locked_contig_bufs pq"
  shows "next_read pq + n \<le> length (pkt pq)" "n \<le> pq_count pq" "n = 0 \<longleftrightarrow> pq_count pq = 0"
    "take n (drop (next_read pq) (pkt pq)) = take n (pktq_list pq)"
proof -
  have n: "n = min (pq_count pq) (pq_capacity pq - next_read pq)"
    using contig_bufs_eq assms by blast
  show le: "next_read pq + n \<le> length (pkt pq)" and cnt: "n \<le> pq_count pq" and "n = 0 \<longleftrightarrow> pq_count pq = 0"
    using assms(1) n by (auto simp: pktq_wf_def split: if_splits)
  have "take n (pktq_list pq) = map (\<lambda>i. pkt pq ! ((next_read pq + i) mod pq_capacity pq)) [0..<n]"
    using cnt by (simp add: pktq_list_def take_map)
  also have "\<dots> = map (\<lambda>i. pkt pq ! (next_read pq + i)) [0..<n]"
    using le assms(1) by (auto simp: pktq_wf_def)
  also have "\<dots> = take n (drop (next_read pq) (pkt pq))"
    using le by (rule map_nth_drop_take)
  finally show "take n (drop (next_read pq) (pkt pq)) = take n (pktq_list pq)" by simp
qed

text \<open>
  The burst handed to a driver's transmit handler, \<open>contig_bufs\<close> slots starting at
  \<open>next_read\<close>, lies inside the ring array, is exactly a prefix of the queued packets in order, and
  is empty only when the queue is empty.
\<close>

lemma pktq_contig_prefix:
  assumes "pktq_wf pq" and "n = bstgw_pktq_locked_contig_bufs pq"
  shows "next_read pq + n \<le> length (pkt pq) \<and> n \<le> pq_count pq \<and>
      take n (drop (next_read pq) (pkt pq)) = take n (pktq_list pq) \<and>
      (n = 0 \<longleftrightarrow> pktq_list pq = [])"
proof -
  have "pktq_list pq = [] \<longleftrightarrow> pq_count pq = 0"
    by (metis length_0_conv length_pktq_list)
  with contig_slice [OF assms] show ?thesis by simp
qed

end
