(* ===== verification/Ether.thy ===== *)
theory Ether
  imports Prelude
begin

text \<open>
  Ethernet addresses and headers (\<open>optee_os_core_libs/libdpdk/dpdk/rte_ether.h\<close>). An address is
  its six bytes in transmission order; the predicates work on the three 16-bit words of it, as the
  inline functions do, and the lemmas say what they mean on the bytes.
\<close>

unbundle bit_operations_syntax

type_synonym ether_addr = "byte list"

definition RTE_ETHER_ADDR_LEN :: nat where "RTE_ETHER_ADDR_LEN = 6"
definition RTE_ETHER_TYPE_LEN :: nat where "RTE_ETHER_TYPE_LEN = 2"
definition RTE_ETHER_HDR_LEN :: nat where
  "RTE_ETHER_HDR_LEN = RTE_ETHER_ADDR_LEN * 2 + RTE_ETHER_TYPE_LEN"

lemma ether_lens [simp]:
  "RTE_ETHER_ADDR_LEN = 6" "RTE_ETHER_HDR_LEN = 14"
  by (simp_all add: RTE_ETHER_ADDR_LEN_def RTE_ETHER_TYPE_LEN_def RTE_ETHER_HDR_LEN_def)

text \<open>The i-th 16-bit word of an address, little endian as the target reads it.\<close>

definition ea_word :: "ether_addr \<Rightarrow> nat \<Rightarrow> u16" where
  "ea_word ea i = ucast (ea ! (2 * i)) OR push_bit 8 (ucast (ea ! (2 * i + 1)))"

definition rte_is_same_ether_addr :: "ether_addr \<Rightarrow> ether_addr \<Rightarrow> bool" where
  "rte_is_same_ether_addr ea1 ea2 \<longleftrightarrow>
     (ea_word ea1 0 XOR ea_word ea2 0) OR (ea_word ea1 1 XOR ea_word ea2 1) OR
     (ea_word ea1 2 XOR ea_word ea2 2) = 0"

definition rte_is_zero_ether_addr :: "ether_addr \<Rightarrow> bool" where
  "rte_is_zero_ether_addr ea \<longleftrightarrow> ea_word ea 0 OR ea_word ea 1 OR ea_word ea 2 = 0"

definition rte_is_unicast_ether_addr :: "ether_addr \<Rightarrow> bool" where
  "rte_is_unicast_ether_addr ea \<longleftrightarrow> ea ! 0 AND 0x01 = 0"

definition rte_is_multicast_ether_addr :: "ether_addr \<Rightarrow> bool" where
  "rte_is_multicast_ether_addr ea \<longleftrightarrow> ea ! 0 AND 0x01 \<noteq> 0"

definition rte_is_broadcast_ether_addr :: "ether_addr \<Rightarrow> bool" where
  "rte_is_broadcast_ether_addr ea \<longleftrightarrow>
     ea_word ea 0 = 0xFFFF \<and> ea_word ea 1 = 0xFFFF \<and> ea_word ea 2 = 0xFFFF"

definition rte_is_universal_ether_addr :: "ether_addr \<Rightarrow> bool" where
  "rte_is_universal_ether_addr ea \<longleftrightarrow> ea ! 0 AND 0x02 = 0"

definition rte_is_local_admin_ether_addr :: "ether_addr \<Rightarrow> bool" where
  "rte_is_local_admin_ether_addr ea \<longleftrightarrow> ea ! 0 AND 0x02 \<noteq> 0"

definition rte_is_valid_assigned_ether_addr :: "ether_addr \<Rightarrow> bool" where
  "rte_is_valid_assigned_ether_addr ea \<longleftrightarrow>
     rte_is_unicast_ether_addr ea \<and> \<not> rte_is_zero_ether_addr ea"

definition rte_ether_addr_copy :: "ether_addr \<Rightarrow> ether_addr" where
  "rte_ether_addr_copy ea_from = ea_from"

section \<open>The word tests on bytes\<close>

lemma word_of_bytes_eq_iff:
  fixes a b c d :: byte
  shows "(ucast a OR push_bit 8 (ucast b) :: u16) = ucast c OR push_bit 8 (ucast d) \<longleftrightarrow> a = c \<and> b = d"
proof
  assume eq: "(ucast a OR push_bit 8 (ucast b) :: u16) = ucast c OR push_bit 8 (ucast d)"
  have bits: "bit (ucast a OR push_bit 8 (ucast b) :: u16) n \<longleftrightarrow>
      (if n < 8 then bit a n else n < 16 \<and> bit b (n - 8))" for a b :: byte and n
    by (auto simp: bit_or_iff bit_push_bit_iff bit_ucast_iff dest: bit_imp_le_length)
  have "bit a n = bit c n" if "n < 8" for n
    using eq bits [of a b n] bits [of c d n] that by simp
  moreover have "bit b n = bit d n" if "n < 8" for n
    using eq bits [of a b "n + 8"] bits [of c d "n + 8"] that by simp
  ultimately show "a = c \<and> b = d"
    by (auto intro!: bit_word_eqI)
qed simp

lemma ea_word_eq_iff:
  "ea_word x i = ea_word y i \<longleftrightarrow> x ! (2 * i) = y ! (2 * i) \<and> x ! (2 * i + 1) = y ! (2 * i + 1)"
  unfolding ea_word_def by (rule word_of_bytes_eq_iff)

lemma six_cases:
  assumes "length xs = 6"
  obtains a b c d e f where "xs = [a, b, c, d, e, f]"
  using assms by (auto simp: numeral_eq_Suc length_Suc_conv)

lemma xor_zero_iff: "a XOR b = 0 \<longleftrightarrow> a = b" for a b :: u16
  by (metis xor.assoc xor.left_neutral xor.right_neutral xor_self_eq)

lemma replicate_six: "replicate 6 z = [z, z, z, z, z, z]"
  by (simp add: numeral_eq_Suc)

text \<open>
  The word-wise Ethernet address tests decide what their names say on the six bytes:
  equality of the addresses, all bytes zero, and all bytes 0xff.
\<close>

lemma ether_addr_tests:
  assumes "length x = 6" and "length y = 6"
  shows "(rte_is_same_ether_addr x y \<longleftrightarrow> x = y) \<and>
    (rte_is_zero_ether_addr x \<longleftrightarrow> x = replicate 6 0) \<and>
    (rte_is_broadcast_ether_addr x \<longleftrightarrow> x = replicate 6 0xff)"
proof -
  have or0: "a OR b = 0 \<longleftrightarrow> a = 0 \<and> b = 0" for a b :: u16
    by (simp add: or_eq_0_iff)
  have w0: "ea_word [0, 0, 0, 0, 0, 0] i = 0" if "i < 3" for i
    using that by (auto simp: ea_word_def less_Suc_eq numeral_eq_Suc)
  have wf: "ea_word [0xff, 0xff, 0xff, 0xff, 0xff, 0xff] i = 0xFFFF" if "i < 3" for i
    using that by (auto simp: ea_word_def less_Suc_eq numeral_3_eq_3)
  obtain a b c d e f where x: "x = [a, b, c, d, e, f]" using assms(1) by (rule six_cases)
  obtain a' b' c' d' e' f' where y: "y = [a', b', c', d', e', f']" using assms(2) by (rule six_cases)
  have same: "rte_is_same_ether_addr u v \<longleftrightarrow>
      ea_word u 0 = ea_word v 0 \<and> ea_word u 1 = ea_word v 1 \<and> ea_word u 2 = ea_word v 2" for u v
    by (simp add: rte_is_same_ether_addr_def or0 xor_zero_iff)
  have "rte_is_zero_ether_addr x \<longleftrightarrow> ea_word x 0 = ea_word [0, 0, 0, 0, 0, 0] 0 \<and>
      ea_word x 1 = ea_word [0, 0, 0, 0, 0, 0] 1 \<and> ea_word x 2 = ea_word [0, 0, 0, 0, 0, 0] 2"
    by (simp add: rte_is_zero_ether_addr_def or0 w0)
  moreover have "rte_is_broadcast_ether_addr x \<longleftrightarrow>
      ea_word x 0 = ea_word [0xff, 0xff, 0xff, 0xff, 0xff, 0xff] 0 \<and>
      ea_word x 1 = ea_word [0xff, 0xff, 0xff, 0xff, 0xff, 0xff] 1 \<and>
      ea_word x 2 = ea_word [0xff, 0xff, 0xff, 0xff, 0xff, 0xff] 2"
    by (simp add: rte_is_broadcast_ether_addr_def wf)
  ultimately show ?thesis
    by (auto simp: same ea_word_eq_iff x y replicate_six)
qed

end
