(* ===== verification/Ethbuf.thy ===== *)
theory Ethbuf
  imports Ether
begin

text \<open>
  Ethernet packet buffers (\<open>nettrug/pta/bstgw_eth_buf.c\<close>, \<open>bstgw_eth_buf.h\<close>) and the pool they
  come from, with the buffer operations NPF calls (\<open>npf_bstgw_ops.c\<close>). Buffers live in a store
  indexed by their address; a pointer into a buffer's data is its offset in \<open>buf\<close>, and the null
  pointer is \<open>None\<close>. The pool is an interface of the router and of the drivers: locale
  \<open>buffer_pool\<close>.
\<close>

unbundle bit_operations_syntax

section \<open>Data\<close>

text \<open>
  \<open>route_info_t\<close> and \<open>npf_mbuf_priv_t\<close> of \<open>npf_router.h\<close>: the private area of a buffer that the
  router uses. Addresses are the four bytes of an IPv4 address in network order.
\<close>

record route_info =
  rt_if_idx :: nat
  rt_addr_len :: nat
  rt_next_hop :: "byte list"
  rt_if_addr_idx :: nat

record npf_mbuf_priv =
  mp_flags :: u32
  mp_ether_type :: "byte list"
  mp_route :: route_info
  mp_out_if_idx :: nat

record ethbuf =
  eb_next :: "nat option"
  packet_type :: u32
  l2_len :: nat
  l3_len :: nat
  priv_data :: npf_mbuf_priv
  data_len :: nat
  data_off :: nat
  buf :: "byte list"

abbreviation buf_cap :: "ethbuf \<Rightarrow> nat" where
  "buf_cap eb \<equiv> length (buf eb)"

definition MBUF_NPF_NEED_L2 :: u32 where "MBUF_NPF_NEED_L2 = 1"
definition RTE_PTYPE_L2_MASK :: u32 where "RTE_PTYPE_L2_MASK = 0x0f"
definition RTE_PTYPE_L3_IPV4 :: u32 where "RTE_PTYPE_L3_IPV4 = 0x10"
definition RTE_PTYPE_L3_IPV6 :: u32 where "RTE_PTYPE_L3_IPV6 = 0x40"
definition BSTGW_DEFAULT_BUF_SIZE :: nat where "BSTGW_DEFAULT_BUF_SIZE = 2048"
definition BSTGW_CACHE_LINE :: nat where "BSTGW_CACHE_LINE = 64"

text \<open>A buffer's payload, and the bounds every buffer keeps.\<close>

definition eb_data :: "ethbuf \<Rightarrow> byte list" where
  "eb_data eb = slice (buf eb) (data_off eb) (data_len eb)"

definition eb_wf :: "ethbuf \<Rightarrow> bool" where
  "eb_wf eb \<longleftrightarrow> data_off eb + data_len eb \<le> buf_cap eb \<and> buf_cap eb < 2 ^ 31"

section \<open>Placing the data area in the allocated block\<close>

text \<open>
  \<open>bstgw_ethbuf_alloc_aligned\<close> allocates \<open>roundup2(capacity, align) + align\<close> bytes after the
  header and moves the data area up to the next aligned address. \<open>raw\<close> is the address of
  \<open>raw_buf\<close>; the result is the offset of \<open>buf\<close> in it, or a panic of the alignment check.
\<close>

definition ethbuf_rlen :: "nat \<Rightarrow> nat \<Rightarrow> nat" where
  "ethbuf_rlen capacity align_req =
     (if align_req = 0 then capacity else roundup2 capacity align_req + align_req)"

definition bstgw_ethbuf_align_check :: "nat \<Rightarrow> nat \<Rightarrow> unit res" where
  "bstgw_ethbuf_align_check bufaddr aligned =
     (if bufaddr AND aligned \<noteq> 0 then Inl Panic else Inr ())"

definition ethbuf_place :: "nat \<Rightarrow> nat \<Rightarrow> nat res" where
  "ethbuf_place raw align_req =
     (if align_req = 0 then Inr 0
      else let aligned = align_req - 1;
               off = raw AND aligned;
               pos = (if off \<noteq> 0 then aligned + 1 - off else 0)
           in bind_res (bstgw_ethbuf_align_check (raw + pos) aligned) (\<lambda>_. Inr pos))"

definition empty_priv :: npf_mbuf_priv where
  "empty_priv = \<lparr>mp_flags = 0, mp_ether_type = [0, 0],
     mp_route = \<lparr>rt_if_idx = 0, rt_addr_len = 0, rt_next_hop = [0, 0, 0, 0], rt_if_addr_idx = 0\<rparr>,
     mp_out_if_idx = 0\<rparr>"

text \<open>The header is zeroed, the private area comes from \<open>calloc\<close>, the data bytes are as found.\<close>

definition new_ethbuf :: "byte list \<Rightarrow> ethbuf" where
  "new_ethbuf content = \<lparr>eb_next = None, packet_type = 0, l2_len = 0, l3_len = 0,
     priv_data = empty_priv, data_len = 0, data_off = 0, buf = content\<rparr>"

section \<open>Operations on one buffer\<close>

definition bstgw_ethbuf_buf_capacity :: "ethbuf \<Rightarrow> nat" where
  "bstgw_ethbuf_buf_capacity eb = buf_cap eb"

definition bstgw_ethbuf_data_len :: "ethbuf \<Rightarrow> nat" where
  "bstgw_ethbuf_data_len eb = data_len eb"

definition bstgw_ethbuf_priv :: "ethbuf \<Rightarrow> npf_mbuf_priv" where
  "bstgw_ethbuf_priv eb = priv_data eb"

definition bstgw_ethbuf_head :: "ethbuf \<Rightarrow> nat" where
  "bstgw_ethbuf_head eb = 0"

definition bstgw_ethbuf_data_ptr :: "ethbuf \<Rightarrow> nat \<Rightarrow> nat option res" where
  "bstgw_ethbuf_data_ptr eb offset =
     (if offset \<ge> data_len eb then Inr None
      else if \<not> data_off eb + offset < buf_cap eb then Inl Assert_failed
      else Inr (Some (data_off eb + offset)))"

definition bstgw_ethbuf_precut :: "ethbuf \<Rightarrow> nat \<Rightarrow> ethbuf \<times> nat option" where
  "bstgw_ethbuf_precut eb len =
     (if len > data_len eb then (eb, None)
      else let eb' = eb\<lparr>data_off := data_off eb + len, data_len := data_len eb - len\<rparr>
           in (eb', Some (data_off eb')))"

definition bstgw_ethbuf_prepend :: "ethbuf \<Rightarrow> nat \<Rightarrow> ethbuf \<times> nat option" where
  "bstgw_ethbuf_prepend eb len =
     (let head_space = data_off eb
      in if head_space < len then (eb, None)
         else let eb' = eb\<lparr>data_off := data_off eb - len, data_len := data_len eb + len\<rparr>
              in (eb', Some (data_off eb')))"

section \<open>Buffer chains\<close>

type_synonym bufstore = "nat \<Rightarrow> ethbuf option"

text \<open>
  Walks along \<open>next\<close> pointers may not end on a cyclic chain: \<open>None\<close> is "does not return". A
  dangling pointer is a fault.
\<close>

partial_function (option) total_len_loop :: "bufstore \<Rightarrow> nat option \<Rightarrow> nat \<Rightarrow> nat res option" where
  "total_len_loop h p len =
     (case p of None \<Rightarrow> Some (Inr len)
      | Some a \<Rightarrow> (case h a of None \<Rightarrow> Some (Inl Null_deref)
          | Some eb \<Rightarrow> total_len_loop h (eb_next eb) ((len + data_len eb) mod 2 ^ 32)))"

definition bstgw_ethbuf_total_pkt_len :: "bufstore \<Rightarrow> nat \<Rightarrow> nat res option" where
  "bstgw_ethbuf_total_pkt_len h a =
     (case h a of None \<Rightarrow> Some (Inl Null_deref)
      | Some eb \<Rightarrow> (if eb_next eb = None then Some (Inr (data_len eb))
                   else total_len_loop h (Some a) 0))"

text \<open>
  The copy loop of \<open>bstgw_ethbuf_linearize\<close>: \<open>dst\<close> is the data area of the head and \<open>b\<close> the
  write position in it. Every copied buffer is released with \<open>free\<close>, so it leaves the store.
\<close>

partial_function (option) linearize_loop ::
    "bufstore \<Rightarrow> byte list \<times> nat \<Rightarrow> nat option \<Rightarrow> (bufstore \<times> byte list) res option" where
  "linearize_loop h w p =
     (case p of None \<Rightarrow> Some (Inr (h, fst w))
      | Some n \<Rightarrow> (case h n of None \<Rightarrow> Some (Inl Null_deref)
          | Some eb \<Rightarrow>
            (if snd w + data_len eb > length (fst w) \<or> \<not> eb_wf eb then Some (Inl Out_of_bounds)
             else linearize_loop (h(n := None))
                    (blit (fst w) (snd w) (eb_data eb), snd w + data_len eb) (eb_next eb))))"

definition bstgw_ethbuf_linearize :: "bufstore \<Rightarrow> nat option \<Rightarrow> (bufstore \<times> int) res option" where
  "bstgw_ethbuf_linearize h p =
     (case p of None \<Rightarrow> Some (Inr (h, -1))
      | Some a \<Rightarrow> (case h a of None \<Rightarrow> Some (Inl Null_deref)
        | Some eb \<Rightarrow>
          if eb_next eb = None then Some (Inr (h, 0))
          else (case bstgw_ethbuf_total_pkt_len h a of
              None \<Rightarrow> None
            | Some (Inl e) \<Rightarrow> Some (Inl e)
            | Some (Inr tot) \<Rightarrow>
                let tail_space = sub32 (buf_cap eb) (data_off eb + data_len eb);
                    rest_buf = sub32 tot (data_len eb)
                in if tail_space < rest_buf then Some (Inr (h, -1))
                   else (case bstgw_ethbuf_data_ptr eb (sub32 (data_len eb) 1) of
                       Inl e \<Rightarrow> Some (Inl e)
                     | Inr None \<Rightarrow> Some (Inl Null_deref)
                     | Inr (Some lastp) \<Rightarrow>
                         (case linearize_loop h (buf eb, lastp + 1) (eb_next eb) of
                            None \<Rightarrow> None
                          | Some (Inl e) \<Rightarrow> Some (Inl e)
                          | Some (Inr (h', dst)) \<Rightarrow>
                              Some (Inr (h'(a \<mapsto> eb\<lparr>buf := dst, data_len := data_len eb + rest_buf,
                                                       eb_next := None\<rparr>), 0)))))))"

section \<open>The pool\<close>

text \<open>
  The pool's two intrusive lists hold buffer addresses. \<open>malloc\<close> answers from an oracle indexed
  by the number of allocations made so far, so any pattern of failures is covered; \<open>fresh\<close> is
  the next unused address and \<open>content\<close> what a fresh block happens to contain.
\<close>

record bufpool =
  bufs :: bufstore
  free_list :: "nat list"
  inuse_list :: "nat list"
  pool_capacity :: nat
  fresh :: nat
  alloc_ok :: "nat \<Rightarrow> bool"
  clk :: nat

definition bstgw_ethpool_init :: "bufpool \<Rightarrow> bufpool" where
  "bstgw_ethpool_init st = st\<lparr>free_list := [], inuse_list := [], pool_capacity := 0\<rparr>"

text \<open>\<open>bstgw_ethbuf_alloc_aligned\<close>: two allocations, the block and its private area.\<close>

definition bstgw_ethbuf_alloc_aligned :: "bufpool \<Rightarrow> byte list \<Rightarrow> nat option \<times> bufpool" where
  "bstgw_ethbuf_alloc_aligned st content =
     (if \<not> alloc_ok st (clk st) then (None, st\<lparr>clk := clk st + 1\<rparr>)
      else if \<not> alloc_ok st (clk st + 1) then (None, st\<lparr>clk := clk st + 2\<rparr>)
      else (Some (fresh st),
            st\<lparr>bufs := (bufs st)(fresh st \<mapsto> new_ethbuf content), fresh := fresh st + 1,
               clk := clk st + 2\<rparr>))"

fun increase_loop :: "nat \<Rightarrow> byte list \<Rightarrow> bufpool \<Rightarrow> bufpool res" where
  "increase_loop 0 content st = Inr st"
| "increase_loop (Suc n) content st =
     (case bstgw_ethbuf_alloc_aligned st content of
        (None, st') \<Rightarrow> Inl Panic
      | (Some a, st') \<Rightarrow> increase_loop n content (st'\<lparr>free_list := a # free_list st'\<rparr>))"

definition bstgw_ethpool_increase :: "byte list \<Rightarrow> nat \<Rightarrow> bufpool \<Rightarrow> bufpool res" where
  "bstgw_ethpool_increase content buffer_number st =
     bind_res (increase_loop buffer_number content st)
       (\<lambda>st'. Inr (st'\<lparr>pool_capacity := pool_capacity st' + buffer_number\<rparr>))"

definition bstgw_ethpool_buf_reset :: "ethbuf \<Rightarrow> ethbuf res" where
  "bstgw_ethpool_buf_reset eb =
     (if eb_next eb \<noteq> None then Inl Assert_failed
      else Inr (eb\<lparr>l2_len := 0, l3_len := 0, data_len := 0, data_off := 0,
                   priv_data := (priv_data eb)\<lparr>mp_flags := 0\<rparr>\<rparr>))"

definition bstgw_ethpool_buf_alloc :: "bufpool \<Rightarrow> (nat \<times> bufpool) res" where
  "bstgw_ethpool_buf_alloc st =
     (case free_list st of
        [] \<Rightarrow> Inl Panic
      | eb # rest \<Rightarrow> Inr (eb, st\<lparr>free_list := rest, inuse_list := eb # inuse_list st\<rparr>))"

text \<open>
  \<open>LIST_REMOVE\<close> unlinks a buffer from the list it is on, whichever that is; on a buffer that is
  on none it writes through stale links.
\<close>

definition list_remove :: "nat \<Rightarrow> bufpool \<Rightarrow> bufpool res" where
  "list_remove a st =
     (if a \<notin> set (free_list st) \<union> set (inuse_list st) then Inl Bad_free
      else Inr (st\<lparr>free_list := remove1 a (free_list st), inuse_list := remove1 a (inuse_list st)\<rparr>))"

definition bstgw_ethpool_buf_free :: "nat \<Rightarrow> bufpool \<Rightarrow> bufpool res" where
  "bstgw_ethpool_buf_free a st =
     (case bufs st a of None \<Rightarrow> Inl Null_deref
      | Some eb \<Rightarrow> bind_res (bstgw_ethpool_buf_reset eb) (\<lambda>eb'.
          bind_res (list_remove a (st\<lparr>bufs := (bufs st)(a \<mapsto> eb')\<rparr>)) (\<lambda>st'.
            Inr (st'\<lparr>free_list := a # free_list st'\<rparr>))))"

partial_function (option) bstgw_ethbuf_free :: "bufstore \<Rightarrow> nat option \<Rightarrow> bufstore res option" where
  "bstgw_ethbuf_free h p =
     (case p of None \<Rightarrow> Some (Inr h)
      | Some a \<Rightarrow> (case h a of None \<Rightarrow> Some (Inl Null_deref)
          | Some eb \<Rightarrow> bstgw_ethbuf_free (h(a := None)) (eb_next eb)))"

definition bstgw_ethpool_buf_destroy :: "nat \<Rightarrow> bufpool \<Rightarrow> bufpool res option" where
  "bstgw_ethpool_buf_destroy a st =
     (case list_remove a st of Inl e \<Rightarrow> Some (Inl e)
      | Inr st1 \<Rightarrow>
          (let st2 = st1\<lparr>pool_capacity := pool_capacity st1 - 1\<rparr> in
           case bstgw_ethbuf_free (bufs st2) (Some a) of
             None \<Rightarrow> None
           | Some (Inl e) \<Rightarrow> Some (Inl e)
           | Some (Inr h) \<Rightarrow> Some (Inr (st2\<lparr>bufs := h\<rparr>))))"

section \<open>The buffer operations of NPF\<close>

text \<open>
  \<open>npf_bstgw_ops.c\<close>. \<open>bstgw_mbuf_alloc\<close> leaves room for two bytes and one Ethernet
  \<^emph>\<open>address\<close> before the data.
\<close>

definition bstgw_mbuf_alloc :: "bufpool \<Rightarrow> (nat \<times> bufpool) res" where
  "bstgw_mbuf_alloc st =
     bind_res (bstgw_ethpool_buf_alloc st) (\<lambda>(a, st').
       case bufs st' a of None \<Rightarrow> Inl Null_deref
       | Some eb \<Rightarrow> Inr (a, st'\<lparr>bufs := (bufs st')(a \<mapsto> eb\<lparr>data_off := 2 + RTE_ETHER_ADDR_LEN\<rparr>)\<rparr>))"

definition bstgw_mbuf_free :: "nat \<Rightarrow> bufpool \<Rightarrow> bufpool res" where
  "bstgw_mbuf_free a st = bstgw_ethpool_buf_free a st"

definition bstgw_mbuf_getdata :: "ethbuf \<Rightarrow> nat option res" where
  "bstgw_mbuf_getdata eb = bstgw_ethbuf_data_ptr eb 0"

definition bstgw_mbuf_getnext :: "ethbuf \<Rightarrow> nat option" where
  "bstgw_mbuf_getnext eb = eb_next eb"

definition bstgw_mbuf_getlen :: "ethbuf \<Rightarrow> nat" where
  "bstgw_mbuf_getlen eb = bstgw_ethbuf_data_len eb"

definition bstgw_mbuf_getchainlen :: "bufstore \<Rightarrow> nat \<Rightarrow> nat res option" where
  "bstgw_mbuf_getchainlen h a = bstgw_ethbuf_total_pkt_len h a"

definition bstgw_mbuf_ensure_contig :: "bufstore \<Rightarrow> nat \<Rightarrow> nat \<Rightarrow> (bufstore \<times> bool) res option" where
  "bstgw_mbuf_ensure_contig h a len =
     (case h a of None \<Rightarrow> Some (Inl Null_deref)
      | Some eb \<Rightarrow>
          if len > bstgw_ethbuf_data_len eb then
            (case bstgw_ethbuf_linearize h (Some a) of
               None \<Rightarrow> None
             | Some (Inl e) \<Rightarrow> Some (Inl e)
             | Some (Inr (h', r)) \<Rightarrow>
                 if r < 0 then Some (Inr (h', False))
                 else (case h' a of None \<Rightarrow> Some (Inl Null_deref)
                       | Some eb' \<Rightarrow> Some (Inr (h', len \<le> bstgw_ethbuf_data_len eb'))))
          else Some (Inr (h, len \<le> bstgw_ethbuf_data_len eb)))"

section \<open>Bounds and round trips of one buffer\<close>

named_theorems eb_simps

lemmas eb_defs = eb_wf_def eb_data_def

lemma length_eb_data [simp]: "eb_wf eb \<Longrightarrow> length (eb_data eb) = data_len eb"
  by (simp add: eb_defs)

lemma data_ptr_in_range:
  assumes "eb_wf eb" "off < data_len eb"
  shows "bstgw_ethbuf_data_ptr eb off = Inr (Some (data_off eb + off))"
    and "data_off eb + off < buf_cap eb"
    and "buf eb ! (data_off eb + off) = eb_data eb ! off"
  using assms by (auto simp: bstgw_ethbuf_data_ptr_def eb_defs nth_slice)

lemma precut_Some:
  assumes "eb_wf eb" "n \<le> data_len eb"
  shows "bstgw_ethbuf_precut eb n =
      (eb\<lparr>data_off := data_off eb + n, data_len := data_len eb - n\<rparr>, Some (data_off eb + n))"
    and "eb_wf (fst (bstgw_ethbuf_precut eb n))"
    and "eb_data (fst (bstgw_ethbuf_precut eb n)) = drop n (eb_data eb)"
  using assms
  by (auto simp: bstgw_ethbuf_precut_def Let_def eb_defs slice_def drop_take add.commute)

lemma prepend_Some:
  assumes "eb_wf eb" "n \<le> data_off eb"
  shows "bstgw_ethbuf_prepend eb n =
      (eb\<lparr>data_off := data_off eb - n, data_len := data_len eb + n\<rparr>, Some (data_off eb - n))"
    and "eb_wf (fst (bstgw_ethbuf_prepend eb n))"
    and "eb_data (fst (bstgw_ethbuf_prepend eb n)) = slice (buf eb) (data_off eb - n) n @ eb_data eb"
proof -
  show "bstgw_ethbuf_prepend eb n =
      (eb\<lparr>data_off := data_off eb - n, data_len := data_len eb + n\<rparr>, Some (data_off eb - n))"
    using assms by (simp add: bstgw_ethbuf_prepend_def Let_def)
  then show "eb_wf (fst (bstgw_ethbuf_prepend eb n))"
    and "eb_data (fst (bstgw_ethbuf_prepend eb n)) = slice (buf eb) (data_off eb - n) n @ eb_data eb"
    using assms slice_append [of "buf eb" "data_off eb - n" n "data_len eb"]
    by (auto simp: eb_defs add.commute)
qed

text \<open>
  Cutting the L2 header off and prepending a header of the same size is the identity on
  the buffer: for every well-formed buffer and every length up to its data length, \<open>precut\<close>
  succeeds, drops exactly that prefix of the payload, and \<open>prepend\<close> of the same length succeeds
  and restores the buffer bit for bit.
\<close>

lemma precut_prepend_roundtrip:
  assumes "eb_wf eb" and "n \<le> data_len eb"
  shows "\<exists>eb1 p1. bstgw_ethbuf_precut eb n = (eb1, Some p1) \<and> p1 \<le> buf_cap eb1 \<and>
      eb_wf eb1 \<and> eb_data eb1 = drop n (eb_data eb) \<and>
      bstgw_ethbuf_prepend eb1 n = (eb, Some (data_off eb))"
proof -
  have "data_off eb + n \<le> buf_cap eb" using assms by (simp add: eb_wf_def)
  then show ?thesis using precut_Some [OF assms] assms
    by (auto simp: bstgw_ethbuf_prepend_def Let_def)
qed

definition sample_frame :: ethbuf where
  "sample_frame = (new_ethbuf (replicate 64 7))\<lparr>data_off := 2, data_len := 60\<rparr>"

section \<open>Linearising a chain\<close>

fun chain :: "bufstore \<Rightarrow> nat option \<Rightarrow> nat list \<Rightarrow> bool" where
  "chain h p [] \<longleftrightarrow> p = None"
| "chain h p (a # as) \<longleftrightarrow>
     p = Some a \<and> (case h a of None \<Rightarrow> False | Some eb \<Rightarrow> eb_wf eb \<and> chain h (eb_next eb) as)"

definition chain_data :: "bufstore \<Rightarrow> nat list \<Rightarrow> byte list" where
  "chain_data h as = concat (map (\<lambda>a. eb_data (the (h a))) as)"

lemma chain_data_simps [simp]:
  "chain_data h [] = []"
  "chain_data h (a # as) = eb_data (the (h a)) @ chain_data h as"
  by (simp_all add: chain_data_def)

lemma chain_upd [simp]: "n \<notin> set as \<Longrightarrow> chain (h(n := v)) p as = chain h p as"
  by (induction as arbitrary: p) (auto split: option.splits)

lemma chain_data_upd [simp]: "n \<notin> set as \<Longrightarrow> chain_data (h(n := v)) as = chain_data h as"
  by (induction as) auto

lemma total_len_loop_chain:
  assumes "chain h p as" "len + length (chain_data h as) < 2 ^ 32"
  shows "total_len_loop h p len = Some (Inr (len + length (chain_data h as)))"
  using assms
proof (induction as arbitrary: p len)
  case Nil
  then show ?case by (simp add: total_len_loop.simps)
next
  case (Cons a as)
  then obtain eb where eb: "p = Some a" "h a = Some eb" "eb_wf eb" "chain h (eb_next eb) as"
    by (auto split: option.splits)
  with Cons.prems(2) have "len + data_len eb < 2 ^ 32"
      "len + data_len eb + length (chain_data h as) < 2 ^ 32" by simp_all
  with Cons.IH [OF eb(4), of "len + data_len eb"] eb show ?case
    by (subst total_len_loop.simps) (simp add: add.assoc)
qed

lemma linearize_loop_chain:
  assumes "chain h p as" "distinct as" "b + length (chain_data h as) \<le> length dst"
  shows "\<exists>h'. linearize_loop h (dst, b) p = Some (Inr (h', blit dst b (chain_data h as))) \<and>
      (\<forall>x. h' x = (if x \<in> set as then None else h x))"
  using assms
proof (induction as arbitrary: h p b dst)
  case Nil
  then show ?case by (simp add: linearize_loop.simps)
next
  case (Cons a as)
  then obtain eb where eb: "p = Some a" "h a = Some eb" "eb_wf eb" "chain h (eb_next eb) as"
    by (auto split: option.splits)
  let ?h = "h(a := None)" and ?dst = "blit dst b (eb_data eb)" and ?b = "b + data_len eb"
  have na: "a \<notin> set as" "distinct as" using Cons.prems(2) by auto
  have room: "b + data_len eb + length (chain_data h as) \<le> length dst"
    using Cons.prems(3) eb by simp
  then have len: "length ?dst = length dst" using eb(3) by simp
  have c: "chain ?h (eb_next eb) as" using eb(4) by (simp only: chain_upd [OF na(1)])
  have d: "chain_data ?h as = chain_data h as" using na(1) by (rule chain_data_upd)
  have "?b + length (chain_data ?h as) \<le> length ?dst" using room len by (simp only: d)
  from Cons.IH [OF c na(2) this] obtain h' where
    h': "linearize_loop ?h (?dst, ?b) (eb_next eb)
          = Some (Inr (h', blit ?dst ?b (chain_data h as)))"
      "\<forall>x. h' x = (if x \<in> set as then None else ?h x)" by (auto simp only: d)
  have "blit ?dst ?b (chain_data h as) = blit dst b (eb_data eb @ chain_data h as)"
    using blit_append [of b "eb_data eb" "chain_data h as" dst] room eb(3) by simp
  moreover have "linearize_loop h (dst, b) p = linearize_loop ?h (?dst, ?b) (eb_next eb)"
    using eb room by (subst linearize_loop.simps) simp
  ultimately show ?case using h' eb(2) by auto
qed

text \<open>
  Claim C22. Linearising a packet that is spread over a chain of buffers: if the head has data and
  enough tail room for the rest of the chain, the loop ends, every later buffer has been released,
  and the head alone holds the payloads of the whole chain, concatenated in order; if the room
  does not suffice the call returns \<open>-1\<close> and changes nothing.
\<close>

theorem linearize_chain:
  assumes head: "h a = Some eb" "eb_wf eb" "0 < data_len eb"
    and rest: "chain h (eb_next eb) as" "as \<noteq> []" "distinct (a # as)"
    and small: "data_len eb + length (chain_data h as) < 2 ^ 32"
  shows "if length (chain_data h as) \<le> buf_cap eb - (data_off eb + data_len eb)
      then \<exists>h' eb'. bstgw_ethbuf_linearize h (Some a) = Some (Inr (h', 0)) \<and> h' a = Some eb' \<and>
             eb_next eb' = None \<and> eb_wf eb' \<and> eb_data eb' = eb_data eb @ chain_data h as \<and>
             (\<forall>n \<in> set as. h' n = None)
      else bstgw_ethbuf_linearize h (Some a) = Some (Inr (h, -1))"
proof -
  let ?d = "chain_data h as" and ?tail = "buf_cap eb - (data_off eb + data_len eb)"
  from rest(1,2) obtain n where nx: "eb_next eb = Some n" by (cases as) auto
  have "chain h (Some a) (a # as)" using head rest(1) by simp
  from total_len_loop_chain [OF this, of 0] head small
  have tot: "bstgw_ethbuf_total_pkt_len h a = Some (Inr (data_len eb + length ?d))"
    by (simp add: bstgw_ethbuf_total_pkt_len_def nx)
  have t1: "sub32 (buf_cap eb) (data_off eb + data_len eb) = ?tail"
    and t2: "sub32 (data_len eb + length ?d) (data_len eb) = length ?d"
    and t3: "sub32 (data_len eb) (Suc 0) = data_len eb - Suc 0"
    using head small by (simp_all add: eb_wf_def)
  have ptr: "bstgw_ethbuf_data_ptr eb (data_len eb - Suc 0)
      = Inr (Some (data_off eb + (data_len eb - Suc 0)))"
    using data_ptr_in_range(1) [OF head(2)] head(3) by simp
  show ?thesis
  proof (cases "length ?d \<le> ?tail")
    case True
    let ?b = "data_off eb + data_len eb"
    have fit: "?b + length ?d \<le> length (buf eb)" using True head(2) by (auto simp: eb_wf_def)
    from linearize_loop_chain [OF rest(1) _ fit] rest(3) obtain h' where
      h': "linearize_loop h (buf eb, ?b) (eb_next eb) = Some (Inr (h', blit (buf eb) ?b ?d))"
        "\<forall>x. h' x = (if x \<in> set as then None else h x)" by auto
    let ?eb' = "eb\<lparr>buf := blit (buf eb) ?b ?d, data_len := data_len eb + length ?d, eb_next := None\<rparr>"
    have "bstgw_ethbuf_linearize h (Some a) = Some (Inr (h'(a \<mapsto> ?eb'), 0))"
      using True h'(1) head(1,3) nx
      by (simp add: bstgw_ethbuf_linearize_def tot t1 t2 t3 ptr Let_def del: sub32_eq)
    moreover have "eb_wf ?eb'" using fit head(2) by (simp add: eb_wf_def)
    moreover have "eb_data ?eb' = eb_data eb @ ?d"
      using fit slice_append [of "blit (buf eb) ?b ?d" "data_off eb" "data_len eb" "length ?d"]
      by (simp add: eb_data_def slice_blit_before)
    ultimately show ?thesis using True h'(2) rest(3) by auto
  next
    case False
    then show ?thesis using head(1) nx
      by (simp add: bstgw_ethbuf_linearize_def tot t1 t2 Let_def del: sub32_eq)
  qed
qed

definition two_bufs :: bufstore where
  "two_bufs = [1 \<mapsto> (new_ethbuf [1, 2, 0, 0])\<lparr>data_len := 2, eb_next := Some 2\<rparr>,
               2 \<mapsto> (new_ethbuf [9, 3])\<lparr>data_off := 1, data_len := 1\<rparr>]"

theorem linearize_chain_witness:
  "\<exists>h' eb'. bstgw_ethbuf_linearize two_bufs (Some 1) = Some (Inr (h', 0)) \<and> h' 1 = Some eb' \<and>
      eb_next eb' = None \<and> eb_data eb' = [1, 2, 3] \<and> h' 2 = None"
proof -
  let ?eb = "(new_ethbuf [1, 2, 0, 0])\<lparr>data_len := 2, eb_next := Some 2\<rparr>"
  have "two_bufs 1 = Some ?eb" "eb_wf ?eb" "0 < data_len ?eb"
    and "chain two_bufs (eb_next ?eb) [2]" "[2::nat] \<noteq> []" "distinct [1::nat, 2]"
    and d: "chain_data two_bufs [2] = [3]"
    by (simp_all add: two_bufs_def new_ethbuf_def eb_wf_def eb_data_def slice_def)
  note facts = this
  have "\<exists>h' eb'. bstgw_ethbuf_linearize two_bufs (Some 1) = Some (Inr (h', 0)) \<and>
      h' 1 = Some eb' \<and> eb_next eb' = None \<and> eb_wf eb' \<and> eb_data eb' = eb_data ?eb @ [3] \<and>
      (\<forall>n \<in> set [2]. h' n = None)"
    using linearize_chain [OF facts(1-6)] unfolding d by (simp add: new_ethbuf_def)
  moreover have "eb_data ?eb = [1, 2]" by (simp add: new_ethbuf_def eb_data_def slice_def)
  ultimately show ?thesis by auto
qed

section \<open>Placement of the data area\<close>

lemma and_minus_1_eq_mod: "(x :: nat) AND (2 ^ k - 1) = x mod 2 ^ k"
  by (simp add: take_bit_eq_mod [symmetric] take_bit_eq_mask mask_eq_exp_minus_1)



section \<open>The pool interface\<close>

fun release_all :: "(nat \<Rightarrow> 's \<Rightarrow> 's res) \<Rightarrow> nat list \<Rightarrow> 's \<Rightarrow> 's res" where
  "release_all f [] s = Inr s"
| "release_all f (a # as) s = bind_res (f a s) (release_all f as)"

locale buffer_pool =
  fixes avail :: "'s \<Rightarrow> nat set"
    and held :: "'s \<Rightarrow> nat set"
    and invar :: "'s \<Rightarrow> bool"
    and alloc :: "'s \<Rightarrow> (nat \<times> 's) res"
    and release :: "nat \<Rightarrow> 's \<Rightarrow> 's res"
  assumes alloc_spec: "invar s \<Longrightarrow> avail s \<noteq> {} \<Longrightarrow>
      \<exists>a s'. alloc s = Inr (a, s') \<and> a \<in> avail s \<and> invar s' \<and>
        avail s' = avail s - {a} \<and> held s' = insert a (held s)"
    and alloc_empty: "invar s \<Longrightarrow> avail s = {} \<Longrightarrow> alloc s = Inl Panic"
    and release_spec: "invar s \<Longrightarrow> a \<in> held s \<Longrightarrow>
      \<exists>s'. release a s = Inr s' \<and> invar s' \<and> avail s' = insert a (avail s) \<and> held s' = held s - {a}"
    and disjoint: "invar s \<Longrightarrow> avail s \<inter> held s = {}"
begin

lemma alloc_fresh:
  assumes "invar s" "alloc s = Inr (a, s')"
  shows "a \<notin> held s \<and> invar s' \<and> held s' = insert a (held s) \<and>
      avail s' \<union> held s' = avail s \<union> held s"
proof -
  have ne: "avail s \<noteq> {}" using alloc_empty assms by fastforce
  from alloc_spec [OF assms(1) ne] assms(2) have
    "a \<in> avail s" "invar s'" "avail s' = avail s - {a}" "held s' = insert a (held s)" by auto
  with disjoint [OF assms(1)] show ?thesis by auto
qed

lemma release_all_ok:
  assumes "invar s" "distinct as" "set as \<subseteq> held s"
  shows "\<exists>s'. release_all release as s = Inr s' \<and> invar s' \<and> held s' = held s - set as \<and>
      avail s' = avail s \<union> set as"
  using assms
proof (induction as arbitrary: s)
  case Nil
  then show ?case by simp
next
  case (Cons a as)
  from release_spec [OF Cons.prems(1), of a] Cons.prems(3) obtain s1 where
    s1: "release a s = Inr s1" "invar s1" "avail s1 = insert a (avail s)" "held s1 = held s - {a}"
    by auto
  from Cons.IH [OF s1(2)] Cons.prems s1(4) obtain s2 where
    "release_all release as s1 = Inr s2" "invar s2" "held s2 = held s1 - set as"
    "avail s2 = avail s1 \<union> set as" by auto
  with s1 show ?case by auto
qed

end

text \<open>
  The pool's invariant: the two lists partition the pool's buffers, every one of them is a live
  well-formed unchained block at an address that is not null, every free buffer is in the reset
  state, and the capacity counts them all.
\<close>

definition buf_ready :: "ethbuf \<Rightarrow> bool" where
  "buf_ready eb \<longleftrightarrow> eb_wf eb \<and> eb_next eb = None"

definition buf_clean :: "ethbuf \<Rightarrow> bool" where
  "buf_clean eb \<longleftrightarrow> data_len eb = 0 \<and> data_off eb = 0 \<and> l2_len eb = 0 \<and> l3_len eb = 0 \<and>
     mp_flags (priv_data eb) = 0"

definition buf_sat :: "(ethbuf \<Rightarrow> bool) \<Rightarrow> bufpool \<Rightarrow> nat \<Rightarrow> bool" where
  "buf_sat P st a \<longleftrightarrow> (case bufs st a of None \<Rightarrow> False | Some eb \<Rightarrow> P eb)"

definition pool_core :: "bufpool \<Rightarrow> bool" where
  "pool_core st \<longleftrightarrow>
     distinct (free_list st @ inuse_list st) \<and>
     (\<forall>a \<in> set (free_list st) \<union> set (inuse_list st). buf_sat buf_ready st a) \<and>
     (\<forall>a \<in> set (free_list st). buf_sat buf_clean st a) \<and>
     dom (bufs st) \<subseteq> {1..<fresh st} \<and> 1 \<le> fresh st"

definition pool_wf :: "bufpool \<Rightarrow> bool" where
  "pool_wf st \<longleftrightarrow>
     pool_core st \<and> pool_capacity st = length (free_list st) + length (inuse_list st)"

lemma buf_satE:
  assumes "buf_sat P st a"
  obtains eb where "bufs st a = Some eb" "P eb"
  using assms by (auto simp: buf_sat_def split: option.splits)

lemma pool_wf_buf:
  assumes "pool_wf st" "a \<in> set (free_list st) \<union> set (inuse_list st)"
  obtains eb where "bufs st a = Some eb" "buf_ready eb"
proof -
  have "buf_sat buf_ready st a" using assms by (simp add: pool_wf_def pool_core_def)
  then show thesis using that by (rule buf_satE)
qed

lemma pool_wf_free_buf:
  assumes wf: "pool_wf st" and a: "a \<in> set (inuse_list st)"
  shows "\<exists>st'. bstgw_ethpool_buf_free a st = Inr st' \<and> pool_wf st' \<and>
      set (free_list st') = insert a (set (free_list st)) \<and>
      set (inuse_list st') = set (inuse_list st) - {a} \<and>
      (\<forall>b. b \<noteq> a \<longrightarrow> bufs st' b = bufs st b) \<and> alloc_ok st' = alloc_ok st \<and> clk st' = clk st"
proof -
  from wf a obtain eb where eb: "bufs st a = Some eb" "buf_ready eb"
    using pool_wf_buf [of st a] by blast
  let ?eb = "eb\<lparr>l2_len := 0, l3_len := 0, data_len := 0, data_off := 0,
                priv_data := (priv_data eb)\<lparr>mp_flags := 0\<rparr>\<rparr>"
  let ?st = "st\<lparr>bufs := (bufs st)(a \<mapsto> ?eb), free_list := a # free_list st,
                inuse_list := remove1 a (inuse_list st)\<rparr>"
  have d: "distinct (inuse_list st)" "distinct (free_list st)"
    "set (free_list st) \<inter> set (inuse_list st) = {}"
    and rdy: "\<And>b. b \<in> set (free_list st) \<union> set (inuse_list st) \<Longrightarrow> buf_sat buf_ready st b"
    and cl: "\<And>b. b \<in> set (free_list st) \<Longrightarrow> buf_sat buf_clean st b"
    and cap: "pool_capacity st = length (free_list st) + length (inuse_list st)"
    and fr: "dom (bufs st) \<subseteq> {1..<fresh st}" "1 \<le> fresh st"
    using wf by (auto simp: pool_wf_def pool_core_def)
  have nf: "a \<notin> set (free_list st)" using a d(3) by blast
  have eq: "bstgw_ethpool_buf_free a st = Inr ?st"
    using eb a nf
    by (simp add: bstgw_ethpool_buf_free_def bstgw_ethpool_buf_reset_def list_remove_def buf_ready_def
        remove1_idem)
  have sat: "buf_sat P ?st b \<longleftrightarrow> (if b = a then P ?eb else buf_sat P st b)" for P b
    by (simp add: buf_sat_def)
  have "buf_ready ?eb" "buf_clean ?eb"
    using eb(2) by (simp_all add: buf_ready_def buf_clean_def eb_wf_def)
  then have "\<And>b. b \<in> set (free_list ?st) \<union> set (inuse_list ?st) \<Longrightarrow> buf_sat buf_ready ?st b"
    and "\<And>b. b \<in> set (free_list ?st) \<Longrightarrow> buf_sat buf_clean ?st b"
    unfolding sat using rdy cl set_remove1_subset [of a "inuse_list st"] by auto
  moreover have "distinct (free_list ?st @ inuse_list ?st)"
    using d nf by auto
  moreover have "pool_capacity ?st = length (free_list ?st) + length (inuse_list ?st)"
    using cap a length_pos_if_in_set [OF a] by (simp add: length_remove1)
  moreover have "dom (bufs ?st) \<subseteq> {1..<fresh ?st}" "1 \<le> fresh ?st"
    using fr eb(1) by auto
  ultimately have "pool_wf ?st" unfolding pool_wf_def pool_core_def by blast
  then show ?thesis using eq d by auto
qed

lemma pool_wf_alloc_buf:
  assumes wf: "pool_wf st" and ne: "free_list st = a # rest"
  shows "bstgw_ethpool_buf_alloc st =
      Inr (a, st\<lparr>free_list := rest, inuse_list := a # inuse_list st\<rparr>)"
    and "pool_wf (st\<lparr>free_list := rest, inuse_list := a # inuse_list st\<rparr>)"
  using assms by (auto simp: bstgw_ethpool_buf_alloc_def pool_wf_def pool_core_def buf_sat_def)

interpretation ethpool: buffer_pool "\<lambda>st. set (free_list st)" "\<lambda>st. set (inuse_list st)" pool_wf
  bstgw_ethpool_buf_alloc bstgw_ethpool_buf_free
proof (unfold_locales, goal_cases)
  case (1 s)
  then obtain a rest where ne: "free_list s = a # rest" by (cases "free_list s") auto
  from 1(1) ne have "a \<notin> set rest" by (simp add: pool_wf_def pool_core_def)
  with pool_wf_alloc_buf [OF 1(1) ne] ne show ?case by auto
next
  case (2 s)
  then show ?case by (simp add: bstgw_ethpool_buf_alloc_def)
next
  case (3 s a)
  then show ?case using pool_wf_free_buf by blast
next
  case (4 s)
  then show ?case by (auto simp: pool_wf_def pool_core_def)
qed

lemma pool_core_add:
  assumes "pool_core st" "length content < 2 ^ 31"
  shows "pool_core (st\<lparr>bufs := (bufs st)(fresh st \<mapsto> new_ethbuf content), fresh := fresh st + 1,
      clk := c, free_list := fresh st # free_list st\<rparr>)" (is "pool_core ?st1")
proof -
  have fr: "bufs st (fresh st) = None" using assms(1) by (auto simp: pool_core_def)
  have sat: "buf_sat P ?st1 b \<longleftrightarrow>
      (if b = fresh st then P (new_ethbuf content) else buf_sat P st b)" for P b
    by (simp add: buf_sat_def)
  have new: "buf_ready (new_ethbuf content)" "buf_clean (new_ethbuf content)"
    using assms(2)
    by (simp_all add: new_ethbuf_def buf_ready_def buf_clean_def eb_wf_def empty_priv_def)
  have na: "fresh st \<notin> set (free_list st) \<union> set (inuse_list st)"
  proof
    assume "fresh st \<in> set (free_list st) \<union> set (inuse_list st)"
    with assms(1) have "buf_sat buf_ready st (fresh st)" unfolding pool_core_def by blast
    with fr show False by (simp add: buf_sat_def)
  qed
  have "dom (bufs ?st1) \<subseteq> {1..<fresh ?st1}" "1 \<le> fresh ?st1"
    using assms(1) by (auto simp: pool_core_def less_Suc_eq)
  then show ?thesis
    using assms(1) new na unfolding pool_core_def sat by auto
qed

lemma increase_loop_core:
  assumes "pool_core st" "length content < 2 ^ 31" "increase_loop n content st = Inr st'"
  shows "pool_core st' \<and> length (free_list st') = length (free_list st) + n \<and>
     inuse_list st' = inuse_list st \<and> pool_capacity st' = pool_capacity st \<and>
     set (free_list st) \<subseteq> set (free_list st')"
  using assms
proof (induction n arbitrary: st)
  case 0
  then show ?case by simp
next
  case (Suc n)
  let ?st1 = "st\<lparr>bufs := (bufs st)(fresh st \<mapsto> new_ethbuf content), fresh := fresh st + 1,
      clk := clk st + 2, free_list := fresh st # free_list st\<rparr>"
  from Suc.prems(3) have rec: "increase_loop n content ?st1 = Inr st'"
    by (auto simp: bstgw_ethbuf_alloc_aligned_def split: if_splits)
  from Suc.IH [OF pool_core_add [OF Suc.prems(1,2)] Suc.prems(2) rec] show ?case by simp
qed

lemma pool_wf_increase:
  assumes "pool_wf st" "length content < 2 ^ 31" "bstgw_ethpool_increase content n st = Inr st'"
  shows "pool_wf st' \<and> length (free_list st') = length (free_list st) + n \<and>
     inuse_list st' = inuse_list st \<and> pool_capacity st' = pool_capacity st + n"
proof -
  from assms(3) obtain st1 where st1: "increase_loop n content st = Inr st1"
    "st' = st1\<lparr>pool_capacity := pool_capacity st1 + n\<rparr>"
    by (auto simp: bstgw_ethpool_increase_def bind_res_Inr_iff)
  from assms(1) have "pool_core st" by (simp add: pool_wf_def)
  from increase_loop_core [OF this assms(2) st1(1)] assms(1) st1(2) show ?thesis
    by (auto simp: pool_wf_def pool_core_def buf_sat_def)
qed

text \<open>Operation sequences of pool clients, which give back only what they hold.\<close>

datatype pool_op = Alloc | Free nat | Increase nat

fun pool_step :: "byte list \<Rightarrow> bufpool \<Rightarrow> pool_op \<Rightarrow> bufpool res" where
  "pool_step content st Alloc = bind_res (bstgw_ethpool_buf_alloc st) (\<lambda>(a, st'). Inr st')"
| "pool_step content st (Free a) =
     (if a \<in> set (inuse_list st) then bstgw_ethpool_buf_free a st else Inr st)"
| "pool_step content st (Increase n) = bstgw_ethpool_increase content n st"

fun pool_run :: "byte list \<Rightarrow> bufpool \<Rightarrow> pool_op list \<Rightarrow> bufpool res" where
  "pool_run content st [] = Inr st"
| "pool_run content st (x # xs) = bind_res (pool_step content st x) (\<lambda>st'. pool_run content st' xs)"

lemma pool_step_wf:
  assumes "pool_wf st" "length content < 2 ^ 31" "pool_step content st x = Inr st'"
  shows "pool_wf st'"
proof (cases x)
  case Alloc
  with assms(3) obtain a where "bstgw_ethpool_buf_alloc st = Inr (a, st')"
    by (auto simp: bind_res_Inr_iff)
  with ethpool.alloc_fresh [OF assms(1)] show ?thesis by blast
next
  case (Free a)
  with assms(1,3) pool_wf_free_buf [of st a] show ?thesis by (auto split: if_splits)
next
  case (Increase n)
  with pool_wf_increase [OF assms(1,2)] assms(3) show ?thesis by simp
qed

text \<open>
  Claim C6. Whatever sequence of allocations, releases of held buffers and increases of the pool
  runs to completion, the pool stays well-formed: no buffer is on both lists or twice on one, every
  buffer of the pool is a live well-formed block, every free buffer is in the reset state and the
  recorded capacity is the number of buffers. An allocation in the resulting state hands out a
  buffer nobody holds, or panics exactly when no buffer is free.
\<close>

theorem pool_run_wf:
  assumes "pool_wf st" and "length content < 2 ^ 31" and "pool_run content st xs = Inr st'"
  shows "pool_wf st' \<and>
    (case bstgw_ethpool_buf_alloc st' of
       Inl e \<Rightarrow> e = Panic \<and> free_list st' = []
     | Inr (a, st'') \<Rightarrow> a \<notin> set (inuse_list st') \<and> a \<in> set (inuse_list st'') \<and> pool_wf st'')"
proof -
  have wf: "pool_wf st'"
    using assms(1,3)
  proof (induction xs arbitrary: st)
    case (Cons x xs)
    then obtain s1 where "pool_step content st x = Inr s1" "pool_run content s1 xs = Inr st'"
      by (auto simp: bind_res_Inr_iff)
    with Cons pool_step_wf [OF _ assms(2)] show ?case by blast
  qed simp
  show ?thesis
  proof (cases "bstgw_ethpool_buf_alloc st'")
    case (Inl e)
    then show ?thesis using wf by (auto simp: bstgw_ethpool_buf_alloc_def split: list.splits)
  next
    case (Inr r)
    then obtain a s2 where "bstgw_ethpool_buf_alloc st' = Inr (a, s2)" by (cases r) auto
    with ethpool.alloc_fresh [OF wf this] show ?thesis using wf by auto
  qed
qed

definition empty_pool :: bufpool where
  "empty_pool = \<lparr>bufs = Map.empty, free_list = [], inuse_list = [], pool_capacity = 0, fresh = 1,
     alloc_ok = (\<lambda>_. True), clk = 0\<rparr>"

lemma empty_pool_wf: "pool_wf empty_pool"
  by (simp add: empty_pool_def pool_wf_def pool_core_def)

theorem pool_run_wf_witness:
  "\<exists>st'. pool_run [0, 0] empty_pool [Increase 2, Alloc, Alloc, Free 2, Alloc] = Inr st' \<and>
     pool_wf st' \<and> free_list st' = [] \<and> bstgw_ethpool_buf_alloc st' = Inl Panic"
proof -
  let ?xs = "[Increase 2, Alloc, Alloc, Free 2, Alloc]"
  obtain st' where st': "pool_run [0, 0] empty_pool ?xs = Inr st'" "free_list st' = []"
    by (simp add: empty_pool_def bstgw_ethpool_increase_def bstgw_ethbuf_alloc_aligned_def
        bstgw_ethpool_buf_alloc_def bstgw_ethpool_buf_free_def bstgw_ethpool_buf_reset_def
        list_remove_def new_ethbuf_def numeral_2_eq_2)
  with pool_run_wf [OF empty_pool_wf _ st'(1)] show ?thesis
    by (auto simp: bstgw_ethpool_buf_alloc_def)
qed

text \<open>
  Claim C26. A buffer that NPF allocates for a packet of its own starts two bytes and one Ethernet
  address into the block, so the router can never put a 14-byte Ethernet header in front of it:
  \<open>prepend\<close> of the header length fails on every such buffer that still has its initial offset.
\<close>

theorem mbuf_alloc_no_header_room:
  assumes "bstgw_mbuf_alloc st = Inr (a, st')" and "bufs st' a = Some eb"
  shows "bstgw_ethbuf_prepend eb RTE_ETHER_HDR_LEN = (eb, None)"
proof -
  have "data_off eb = 8"
    using assms by (auto simp: bstgw_mbuf_alloc_def bind_res_Inr_iff RTE_ETHER_ADDR_LEN_def
        split: option.splits prod.splits)
  then show ?thesis by (simp add: bstgw_ethbuf_prepend_def RTE_ETHER_HDR_LEN_def)
qed

theorem mbuf_alloc_no_header_room_witness:
  "\<exists>st a st' eb. pool_wf st \<and> bstgw_mbuf_alloc st = Inr (a, st') \<and> bufs st' a = Some eb \<and>
     bstgw_ethbuf_prepend eb RTE_ETHER_HDR_LEN = (eb, None)"
proof -
  let ?b = "new_ethbuf (replicate 32 0)"
  let ?st = "empty_pool\<lparr>bufs := [1 \<mapsto> ?b], free_list := [1], pool_capacity := 1, fresh := 2\<rparr>"
  let ?eb = "?b\<lparr>data_off := 8\<rparr>"
  let ?st' = "?st\<lparr>free_list := [], inuse_list := [1], bufs := [1 \<mapsto> ?eb]\<rparr>"
  have "bstgw_mbuf_alloc ?st = Inr (1, ?st')"
    by (simp add: bstgw_mbuf_alloc_def bstgw_ethpool_buf_alloc_def empty_pool_def RTE_ETHER_ADDR_LEN_def)
  moreover have "bufs ?st' 1 = Some ?eb" by simp
  moreover have "pool_wf ?st"
    by (simp add: pool_wf_def pool_core_def empty_pool_def buf_sat_def buf_ready_def buf_clean_def
        eb_wf_def new_ethbuf_def empty_priv_def)
  ultimately show ?thesis using mbuf_alloc_no_header_room by blast
qed

end
