(* ===== verification/Netdev.thy ===== *)
theory Netdev
  imports Pktq Ethbuf
begin

text \<open>
  Network devices of the router (\<open>nettrug/pta/if_netdev.c\<close>, \<open>if_bstgw.c\<close>, the structures of
  \<open>npf_router.h\<close>). Devices are kept in a store by address; the registry has the list the drivers
  insert into and the table that maps an interface index to its device. The ARP cache of a device
  is a map of the thmap library and has an arbitrary type \<open>'th\<close>.
\<close>

section \<open>State\<close>

datatype bstgw_trust = BSTGW_IF_NONSEC | BSTGW_IF_EXTERNAL

text \<open>The functions that the handler pointers of the two drivers name.\<close>

datatype dev_handler = Vnic_handler | Fec_handler | Generic_rx_handler

record 'th ifnet =
  ifnet_idx :: nat
  hwaddr :: ether_addr
  trust_status :: bstgw_trust
  napis :: "nat option list"
  napi_count :: nat
  xmit_handler :: "dev_handler option"
  rx_handler :: "dev_handler option"
  egress_ntfy_handler :: "dev_handler option"
  if_name :: string
  workers :: "nat option list"
  if_worker_count :: nat
  if_ips :: "byte list list"
  ips_cnt :: nat
  if_arg :: nat
  arp_map :: "'th option"
  egress_queue :: "nat pktqueue"

record 'th netdev =
  ifs :: "nat \<Rightarrow> 'th ifnet option"
  ifnet_map :: "nat option list"
  next_if_idx :: nat
  netdev_list :: "nat list"

definition MAX_IFNET_IDS :: nat where "MAX_IFNET_IDS = 32"
definition IF_NAMESIZE :: nat where "IF_NAMESIZE = 16"
definition BSTGW_MAX_NETIF_NAPI :: nat where "BSTGW_MAX_NETIF_NAPI = 2"
definition BSTGW_MAX_NETIF_IPS :: nat where "BSTGW_MAX_NETIF_IPS = 2"

section \<open>The registry\<close>

definition netdev_init :: "'th netdev \<Rightarrow> 'th netdev" where
  "netdev_init st = st\<lparr>netdev_list := [], next_if_idx := 1\<rparr>"

text \<open>
  A zeroed device with a stopped, zeroed egress queue; \<open>None\<close> when the queue cannot be allocated.
\<close>

definition empty_queue :: "nat pktqueue" where
  "empty_queue = \<lparr>stopped = False, next_read = 0, next_write = 0, pq_count = 0, pq_capacity = 0, pkt = []\<rparr>"

definition zero_ifnet :: "'th ifnet" where
  "zero_ifnet = \<lparr>ifnet_idx = 0, hwaddr = replicate 6 0, trust_status = BSTGW_IF_NONSEC,
     napis = replicate BSTGW_MAX_NETIF_NAPI None, napi_count = 0, xmit_handler = None, rx_handler = None,
     egress_ntfy_handler = None, if_name = [], workers = replicate BSTGW_MAX_NETIF_NAPI None,
     if_worker_count = 0, if_ips = replicate BSTGW_MAX_NETIF_IPS (replicate 4 0), ips_cnt = 0, if_arg = 0,
     arp_map = None, egress_queue = empty_queue\<rparr>"

definition ifnet_dev_init :: "bool \<Rightarrow> 'th ifnet option" where
  "ifnet_dev_init calloc_ok =
     (if calloc_ok then Some (zero_ifnet\<lparr>egress_queue := netif_tx_stop_queue empty_queue\<rparr>) else None)"

definition ifnet_napi_count :: "'th netdev \<Rightarrow> nat" where
  "ifnet_napi_count st =
     sum_list (map (\<lambda>p. case ifs st p of None \<Rightarrow> 0 | Some d \<Rightarrow> napi_count d) (netdev_list st))"

definition ifnet_dev_count :: "'th netdev \<Rightarrow> nat" where
  "ifnet_dev_count st = next_if_idx st - 1"

definition ifnet_dev_register :: "nat \<Rightarrow> 'th netdev \<Rightarrow> ('th netdev \<times> int) res" where
  "ifnet_dev_register p st =
     (case ifs st p of None \<Rightarrow> Inl Null_deref
      | Some d \<Rightarrow>
          if next_if_idx st > MAX_IFNET_IDS then Inr (st, -1)
          else if next_if_idx st = 0 \<or> length (ifnet_map st) < next_if_idx st then Inl Out_of_bounds
          else Inr (st\<lparr>netdev_list := p # netdev_list st,
                       ifnet_map := (ifnet_map st)[next_if_idx st - 1 := Some p],
                       ifs := (ifs st)(p \<mapsto> d\<lparr>ifnet_idx := next_if_idx st\<rparr>),
                       next_if_idx := next_if_idx st + 1\<rparr>, 0))"

definition has_name :: "'th netdev \<Rightarrow> string \<Rightarrow> nat \<Rightarrow> bool" where
  "has_name st ifname p = (case ifs st p of None \<Rightarrow> False | Some d \<Rightarrow> if_name d = ifname)"

definition ifnet_nametoindex :: "string option \<Rightarrow> 'th netdev \<Rightarrow> nat" where
  "ifnet_nametoindex ifname st =
     (case ifname of None \<Rightarrow> 0
      | Some nm \<Rightarrow>
          (case find (has_name st nm) (netdev_list st) of None \<Rightarrow> 0
           | Some p \<Rightarrow> (case ifs st p of None \<Rightarrow> 0 | Some d \<Rightarrow> ifnet_idx d)))"

definition ifnet_getbyidx :: "nat \<Rightarrow> 'th netdev \<Rightarrow> nat option" where
  "ifnet_getbyidx idx st =
     (if idx = 0 \<or> idx \<ge> next_if_idx st then None else ifnet_map st ! (idx - 1))"

definition ifnet_getbyname :: "string option \<Rightarrow> 'th netdev \<Rightarrow> nat option" where
  "ifnet_getbyname ifname st =
     (case ifname of None \<Rightarrow> None | Some nm \<Rightarrow> find (has_name st nm) (netdev_list st))"

definition ifnet_flush_arg :: "nat \<Rightarrow> 'th netdev \<Rightarrow> 'th netdev" where
  "ifnet_flush_arg a st =
     st\<lparr>ifs := (\<lambda>p. if p \<in> set (netdev_list st) then map_option (\<lambda>d. d\<lparr>if_arg := a\<rparr>) (ifs st p) else ifs st p)\<rparr>"

text \<open>The interface operations NPF calls (\<open>npf_bstgw_ops.c\<close>).\<close>

definition bstgw_ifop_getname :: "'th ifnet \<Rightarrow> string" where
  "bstgw_ifop_getname ifp = if_name ifp"

definition bstgw_ifop_lookup :: "string option \<Rightarrow> 'th netdev \<Rightarrow> nat option" where
  "bstgw_ifop_lookup ifname st =
     (let idx = ifnet_nametoindex ifname st in if idx = 0 then None else ifnet_getbyidx idx st)"

definition bstgw_ifop_flush :: "nat \<Rightarrow> 'th netdev \<Rightarrow> 'th netdev" where
  "bstgw_ifop_flush a st = ifnet_flush_arg a st"

definition bstgw_ifop_getmeta :: "'th ifnet \<Rightarrow> nat" where
  "bstgw_ifop_getmeta ifp = if_arg ifp"

definition bstgw_ifop_setmeta :: "'th ifnet \<Rightarrow> nat \<Rightarrow> 'th ifnet" where
  "bstgw_ifop_setmeta ifp a = ifp\<lparr>if_arg := a\<rparr>"

section \<open>Attaching a device to the router\<close>

text \<open>
  \<open>th_create\<close> is the map that \<open>thmap_create\<close> returns, if it succeeds. The queue array is allocated
  with the router's queue size; the buffer pool grows by as many buffers. \<open>junk\<close> is what the fresh
  array holds and \<open>content\<close> what a fresh buffer holds.
\<close>

definition ifnet_setup :: int where "ifnet_setup = 0"

definition ifnet_ifattach ::
    "'th option \<Rightarrow> nat list \<Rightarrow> byte list \<Rightarrow> bool \<Rightarrow> nat \<Rightarrow> 'th ifnet \<Rightarrow> bufpool \<Rightarrow> (int \<times> 'th ifnet \<times> bufpool) res" where
  "ifnet_ifattach th_create junk content malloc_ok pktqueue_size ifp pool =
     (case th_create of None \<Rightarrow> Inr (-1, ifp\<lparr>arp_map := None\<rparr>, pool)
      | Some t \<Rightarrow>
          if \<not> malloc_ok then Inr (-1, ifp\<lparr>arp_map := Some t\<rparr>, pool)
          else
            let q = (egress_queue ifp)\<lparr>pkt := take pktqueue_size (junk @ replicate pktqueue_size 0),
                                        pq_capacity := pktqueue_size\<rparr> in
            bind_res (bstgw_ethpool_increase content (pq_capacity q) pool)
              (\<lambda>pool'. Inr (0, ifp\<lparr>arp_map := Some t, egress_queue := q\<rparr>, pool')))"

text \<open>
  Detaching drops the queued packets from the ring (their buffers stay in use) and frees the array.
  A second detach finds capacity zero and divides by it.
\<close>

definition ifnet_ifdetach :: "'th ifnet \<Rightarrow> 'th ifnet res" where
  "ifnet_ifdetach ifp =
     bind_res (bstgw_pktq_locked_drop_bufs (egress_queue ifp) (pq_count (egress_queue ifp)))
       (\<lambda>q. Inr (ifp\<lparr>egress_queue := q\<lparr>pq_capacity := 0, pkt := []\<rparr>, arp_map := None\<rparr>))"

section \<open>Registry invariant\<close>

definition netdev_wf :: "'th netdev \<Rightarrow> bool" where
  "netdev_wf st \<longleftrightarrow>
     1 \<le> next_if_idx st \<and> next_if_idx st \<le> MAX_IFNET_IDS + 1 \<and> length (ifnet_map st) = MAX_IFNET_IDS \<and>
     map Some (rev (netdev_list st)) = take (next_if_idx st - 1) (ifnet_map st) \<and>
     distinct (netdev_list st) \<and>
     (\<forall>i < length (netdev_list st). case ifs st (rev (netdev_list st) ! i) of None \<Rightarrow> False
        | Some d \<Rightarrow> ifnet_idx d = i + 1)"

lemma netdev_wf_length: "netdev_wf st \<Longrightarrow> length (netdev_list st) = next_if_idx st - 1"
  unfolding netdev_wf_def
  by (metis add_diff_cancel_right' diff_le_mono length_map length_rev length_take min_absorb2)

lemma netdev_wf_lookup:
  assumes "netdev_wf st" "i < length (netdev_list st)"
  shows "ifnet_getbyidx (i + 1) st = Some (rev (netdev_list st) ! i)"
    and "\<exists>d. ifs st (rev (netdev_list st) ! i) = Some d \<and> ifnet_idx d = i + 1"
proof -
  have len: "length (netdev_list st) = next_if_idx st - 1" by (rule netdev_wf_length [OF assms(1)])
  have "map Some (rev (netdev_list st)) ! i = take (next_if_idx st - 1) (ifnet_map st) ! i"
    using assms(1) by (simp add: netdev_wf_def)
  moreover have "Suc i < next_if_idx st" using assms(2) len by linarith
  ultimately show "ifnet_getbyidx (i + 1) st = Some (rev (netdev_list st) ! i)"
    using assms(2) len by (simp add: ifnet_getbyidx_def)
  show "\<exists>d. ifs st (rev (netdev_list st) ! i) = Some d \<and> ifnet_idx d = i + 1"
    using assms by (auto simp: netdev_wf_def split: option.splits)
qed

lemma register_wf:
  assumes "netdev_wf st" "ifs st p = Some d" "p \<notin> set (netdev_list st)" "next_if_idx st \<le> MAX_IFNET_IDS"
  obtains st' where "ifnet_dev_register p st = Inr (st', 0)" "netdev_wf st'"
    "netdev_list st' = p # netdev_list st" "next_if_idx st' = next_if_idx st + 1"
    "ifnet_map st' = (ifnet_map st)[next_if_idx st - 1 := Some p]"
    "ifs st' = (ifs st)(p \<mapsto> d\<lparr>ifnet_idx := next_if_idx st\<rparr>)"
proof -
  let ?n = "next_if_idx st"
  let ?st = "st\<lparr>netdev_list := p # netdev_list st, ifnet_map := (ifnet_map st)[?n - 1 := Some p],
      ifs := (ifs st)(p \<mapsto> d\<lparr>ifnet_idx := ?n\<rparr>), next_if_idx := ?n + 1\<rparr>"
  have n: "1 \<le> ?n" "length (ifnet_map st) = MAX_IFNET_IDS" "length (netdev_list st) = ?n - 1"
    "map Some (rev (netdev_list st)) = take (?n - 1) (ifnet_map st)" "distinct (netdev_list st)"
    using assms(1) netdev_wf_length [OF assms(1)] by (simp_all add: netdev_wf_def)
  have "ifnet_dev_register p st = Inr (?st, 0)"
    using assms n by (simp add: ifnet_dev_register_def)
  moreover have "netdev_wf ?st"
  proof -
    have "map Some (rev (p # netdev_list st)) = take (Suc (?n - 1)) ((ifnet_map st)[?n - 1 := Some p])"
    proof -
      have "?n - 1 < length (ifnet_map st)" using n assms(4) by simp
      from take_update_self [OF this] n(4) show ?thesis by (simp only: rev.simps map_append list.map)
    qed
    then have m: "map Some (rev (p # netdev_list st)) = take ?n ((ifnet_map st)[?n - 1 := Some p])"
      using n(1) by simp
    have "case ((ifs st)(p \<mapsto> d\<lparr>ifnet_idx := ?n\<rparr>)) (rev (p # netdev_list st) ! i) of None \<Rightarrow> False
        | Some e \<Rightarrow> ifnet_idx e = i + 1" if i: "i < length (p # netdev_list st)" for i
    proof (cases "i < length (netdev_list st)")
      case True
      then have "rev (netdev_list st) ! i \<in> set (netdev_list st)"
        using nth_mem [of i "rev (netdev_list st)"] by simp
      with True netdev_wf_lookup(2) [OF assms(1) True] assms(3) show ?thesis
        by (auto simp: nth_append)
    next
      case False
      with i n(1,3) show ?thesis by (simp add: nth_append)
    qed
    with m n assms(3,4) show ?thesis by (simp add: netdev_wf_def)
  qed
  ultimately show ?thesis by (intro that [of ?st]) simp_all
qed


definition fresh_netdev :: "unit netdev" where
  "fresh_netdev = netdev_init \<lparr>ifs = [7 \<mapsto> zero_ifnet\<lparr>if_name := ''NW''\<rparr>],
     ifnet_map = replicate MAX_IFNET_IDS None, next_if_idx = 0, netdev_list = []\<rparr>"

lemma fresh_netdev_wf: "netdev_wf fresh_netdev"
  by (simp add: fresh_netdev_def netdev_init_def netdev_wf_def MAX_IFNET_IDS_def)


text \<open>
  The interface lookup NPF uses, through the index of a name, is the lookup by name.
\<close>

lemma ifop_lookup_by_name:
  assumes "netdev_wf st"
  shows "bstgw_ifop_lookup nm st = ifnet_getbyname nm st"
proof (cases nm)
  case None
  then show ?thesis
    by (simp add: bstgw_ifop_lookup_def ifnet_nametoindex_def ifnet_getbyname_def)
next
  case (Some s)
  show ?thesis
  proof (cases "find (has_name st s) (netdev_list st)")
    case None
    then show ?thesis
      using Some by (simp add: bstgw_ifop_lookup_def ifnet_nametoindex_def ifnet_getbyname_def)
  next
    case (Some p)
    then have "p \<in> set (rev (netdev_list st))" by (auto simp: find_Some_iff)
    then obtain i where i: "i < length (netdev_list st)" "rev (netdev_list st) ! i = p"
      unfolding in_set_conv_nth by auto
    from netdev_wf_lookup [OF assms i(1)] i(2) obtain d where
      "ifnet_getbyidx (i + 1) st = Some p" "ifs st p = Some d" "ifnet_idx d = i + 1" by auto
    then show ?thesis
      using Some \<open>nm = Some s\<close>
      by (simp add: bstgw_ifop_lookup_def ifnet_nametoindex_def ifnet_getbyname_def)
  qed
qed

text \<open>
  Attaching a device to the router gives it a well-formed empty egress queue of the
  router's queue size; detaching it succeeds, and detaching it a second time divides by zero.
\<close>

lemma ifattach_detach:
  assumes "egress_queue ifp = netif_tx_stop_queue empty_queue" and "0 < n" and "n < 2 ^ 31"
    and "ifnet_ifattach (Some t) junk content True n ifp pool = Inr (r, ifp', pool')"
  shows "r = 0 \<and> pktq_wf (egress_queue ifp') \<and> pktq_list (egress_queue ifp') = [] \<and>
    pktq_room (egress_queue ifp') = n \<and>
    (\<exists>ifp''. ifnet_ifdetach ifp' = Inr ifp'' \<and> ifnet_ifdetach ifp'' = Inl Div_zero)"
  using assms
  by (auto simp: ifnet_ifattach_def ifnet_ifdetach_def netif_tx_stop_queue_def empty_queue_def Let_def
      bind_res_Inr_iff pktq_wf_def pktq_list_def pktq_room_def bstgw_pktq_locked_drop_bufs_def)

end
