(* ===== verification/Napi.thy ===== *)
theory Napi
  imports Netdev
begin

text \<open>
  NAPI instances and the notifier (\<open>nettrug/napi/napi.c\<close>, \<open>napi.h\<close>, \<open>notifier.c\<close>) and the worker
  loop that drives a poll function (\<open>worker_run\<close> of \<open>npf_router.c\<close>). The operations are functions
  on one instance, each atomic under its spin lock. The worker loop, the notifier and everybody who
  schedules the instance run concurrently: a step relation over their program counters, whose
  invariant says that a wake-up is never lost.
\<close>

section \<open>One instance\<close>

text \<open>The four bits of \<open>state\<close> are the first four flags.\<close>

record napi =
  n_sched :: bool
  n_missed :: bool
  n_disable :: bool
  n_active :: bool
  n_do_notify :: bool
  n_is_waiting :: bool
  n_net_dev :: "nat option"
  n_poll :: "dev_handler option"
  n_weight :: int
  n_idx :: nat

definition napi_instance_setup :: napi where
  "napi_instance_setup = \<lparr>n_sched = False, n_missed = False, n_disable = False, n_active = False,
     n_do_notify = False, n_is_waiting = False, n_net_dev = None, n_poll = None, n_weight = 0, n_idx = 0\<rparr>"

text \<open>The device list of the notifier, newest first.\<close>

definition napi_init :: "nat list" where "napi_init = []"

definition netif_napi_add ::
    "nat \<Rightarrow> 'th ifnet \<Rightarrow> nat \<Rightarrow> napi \<Rightarrow> dev_handler \<Rightarrow> int \<Rightarrow> nat list \<Rightarrow> ('th ifnet \<times> napi \<times> nat list) res" where
  "netif_napi_add devp dev np n poll weight dlst =
     (if napi_count dev \<ge> BSTGW_MAX_NETIF_NAPI then Inl Panic
      else if length (napis dev) \<le> napi_count dev then Inl Out_of_bounds
      else if napis dev ! napi_count dev \<noteq> None then Inl Panic
      else Inr (dev\<lparr>napis := (napis dev)[napi_count dev := Some np], napi_count := napi_count dev + 1\<rparr>,
                n\<lparr>n_net_dev := Some devp, n_poll := Some poll, n_weight := weight, n_is_waiting := False,
                  n_sched := False, n_missed := False, n_active := False, n_disable := True,
                  n_idx := napi_count dev\<rparr>,
                np # dlst))"

definition netif_napi_del :: "'th ifnet \<Rightarrow> nat \<Rightarrow> napi \<Rightarrow> nat list \<Rightarrow> ('th ifnet \<times> napi \<times> nat list) res" where
  "netif_napi_del dev np n dlst =
     (if np \<notin> set dlst then Inl Null_deref
      else if length (napis dev) \<le> n_idx n then Inl Out_of_bounds
      else Inr (dev\<lparr>napi_count := sub32 (napi_count dev) 1, napis := (napis dev)[n_idx n := None]\<rparr>,
                n\<lparr>n_net_dev := None, n_poll := None, n_weight := 0, n_sched := False, n_missed := False,
                  n_active := False, n_disable := True\<rparr>,
                remove1 np dlst))"

text \<open>
  \<open>napi_disable\<close> marks the instance and then loops: \<open>napi_disable_try\<close> is one round of the loop under
  the lock, \<open>None\<close> while it has to wait for the worker.
\<close>

definition napi_disable_begin :: "napi \<Rightarrow> napi res" where
  "napi_disable_begin n = (if n_disable n then Inl Panic else Inr (n\<lparr>n_disable := True\<rparr>))"

definition napi_disable_try :: "napi \<Rightarrow> napi option" where
  "napi_disable_try n =
     (if \<not> n_active n then Some (n\<lparr>n_sched := False\<rparr>)
      else if n_sched n then None else Some n)"

definition napi_enable :: "napi \<Rightarrow> napi res" where
  "napi_enable n =
     (if \<not> n_disable n then Inl Panic
      else if n_sched n then Inl Panic
      else Inr (n\<lparr>n_disable := False\<rparr>))"

definition napi_schedule_prep_locked :: "napi \<Rightarrow> napi \<times> bool" where
  "napi_schedule_prep_locked n =
     (if n_disable n then (n, False)
      else if n_sched n then (n\<lparr>n_missed := True\<rparr>, False)
      else (n\<lparr>n_sched := True, n_missed := False\<rparr>, True))"

definition napi_schedule_locked :: "napi \<Rightarrow> napi" where
  "napi_schedule_locked n = n\<lparr>n_do_notify := True\<rparr>"

definition napi_schedule :: "napi \<Rightarrow> napi" where
  "napi_schedule n = (case napi_schedule_prep_locked n of (n', kick) \<Rightarrow>
     if kick then napi_schedule_locked n' else n')"

definition napi_complete_done :: "napi \<Rightarrow> napi \<times> bool" where
  "napi_complete_done n =
     (if \<not> n_disable n \<and> n_missed n then (n\<lparr>n_missed := False\<rparr>, False)
      else (n\<lparr>n_sched := False\<rparr>, True))"

definition napi_complete :: "napi \<Rightarrow> napi \<times> bool" where
  "napi_complete n = napi_complete_done n"

text \<open>
  The NAPI protocol on one instance: while it is enabled, scheduling it always leaves it
  scheduled, and leaves a pending kick exactly when it was not scheduled before. When a poll completes,
  a schedule that came in during the poll is never dropped: the instance stays scheduled and the driver
  is told to keep its interrupts masked. Completion without such a request ends the schedule, and while
  the instance is disabled scheduling has no effect.
\<close>

lemma napi_schedule_complete:
  "(n_disable n \<longrightarrow> napi_schedule n = n) \<and>
   (\<not> n_disable n \<longrightarrow> n_sched (napi_schedule n) \<and>
      (n_do_notify (napi_schedule n) \<longleftrightarrow> n_do_notify n \<or> \<not> n_sched n)) \<and>
   (\<not> n_disable n \<and> n_sched n \<longrightarrow>
      (let (n', rearm) = napi_complete (napi_schedule n) in n_sched n' \<and> \<not> rearm \<and> \<not> n_missed n')) \<and>
   (n_disable n \<or> \<not> n_missed n \<longrightarrow> (let (n', rearm) = napi_complete n in \<not> n_sched n' \<and> rearm))"
  by (auto simp: napi_schedule_def napi_schedule_prep_locked_def napi_schedule_locked_def
      napi_complete_def napi_complete_done_def Let_def)

section \<open>The notifier\<close>

text \<open>
  One device of the wake-up check: skipped when its mutex is taken or its worker is not waiting;
  otherwise the pending kick is taken and the worker is signalled if there was one.
\<close>

definition wakeup_one :: "bool \<Rightarrow> napi \<Rightarrow> napi \<times> bool" where
  "wakeup_one mtx_free n =
     (if \<not> mtx_free then (n, False)
      else if \<not> n_is_waiting n then (n, False)
      else (n\<lparr>n_do_notify := False\<rparr>, n_do_notify n))"

definition bstgw_notifier_wakeup_check :: "(bool \<times> napi) list \<Rightarrow> napi list \<times> bool" where
  "bstgw_notifier_wakeup_check ds =
     (let rs = map (\<lambda>(free, n). wakeup_one free n) ds in (map fst rs, list_ex snd rs))"

record notifier =
  nt_cnt_flag :: bool
  nt_check_period_ms :: int
  nt_has_idle :: bool

definition bstgw_init_notifier :: "int \<Rightarrow> bool \<Rightarrow> notifier" where
  "bstgw_init_notifier period has_idle =
     \<lparr>nt_cnt_flag = True, nt_check_period_ms = period, nt_has_idle = has_idle\<rparr>"

text \<open>
  One round of \<open>bstgw_notifier_loop\<close>, after the stop flag was found set: the state of the loop is
  whether the idle function may run and the time left until it does; \<open>idle_ret\<close> is what the idle
  function returns if it is called. The last component says whether it was called.
\<close>

definition notifier_round :: "notifier \<Rightarrow> bool \<Rightarrow> bool \<times> int \<Rightarrow> int \<Rightarrow> notifier \<times> (bool \<times> int) \<times> bool" where
  "notifier_round nt kicked lst idle_ret =
     (let run_idle = (fst lst \<or> kicked); sl = snd lst in
      if nt_has_idle nt \<and> run_idle then
        let sl' = sl - (nt_check_period_ms nt + 10) in
        if sl' \<le> 0
        then (if idle_ret < 0 then nt\<lparr>nt_cnt_flag := False\<rparr> else nt, (run_idle, idle_ret), True)
        else (nt, (run_idle, sl'), False)
      else (nt, (run_idle, sl), False))"

fun notifier_rounds :: "notifier \<Rightarrow> bool \<times> int \<Rightarrow> (bool \<times> int) list \<Rightarrow> bool list" where
  "notifier_rounds nt lst [] = []"
| "notifier_rounds nt lst ((kicked, idle_ret) # es) =
     (if \<not> nt_cnt_flag nt then []
      else case notifier_round nt kicked lst idle_ret of (nt', lst', called) \<Rightarrow>
        called # notifier_rounds nt' lst' es)"

definition bstgw_notifier_loop :: "notifier \<Rightarrow> bool \<Rightarrow> (bool \<times> int) list \<Rightarrow> bool list" where
  "bstgw_notifier_loop nt delay_idle_till_first_kick es =
     notifier_rounds nt (\<not> delay_idle_till_first_kick, 0) es"

section \<open>Worker, notifier and schedulers running concurrently\<close>

text \<open>
  The program counter of \<open>worker_run\<close>: before it marks itself active, before the first \<open>mutex_trylock\<close>,
  at the top of the loop with the mutex held, after deciding to run or to sleep with the mutex still
  held, asleep in \<open>condvar_wait\<close>, woken and waiting for the mutex, inside \<open>poll\<close>, in the rounds that
  look for new work without the mutex, and left.
\<close>

datatype wpc = W_Init | W_Start | W_Check | W_Run | W_Sleep | W_Asleep | W_Woken | W_Poll | W_Cycle | W_Out

text \<open>The notifier at one device: idle, holding the mutex, and about to signal (or not) and unlock.\<close>

datatype npc = N_Idle | N_Have | N_Sig bool

record napi_sys =
  sy_napi :: napi
  sy_w :: wpc
  sy_n :: npc

definition w_holds :: "napi_sys \<Rightarrow> bool" where
  "w_holds s \<longleftrightarrow> sy_w s \<in> {W_Check, W_Run, W_Sleep}"

definition n_holds :: "napi_sys \<Rightarrow> bool" where
  "n_holds s \<longleftrightarrow> sy_n s \<noteq> N_Idle"

definition mtx_free :: "napi_sys \<Rightarrow> bool" where
  "mtx_free s \<longleftrightarrow> \<not> w_holds s \<and> \<not> n_holds s"

inductive napi_step :: "napi_sys \<Rightarrow> napi_sys \<Rightarrow> bool" where
  schedule: "napi_step s (s\<lparr>sy_napi := napi_schedule (sy_napi s)\<rparr>)"
| disable_begin: "napi_disable_begin (sy_napi s) = Inr n \<Longrightarrow> napi_step s (s\<lparr>sy_napi := n\<rparr>)"
| disable_try: "n_disable (sy_napi s) \<Longrightarrow> napi_disable_try (sy_napi s) = Some n \<Longrightarrow> napi_step s (s\<lparr>sy_napi := n\<rparr>)"
| enable: "napi_enable (sy_napi s) = Inr n \<Longrightarrow> napi_step s (s\<lparr>sy_napi := n\<rparr>)"
| w_init: "sy_w s = W_Init \<Longrightarrow> napi_step s (s\<lparr>sy_napi := (sy_napi s)\<lparr>n_active := True\<rparr>, sy_w := W_Start\<rparr>)"
| w_start_lock: "sy_w s = W_Start \<Longrightarrow> mtx_free s \<Longrightarrow> napi_step s (s\<lparr>sy_w := W_Check\<rparr>)"
| w_start_fail: "sy_w s = W_Start \<Longrightarrow> \<not> mtx_free s \<Longrightarrow> napi_step s (s\<lparr>sy_w := W_Cycle\<rparr>)"
| w_check_run: "sy_w s = W_Check \<Longrightarrow> n_sched (sy_napi s) \<Longrightarrow>
    napi_step s (s\<lparr>sy_napi := (sy_napi s)\<lparr>n_do_notify := False\<rparr>, sy_w := W_Run\<rparr>)"
| w_check_sleep: "sy_w s = W_Check \<Longrightarrow> \<not> n_sched (sy_napi s) \<Longrightarrow> napi_step s (s\<lparr>sy_w := W_Sleep\<rparr>)"
| w_run: "sy_w s = W_Run \<Longrightarrow> napi_step s (s\<lparr>sy_napi := (sy_napi s)\<lparr>n_is_waiting := False\<rparr>, sy_w := W_Poll\<rparr>)"
| w_sleep: "sy_w s = W_Sleep \<Longrightarrow> napi_step s (s\<lparr>sy_napi := (sy_napi s)\<lparr>n_is_waiting := True\<rparr>, sy_w := W_Asleep\<rparr>)"
| w_wake: "sy_w s = W_Woken \<Longrightarrow> mtx_free s \<Longrightarrow> napi_step s (s\<lparr>sy_w := W_Check\<rparr>)"
| w_poll_complete: "sy_w s = W_Poll \<Longrightarrow> napi_step s (s\<lparr>sy_napi := fst (napi_complete (sy_napi s))\<rparr>)"
| w_poll_ret: "sy_w s = W_Poll \<Longrightarrow> napi_step s (s\<lparr>sy_w := W_Cycle\<rparr>)"
| w_poll_err: "sy_w s = W_Poll \<Longrightarrow> napi_step s (s\<lparr>sy_napi := (sy_napi s)\<lparr>n_active := False\<rparr>, sy_w := W_Out\<rparr>)"
| w_cycle_sched: "sy_w s = W_Cycle \<Longrightarrow> n_sched (sy_napi s) \<Longrightarrow>
    napi_step s (s\<lparr>sy_napi := (sy_napi s)\<lparr>n_do_notify := False\<rparr>, sy_w := W_Poll\<rparr>)"
| w_cycle_lock: "sy_w s = W_Cycle \<Longrightarrow> mtx_free s \<Longrightarrow> napi_step s (s\<lparr>sy_w := W_Check\<rparr>)"
| w_again: "sy_w s = W_Out \<Longrightarrow> napi_step s (s\<lparr>sy_w := W_Init\<rparr>)"
| n_lock: "mtx_free s \<Longrightarrow> n_is_waiting (sy_napi s) \<Longrightarrow> napi_step s (s\<lparr>sy_n := N_Have\<rparr>)"
| n_take: "sy_n s = N_Have \<Longrightarrow> wakeup_one True (sy_napi s) = (n, b) \<Longrightarrow>
    napi_step s (s\<lparr>sy_napi := n, sy_n := N_Sig b\<rparr>)"
| n_signal: "sy_n s = N_Sig b \<Longrightarrow>
    napi_step s (s\<lparr>sy_w := (if b \<and> sy_w s = W_Asleep then W_Woken else sy_w s), sy_n := N_Idle\<rparr>)"

inductive napi_reach :: "napi_sys \<Rightarrow> bool" where
  start: "napi_reach \<lparr>sy_napi = n\<lparr>n_is_waiting := False\<rparr>, sy_w = W_Init, sy_n = N_Idle\<rparr>"
| step: "napi_reach s \<Longrightarrow> napi_step s s' \<Longrightarrow> napi_reach s'"

definition wakeup_inv :: "napi_sys \<Rightarrow> bool" where
  "wakeup_inv s \<longleftrightarrow>
     \<not> (w_holds s \<and> n_holds s) \<and>
     (sy_w s = W_Asleep \<longrightarrow> n_is_waiting (sy_napi s)) \<and>
     (n_holds s \<longrightarrow> n_is_waiting (sy_napi s)) \<and>
     (sy_w s = W_Sleep \<and> n_sched (sy_napi s) \<longrightarrow> n_do_notify (sy_napi s)) \<and>
     (sy_w s = W_Asleep \<and> n_sched (sy_napi s) \<longrightarrow> n_do_notify (sy_napi s) \<or> sy_n s = N_Sig True)"

lemmas napi_op_defs = napi_schedule_def napi_schedule_prep_locked_def napi_schedule_locked_def
  napi_disable_begin_def napi_disable_try_def napi_enable_def napi_complete_def napi_complete_done_def
  wakeup_one_def

lemmas napi_sys_defs = wakeup_inv_def w_holds_def n_holds_def mtx_free_def

lemma wakeup_inv_step: "napi_step s s' \<Longrightarrow> wakeup_inv s \<Longrightarrow> wakeup_inv s'"
  by (induction rule: napi_step.induct)
    (auto simp: napi_sys_defs napi_op_defs split: if_splits prod.splits)

lemma wakeup_inv_reach: "napi_reach s \<Longrightarrow> wakeup_inv s"
proof (induction rule: napi_reach.induct)
  case (start n)
  then show ?case by (simp add: napi_sys_defs)
next
  case (step s s')
  then show ?case by (blast intro: wakeup_inv_step)
qed

text \<open>
  Claim C4. No wake-up is lost. In every state that the worker loop, the notifier and any number of
  schedulers, enables and disables can reach, if the worker sleeps while its instance is scheduled, then
  the notifier is about to signal it, or the kick is pending and the notifier's next visit takes it and
  signals the worker.
\<close>

theorem napi_no_lost_wakeup:
  assumes "napi_reach s" and "sy_w s = W_Asleep" and "n_sched (sy_napi s)"
  shows "sy_n s = N_Sig True \<or> (snd (wakeup_one True (sy_napi s)) \<and> (sy_n s = N_Idle \<longrightarrow> mtx_free s))"
  using wakeup_inv_reach [OF assms(1)] assms(2,3)
  by (auto simp: napi_sys_defs wakeup_one_def)

text \<open>A run that gets there: the worker falls asleep, then somebody schedules the instance.\<close>

lemma sleeping_scheduled_reachable:
  "napi_reach \<lparr>sy_napi = napi_instance_setup\<lparr>n_active := True, n_is_waiting := True, n_sched := True,
     n_do_notify := True\<rparr>, sy_w = W_Asleep, sy_n = N_Idle\<rparr>"
proof -
  let ?n = napi_instance_setup
  have "napi_reach \<lparr>sy_napi = ?n, sy_w = W_Init, sy_n = N_Idle\<rparr>"
    using napi_reach.start [of ?n] by (simp add: napi_instance_setup_def)
  from napi_reach.step [OF this napi_step.w_init]
  have "napi_reach \<lparr>sy_napi = ?n\<lparr>n_active := True\<rparr>, sy_w = W_Start, sy_n = N_Idle\<rparr>" by simp
  from napi_reach.step [OF this napi_step.w_start_lock]
  have "napi_reach \<lparr>sy_napi = ?n\<lparr>n_active := True\<rparr>, sy_w = W_Check, sy_n = N_Idle\<rparr>"
    by (simp add: mtx_free_def w_holds_def n_holds_def)
  from napi_reach.step [OF this napi_step.w_check_sleep]
  have "napi_reach \<lparr>sy_napi = ?n\<lparr>n_active := True\<rparr>, sy_w = W_Sleep, sy_n = N_Idle\<rparr>"
    by (simp add: napi_instance_setup_def)
  from napi_reach.step [OF this napi_step.w_sleep]
  have "napi_reach \<lparr>sy_napi = ?n\<lparr>n_active := True, n_is_waiting := True\<rparr>, sy_w = W_Asleep, sy_n = N_Idle\<rparr>"
    by simp
  from napi_reach.step [OF this napi_step.schedule] show ?thesis
    by (simp add: napi_op_defs napi_instance_setup_def)
qed

theorem napi_no_lost_wakeup_witness:
  "snd (wakeup_one True (napi_instance_setup\<lparr>n_active := True, n_is_waiting := True, n_sched := True,
     n_do_notify := True\<rparr>))"
  using napi_no_lost_wakeup [OF sleeping_scheduled_reachable] by (simp add: napi_instance_setup_def)

lemma no_idle_before_kick:
  assumes "list_all (\<lambda>(k, r). \<not> k) es"
  shows "list_all Not (notifier_rounds nt (False, 0) es)"
  using assms by (induction es arbitrary: nt) (auto simp: notifier_round_def Let_def)

text \<open>
  The idle function of the notifier (the NPF garbage collector) stays quiet until the first
  kick when its start is delayed, and once it fails the loop ends: no round follows a failing call.
\<close>

lemma notifier_idle_rule:
  "(list_all (\<lambda>(k, r). \<not> k) es \<longrightarrow> list_all Not (bstgw_notifier_loop nt True es)) \<and>
   (notifier_round nt kicked lst idle_ret = (nt', lst', True) \<and> idle_ret < 0 \<longrightarrow>
      notifier_rounds nt' lst' es = [])"
proof -
  have "notifier_rounds nt' lst' es = []"
    if "notifier_round nt kicked lst idle_ret = (nt', lst', True)" "idle_ret < 0"
  proof -
    have "\<not> nt_cnt_flag nt'"
      using that by (auto simp: notifier_round_def Let_def split: if_splits)
    then show ?thesis by (cases es) auto
  qed
  with no_idle_before_kick show ?thesis by (auto simp: bstgw_notifier_loop_def)
qed

end
