(* ===== verification/Virtio.thy ===== *)
theory Virtio
  imports Vqueue Napi
begin

text \<open>
  The virtio device of the virtual NIC and its register interface (\<open>virtio-nic/vnic/src/virtio.c\<close>,
  \<open>virtio-mmio.c\<close>, the configuration part of \<open>virtio-net.c\<close>, the callbacks of \<open>vnic.c\<close>). The normal
  world reaches it through trapped loads and stores: \<open>vnic_emu_check\<close> is the trap handler. The
  invariant \<open>vnic_inv\<close> holds after every sequence of accesses the normal world can make.
\<close>

section \<open>State\<close>

record mmio_queue =
  mq_num :: nat
  mq_enabled :: bool
  mq_desc :: "u32 \<times> u32"
  mq_avail :: "u32 \<times> u32"
  mq_used :: "u32 \<times> u32"

record mmio =
  host_features_sel :: nat
  guest_features_sel :: nat
  mm_guest_features :: "u32 \<times> u32"
  mm_vqs :: "mmio_queue list"

record vdev =
  vd_status :: u8
  vd_isr :: u8
  queue_sel :: nat
  guest_features :: u64
  host_features :: u64
  config_len :: nat
  vd_config :: "byte list"
  generation :: u32
  vd_vq :: "vqueue list"
  device_id :: u16
  use_started :: bool
  vd_started :: bool

record vnet =
  vn_mac :: ether_addr
  vn_status :: u16
  tx_burst :: nat
  rx_burst :: nat
  vn_mtu :: u16
  config_size :: nat
  curr_guest_offloads :: u64

text \<open>
  The NIC as a whole. \<open>kicks\<close> counts the interrupts raised towards the normal world, \<open>vn_va\<close> is the
  current translation of non-secure physical addresses, \<open>vn_nw\<close> the normal world's memory and
  \<open>fec_ifp\<close> the address of the external card that \<open>virtio_net_flush_tx\<close> remembers.
\<close>

record vnic =
  mmio_conf :: mmio
  vn_vdev :: vdev
  vn_vnet :: vnet
  vn_napi :: napi
  kicks :: nat
  vn_va :: "nat \<Rightarrow> nat"
  vn_nw :: nwmach
  fec_ifp :: "nat option"

definition upd_vdev :: "(vdev \<Rightarrow> vdev) \<Rightarrow> vnic \<Rightarrow> vnic" where
  "upd_vdev f v = v\<lparr>vn_vdev := f (vn_vdev v)\<rparr>"

definition upd_mmio :: "(mmio \<Rightarrow> mmio) \<Rightarrow> vnic \<Rightarrow> vnic" where
  "upd_mmio f v = v\<lparr>mmio_conf := f (mmio_conf v)\<rparr>"

definition get_vq :: "nat \<Rightarrow> vnic \<Rightarrow> vqueue res" where
  "get_vq n v = (if n < length (vd_vq (vn_vdev v)) then Inr (vd_vq (vn_vdev v) ! n) else Inl Out_of_bounds)"

definition set_vq :: "nat \<Rightarrow> vqueue \<Rightarrow> vnic \<Rightarrow> vnic" where
  "set_vq n q v = upd_vdev (\<lambda>d. d\<lparr>vd_vq := (vd_vq d)[n := q]\<rparr>) v"

definition VNIC_QUEUE_MAX :: nat where "VNIC_QUEUE_MAX = 2"
definition VNIC_VQ_MAX_SIZE :: nat where "VNIC_VQ_MAX_SIZE = 256"
definition VIRTIO_CONFIG_S_DRIVER_OK :: u8 where "VIRTIO_CONFIG_S_DRIVER_OK = 4"
definition VIRTIO_CONFIG_S_FEATURES_OK :: u8 where "VIRTIO_CONFIG_S_FEATURES_OK = 8"
definition VIRTIO_F_VERSION_1 :: nat where "VIRTIO_F_VERSION_1 = 32"
definition VIRTIO_NET_F_MTU :: nat where "VIRTIO_NET_F_MTU = 3"
definition VIRTIO_NET_F_MAC :: nat where "VIRTIO_NET_F_MAC = 5"
definition VIRTIO_NET_F_STATUS :: nat where "VIRTIO_NET_F_STATUS = 16"
definition VIRTIO_NET_S_LINK_UP :: u16 where "VIRTIO_NET_S_LINK_UP = 1"
definition VRING_AVAIL_F_NO_INTERRUPT :: nat where "VRING_AVAIL_F_NO_INTERRUPT = 1"

section \<open>Feature bits\<close>

definition virtio_add_feature :: "u64 \<Rightarrow> nat \<Rightarrow> u64 res" where
  "virtio_add_feature features fbit = (if fbit < 64 then Inr (features OR push_bit fbit 1) else Inl Assert_failed)"

definition virtio_clear_feature :: "u64 \<Rightarrow> nat \<Rightarrow> u64 res" where
  "virtio_clear_feature features fbit = (if fbit < 64 then Inr (features AND NOT (push_bit fbit 1)) else Inl Assert_failed)"

definition virtio_has_feature :: "u64 \<Rightarrow> nat \<Rightarrow> bool res" where
  "virtio_has_feature features fbit = (if fbit < 64 then Inr (features AND push_bit fbit 1 \<noteq> 0) else Inl Assert_failed)"

definition virtio_vdev_has_feature :: "vdev \<Rightarrow> nat \<Rightarrow> bool res" where
  "virtio_vdev_has_feature d fbit = virtio_has_feature (guest_features d) fbit"

definition virtio_host_has_feature :: "vdev \<Rightarrow> nat \<Rightarrow> bool res" where
  "virtio_host_has_feature d fbit = virtio_has_feature (host_features d) fbit"

definition virtio_set_started :: "bool \<Rightarrow> vdev \<Rightarrow> vdev" where
  "virtio_set_started b d = d\<lparr>vd_started := b\<rparr>"

section \<open>Interrupts towards the normal world\<close>

definition vnic_kick_nw :: "vnic \<Rightarrow> vnic" where
  "vnic_kick_nw v = (if vd_isr (vn_vdev v) \<noteq> 0 then v\<lparr>kicks := kicks v + 1\<rparr> else v)"

definition virtio_set_isr :: "u8 \<Rightarrow> vnic \<Rightarrow> vnic" where
  "virtio_set_isr val v =
     (let old = vd_isr (vn_vdev v) in
      if old AND val \<noteq> val then upd_vdev (\<lambda>d. d\<lparr>vd_isr := old OR val\<rparr>) v else v)"

definition virtio_notify_vector :: "vnic \<Rightarrow> vnic" where
  "virtio_notify_vector v = vnic_kick_nw v"

definition virtio_notify :: "vnic \<Rightarrow> vnic" where
  "virtio_notify v = virtio_notify_vector (virtio_set_isr 1 v)"

definition virtio_update_irq :: "vnic \<Rightarrow> vnic" where
  "virtio_update_irq v = virtio_notify_vector v"

definition virtio_notify_config :: "vnic \<Rightarrow> vnic" where
  "virtio_notify_config v =
     (if vd_status (vn_vdev v) AND VIRTIO_CONFIG_S_DRIVER_OK = 0 then v
      else virtio_notify_vector (upd_vdev (\<lambda>d. d\<lparr>generation := generation d + 1\<rparr>) (virtio_set_isr 3 v)))"

section \<open>The net device behind the virtio device\<close>

definition virtio_net_config :: "vnet \<Rightarrow> byte list" where
  "virtio_net_config n = vn_mac n @ le_bytes 2 (unat (vn_status n)) @ le_bytes 2 1 @ le_bytes 2 (unat (vn_mtu n))"

definition virtio_net_get_config :: "vnic \<Rightarrow> vnic res" where
  "virtio_net_get_config v =
     (if config_size (vn_vnet v) \<noteq> 12 then Inl Panic
      else Inr (upd_vdev (\<lambda>d. d\<lparr>vd_config := blit (vd_config d) 0 (virtio_net_config (vn_vnet v))\<rparr>) v))"

definition virtio_net_set_config :: "vnic \<Rightarrow> vnic" where
  "virtio_net_set_config v = v"

definition virtio_net_started :: "vnet \<Rightarrow> u8 \<Rightarrow> bool" where
  "virtio_net_started n status \<longleftrightarrow> status AND VIRTIO_CONFIG_S_DRIVER_OK \<noteq> 0 \<and> vn_status n AND VIRTIO_NET_S_LINK_UP \<noteq> 0"

definition virtio_net_set_status :: "u8 \<Rightarrow> vnic \<Rightarrow> vnic" where
  "virtio_net_set_status status v =
     (if virtio_net_started (vn_vnet v) status then v\<lparr>vn_napi := napi_schedule (vn_napi v)\<rparr> else v)"

definition virtio_net_set_link_status :: "bool \<Rightarrow> vnic \<Rightarrow> vnic" where
  "virtio_net_set_link_status link_up v =
     (let old_status = vn_status (vn_vnet v);
          new = (if link_up then old_status OR VIRTIO_NET_S_LINK_UP else old_status AND NOT VIRTIO_NET_S_LINK_UP);
          v1 = v\<lparr>vn_vnet := (vn_vnet v)\<lparr>vn_status := new\<rparr>\<rparr>;
          v2 = (if new \<noteq> old_status then virtio_notify_config v1 else v1) in
      virtio_net_set_status (vd_status (vn_vdev v2)) v2)"

definition virtio_net_reset :: "vnic \<Rightarrow> vnic" where
  "virtio_net_reset v = v"

definition virtio_net_guest_offloads_by_features :: "u32 \<Rightarrow> u64" where
  "virtio_net_guest_offloads_by_features features = 0 AND ucast features"

definition virtio_net_set_features :: "u64 \<Rightarrow> vnic \<Rightarrow> vnic" where
  "virtio_net_set_features features v =
     v\<lparr>vn_vnet := (vn_vnet v)\<lparr>curr_guest_offloads := virtio_net_guest_offloads_by_features (ucast features)\<rparr>\<rparr>"

section \<open>Device operations\<close>

definition virtio_validate_features :: "vnic \<Rightarrow> int" where
  "virtio_validate_features v = 0"

definition virtio_set_status :: "u8 \<Rightarrow> vnic \<Rightarrow> int \<times> vnic" where
  "virtio_set_status val v =
     (let old = vd_status (vn_vdev v);
          ret = (if old AND VIRTIO_CONFIG_S_FEATURES_OK = 0 \<and> val AND VIRTIO_CONFIG_S_FEATURES_OK \<noteq> 0
                 then virtio_validate_features v else 0) in
      if ret \<noteq> 0 then (ret, v)
      else
        let v1 = (if old AND VIRTIO_CONFIG_S_DRIVER_OK \<noteq> val AND VIRTIO_CONFIG_S_DRIVER_OK
                  then upd_vdev (virtio_set_started (val AND VIRTIO_CONFIG_S_DRIVER_OK \<noteq> 0)) v else v);
            v2 = virtio_net_set_status val v1 in
        (0, upd_vdev (\<lambda>d. d\<lparr>vd_status := val\<rparr>) v2))"

fun reset_queues :: "vqueue list \<Rightarrow> vqueue list res" where
  "reset_queues [] = Inr []"
| "reset_queues (q # qs) =
     bind_res (vqueue_vring_teardown q) (\<lambda>q'.
     bind_res (reset_queues qs) (\<lambda>qs'.
       Inr (q'\<lparr>vq_vring := (vq_vring q')\<lparr>vr_num := vr_num_default (vq_vring q')\<rparr>\<rparr> # qs')))"

definition virtio_reset :: "vnic \<Rightarrow> vnic res" where
  "virtio_reset v =
     (let v1 = virtio_net_reset (snd (virtio_set_status 0 v));
          v2 = upd_vdev (\<lambda>d. d\<lparr>vd_started := False, guest_features := 0, queue_sel := 0, vd_status := 0, vd_isr := 0\<rparr>) v1;
          v3 = virtio_notify_vector v2 in
      if length (vd_vq (vn_vdev v3)) < VNIC_QUEUE_MAX then Inl Out_of_bounds
      else bind_res (reset_queues (take VNIC_QUEUE_MAX (vd_vq (vn_vdev v3)))) (\<lambda>qs.
        Inr (upd_vdev (\<lambda>d. d\<lparr>vd_vq := qs @ drop VNIC_QUEUE_MAX (vd_vq d)\<rparr>) v3)))"

text \<open>Accesses to the configuration space; a read refreshes it from the net device first.\<close>

definition virtio_config_read :: "nat \<Rightarrow> nat \<Rightarrow> vnic \<Rightarrow> (u32 \<times> vnic) res" where
  "virtio_config_read offset sz v =
     (if add32 offset sz > config_len (vn_vdev v) then Inr (0, v)
      else bind_res (virtio_net_get_config v) (\<lambda>v1.
        if sz \<notin> {1, 2, 4} then Inl Panic
        else if offset + sz > length (vd_config (vn_vdev v1)) then Inl Out_of_bounds
        else Inr (of_nat (le_val (slice (vd_config (vn_vdev v1)) offset sz)), v1)))"

definition virtio_config_write :: "nat \<Rightarrow> u32 \<Rightarrow> nat \<Rightarrow> vnic \<Rightarrow> vnic res" where
  "virtio_config_write offset val sz v =
     (if add32 offset sz > config_len (vn_vdev v) then Inr v
      else if sz \<notin> {1, 2, 4} then Inl Panic
      else if offset + sz > length (vd_config (vn_vdev v)) then Inl Out_of_bounds
      else Inr (virtio_net_set_config
        (upd_vdev (\<lambda>d. d\<lparr>vd_config := blit (vd_config d) offset (le_bytes sz (unat val))\<rparr>) v)))"

text \<open>
  \<open>virtio_queue_set_rings\<close>: the 64-bit addresses are cut to the 32 bits of a physical address. A
  failed set-up is only logged.
\<close>

definition virtio_queue_set_rings ::
    "((nat \<Rightarrow> nat) \<Rightarrow> nat \<Rightarrow> nat \<Rightarrow> (nat \<Rightarrow> nat) option) \<Rightarrow> nat \<Rightarrow> u64 \<Rightarrow> u64 \<Rightarrow> u64 \<Rightarrow> vnic \<Rightarrow> vnic res" where
  "virtio_queue_set_rings add_mapping n desc avail used v =
     bind_res (get_vq n v) (\<lambda>q.
     if vq_num q = 0 then Inr v
     else bind_res (vqueue_vring_setup add_mapping (vn_va v) q (unat desc mod 2 ^ 32) (unat avail mod 2 ^ 32) (unat used mod 2 ^ 32))
       (\<lambda>(r, q', va'). Inr ((set_vq n q' v)\<lparr>vn_va := va'\<rparr>)))"

definition virtio_queue_set_num :: "nat \<Rightarrow> int \<Rightarrow> vnic \<Rightarrow> vnic res" where
  "virtio_queue_set_num n num v =
     bind_res (get_vq n v) (\<lambda>q.
     if (num \<noteq> 0) \<noteq> (vq_num q \<noteq> 0) \<or> num > int VNIC_VQ_MAX_SIZE \<or> num < 0 then Inr v
     else Inr (set_vq n (q\<lparr>vq_vring := (vq_vring q)\<lparr>vr_num := nat num\<rparr>\<rparr>) v))"

definition virtio_queue_get_num :: "nat \<Rightarrow> vnic \<Rightarrow> nat res" where
  "virtio_queue_get_num n v = bind_res (get_vq n v) (\<lambda>q. Inr (vq_num q))"

definition vnic_vq_notify_cb :: "nat \<Rightarrow> vnic \<Rightarrow> vnic res" where
  "vnic_vq_notify_cb n v =
     bind_res (get_vq n v) (\<lambda>q.
     bind_res (vqueue_napi_signal_avail q (vn_nw v)) (\<lambda>s.
       Inr (v\<lparr>vn_nw := s, vn_napi := napi_schedule (vn_napi v)\<rparr>)))"

text \<open>In the C expression the negation applies to the flags, before the conjunction.\<close>

definition vnic_vq_kick_cb :: "nat \<Rightarrow> vnic \<Rightarrow> vnic res" where
  "vnic_vq_kick_cb n v =
     bind_res (get_vq n v) (\<lambda>q.
     deref (vq_avail q) (
       let s = sync (vn_nw v); flags = rd16 (nwmem s) (vq_avail q); v1 = v\<lparr>vn_nw := s\<rparr> in
       if (if flags = 0 then 1 else 0) AND VRING_AVAIL_F_NO_INTERRUPT \<noteq> 0 then Inr (virtio_notify v1) else Inr v1))"

definition run_cb :: "vqueue_cb option \<Rightarrow> nat \<Rightarrow> vnic \<Rightarrow> vnic res" where
  "run_cb cb n v = (case cb of None \<Rightarrow> Inr v | Some Vnic_vq_notify_cb \<Rightarrow> vnic_vq_notify_cb n v
     | Some Vnic_vq_kick_cb \<Rightarrow> vnic_vq_kick_cb n v)"

definition vqueue_notify :: "nat \<Rightarrow> vnic \<Rightarrow> vnic res" where
  "vqueue_notify n v = bind_res (get_vq n v) (\<lambda>q. run_cb (notify_cb q) n v)"

definition vqueue_kick :: "nat \<Rightarrow> vnic \<Rightarrow> vnic res" where
  "vqueue_kick n v = bind_res (get_vq n v) (\<lambda>q. run_cb (kick_cb q) n v)"

definition virtio_queue_notify :: "nat \<Rightarrow> vnic \<Rightarrow> vnic res" where
  "virtio_queue_notify n v = bind_res (get_vq n v) (\<lambda>q. if vring_addr q = 0 then Inr v else vqueue_notify n v)"

text \<open>
  Feature negotiation. The check for \<open>VIRTIO_F_VERSION_1\<close> uses the number of the bit, 32, as a mask.
\<close>

definition virtio_set_features_nocheck :: "u64 \<Rightarrow> vnic \<Rightarrow> (int \<times> vnic) res" where
  "virtio_set_features_nocheck val v =
     (let bad = (val AND NOT (host_features (vn_vdev v)) \<noteq> 0);
          val' = val AND host_features (vn_vdev v);
          v1 = upd_vdev (\<lambda>d. d\<lparr>guest_features := val'\<rparr>) (virtio_net_set_features val' v) in
      if guest_features (vn_vdev v1) AND of_nat VIRTIO_F_VERSION_1 \<noteq> 0 then Inr (if bad then -1 else 0, v1)
      else Inl Panic)"

definition EINVAL :: int where "EINVAL = 22"

definition virtio_set_features :: "u64 \<Rightarrow> vnic \<Rightarrow> (int \<times> vnic) res" where
  "virtio_set_features val v =
     (if vd_status (vn_vdev v) AND VIRTIO_CONFIG_S_FEATURES_OK \<noteq> 0 then Inr (- EINVAL, v)
      else virtio_set_features_nocheck val v)"


section \<open>The register interface\<close>

definition VIRTIO_MMIO_MAGIC_VALUE :: nat where "VIRTIO_MMIO_MAGIC_VALUE = 0x000"
definition VIRTIO_MMIO_VERSION :: nat where "VIRTIO_MMIO_VERSION = 0x004"
definition VIRTIO_MMIO_DEVICE_ID :: nat where "VIRTIO_MMIO_DEVICE_ID = 0x008"
definition VIRTIO_MMIO_VENDOR_ID :: nat where "VIRTIO_MMIO_VENDOR_ID = 0x00c"
definition VIRTIO_MMIO_DEVICE_FEATURES :: nat where "VIRTIO_MMIO_DEVICE_FEATURES = 0x010"
definition VIRTIO_MMIO_DEVICE_FEATURES_SEL :: nat where "VIRTIO_MMIO_DEVICE_FEATURES_SEL = 0x014"
definition VIRTIO_MMIO_DRIVER_FEATURES :: nat where "VIRTIO_MMIO_DRIVER_FEATURES = 0x020"
definition VIRTIO_MMIO_DRIVER_FEATURES_SEL :: nat where "VIRTIO_MMIO_DRIVER_FEATURES_SEL = 0x024"
definition VIRTIO_MMIO_QUEUE_SEL :: nat where "VIRTIO_MMIO_QUEUE_SEL = 0x030"
definition VIRTIO_MMIO_QUEUE_NUM_MAX :: nat where "VIRTIO_MMIO_QUEUE_NUM_MAX = 0x034"
definition VIRTIO_MMIO_QUEUE_NUM :: nat where "VIRTIO_MMIO_QUEUE_NUM = 0x038"
definition VIRTIO_MMIO_QUEUE_READY :: nat where "VIRTIO_MMIO_QUEUE_READY = 0x044"
definition VIRTIO_MMIO_QUEUE_NOTIFY :: nat where "VIRTIO_MMIO_QUEUE_NOTIFY = 0x050"
definition VIRTIO_MMIO_INTERRUPT_STATUS :: nat where "VIRTIO_MMIO_INTERRUPT_STATUS = 0x060"
definition VIRTIO_MMIO_INTERRUPT_ACK :: nat where "VIRTIO_MMIO_INTERRUPT_ACK = 0x064"
definition VIRTIO_MMIO_STATUS :: nat where "VIRTIO_MMIO_STATUS = 0x070"
definition VIRTIO_MMIO_QUEUE_DESC_LOW :: nat where "VIRTIO_MMIO_QUEUE_DESC_LOW = 0x080"
definition VIRTIO_MMIO_QUEUE_DESC_HIGH :: nat where "VIRTIO_MMIO_QUEUE_DESC_HIGH = 0x084"
definition VIRTIO_MMIO_QUEUE_AVAIL_LOW :: nat where "VIRTIO_MMIO_QUEUE_AVAIL_LOW = 0x090"
definition VIRTIO_MMIO_QUEUE_AVAIL_HIGH :: nat where "VIRTIO_MMIO_QUEUE_AVAIL_HIGH = 0x094"
definition VIRTIO_MMIO_QUEUE_USED_LOW :: nat where "VIRTIO_MMIO_QUEUE_USED_LOW = 0x0a0"
definition VIRTIO_MMIO_QUEUE_USED_HIGH :: nat where "VIRTIO_MMIO_QUEUE_USED_HIGH = 0x0a4"
definition VIRTIO_MMIO_CONFIG_GENERATION :: nat where "VIRTIO_MMIO_CONFIG_GENERATION = 0x0fc"
definition VIRTIO_MMIO_CONFIG :: nat where "VIRTIO_MMIO_CONFIG = 0x100"

lemmas mmio_offs = VIRTIO_MMIO_MAGIC_VALUE_def VIRTIO_MMIO_VERSION_def VIRTIO_MMIO_DEVICE_ID_def 
  VIRTIO_MMIO_VENDOR_ID_def VIRTIO_MMIO_DEVICE_FEATURES_def VIRTIO_MMIO_DEVICE_FEATURES_SEL_def 
  VIRTIO_MMIO_DRIVER_FEATURES_def VIRTIO_MMIO_DRIVER_FEATURES_SEL_def VIRTIO_MMIO_QUEUE_SEL_def 
  VIRTIO_MMIO_QUEUE_NUM_MAX_def VIRTIO_MMIO_QUEUE_NUM_def VIRTIO_MMIO_QUEUE_READY_def 
  VIRTIO_MMIO_QUEUE_NOTIFY_def VIRTIO_MMIO_INTERRUPT_STATUS_def VIRTIO_MMIO_INTERRUPT_ACK_def 
  VIRTIO_MMIO_STATUS_def VIRTIO_MMIO_QUEUE_DESC_LOW_def VIRTIO_MMIO_QUEUE_DESC_HIGH_def 
  VIRTIO_MMIO_QUEUE_AVAIL_LOW_def VIRTIO_MMIO_QUEUE_AVAIL_HIGH_def VIRTIO_MMIO_QUEUE_USED_LOW_def 
  VIRTIO_MMIO_QUEUE_USED_HIGH_def VIRTIO_MMIO_CONFIG_GENERATION_def VIRTIO_MMIO_CONFIG_def

definition VIRT_MAGIC :: u32 where "VIRT_MAGIC = 0x74726976"
definition VIRT_VERSION :: u32 where "VIRT_VERSION = 2"
definition VIRT_VENDOR :: u32 where "VIRT_VENDOR = 0x554D4551"

definition virtio_mmio_soft_reset :: "vnic \<Rightarrow> vnic" where
  "virtio_mmio_soft_reset v =
     upd_mmio (\<lambda>m. m\<lparr>mm_vqs := map (\<lambda>q. q\<lparr>mq_enabled := False\<rparr>) (take VNIC_QUEUE_MAX (mm_vqs m)) @ drop VNIC_QUEUE_MAX (mm_vqs m)\<rparr>) v"

definition join64 :: "u32 \<times> u32 \<Rightarrow> u64" where
  "join64 w = push_bit 32 (ucast (snd w)) OR ucast (fst w)"

text \<open>Access to the proxy's copy of the selected queue.\<close>

definition get_mq :: "vnic \<Rightarrow> mmio_queue res" where
  "get_mq v = (let i = queue_sel (vn_vdev v) in
     if i < length (mm_vqs (mmio_conf v)) then Inr (mm_vqs (mmio_conf v) ! i) else Inl Out_of_bounds)"

definition set_mq :: "(mmio_queue \<Rightarrow> mmio_queue) \<Rightarrow> vnic \<Rightarrow> vnic res" where
  "set_mq f v = bind_res (get_mq v) (\<lambda>q.
     Inr (upd_mmio (\<lambda>m. m\<lparr>mm_vqs := (mm_vqs m)[queue_sel (vn_vdev v) := f q]\<rparr>) v))"

definition mmio_queue_ready :: "((nat \<Rightarrow> nat) \<Rightarrow> nat \<Rightarrow> nat \<Rightarrow> (nat \<Rightarrow> nat) option) \<Rightarrow> u32 \<Rightarrow> vnic \<Rightarrow> vnic res" where
  "mmio_queue_ready add_mapping val v =
     (if val \<noteq> 0 then
        bind_res (get_mq v) (\<lambda>mq.
        bind_res (virtio_queue_set_num (queue_sel (vn_vdev v)) (int (mq_num mq)) v) (\<lambda>v1.
        bind_res (virtio_queue_set_rings add_mapping (queue_sel (vn_vdev v)) (join64 (mq_desc mq)) (join64 (mq_avail mq))
          (join64 (mq_used mq)) v1) (\<lambda>v2.
        set_mq (\<lambda>q. q\<lparr>mq_enabled := True\<rparr>) v2)))
      else set_mq (\<lambda>q. q\<lparr>mq_enabled := False\<rparr>) v)"

definition mmio_status :: "u32 \<Rightarrow> vnic \<Rightarrow> vnic res" where
  "mmio_status val v =
     bind_res (if ucast val AND VIRTIO_CONFIG_S_FEATURES_OK \<noteq> 0
               then bind_res (virtio_set_features (join64 (mm_guest_features (mmio_conf v))) v) (\<lambda>(r, v'). Inr v')
               else Inr v) (\<lambda>v1.
     let v2 = snd (virtio_set_status (ucast val) v1) in
     if vd_status (vn_vdev v2) = 0
     then bind_res (virtio_reset v2) (\<lambda>v3. Inr (virtio_mmio_soft_reset v3))
     else Inr v2)"

text \<open>Writes to read-only, legacy and unknown registers are logged and ignored.\<close>

definition vnic_handle_mmio_write ::
    "((nat \<Rightarrow> nat) \<Rightarrow> nat \<Rightarrow> nat \<Rightarrow> (nat \<Rightarrow> nat) option) \<Rightarrow> nat \<Rightarrow> u32 \<Rightarrow> nat \<Rightarrow> vnic \<Rightarrow> vnic res" where
  "vnic_handle_mmio_write add_mapping offset val sz v =
     (if offset \<ge> VIRTIO_MMIO_CONFIG then virtio_config_write (offset - VIRTIO_MMIO_CONFIG) val sz v
      else if sz \<noteq> 4 then Inr v
      else if offset = VIRTIO_MMIO_DEVICE_FEATURES_SEL then
        Inr (upd_mmio (\<lambda>m. m\<lparr>host_features_sel := if val \<noteq> 0 then 1 else 0\<rparr>) v)
      else if offset = VIRTIO_MMIO_DRIVER_FEATURES then
        Inr (upd_mmio (\<lambda>m. m\<lparr>mm_guest_features :=
          if guest_features_sel m = 0 then (val, snd (mm_guest_features m)) else (fst (mm_guest_features m), val)\<rparr>) v)
      else if offset = VIRTIO_MMIO_DRIVER_FEATURES_SEL then
        Inr (upd_mmio (\<lambda>m. m\<lparr>guest_features_sel := if val \<noteq> 0 then 1 else 0\<rparr>) v)
      else if offset = VIRTIO_MMIO_QUEUE_SEL then
        (if unat val < VNIC_QUEUE_MAX then Inr (upd_vdev (\<lambda>d. d\<lparr>queue_sel := unat val\<rparr>) v) else Inr v)
      else if offset = VIRTIO_MMIO_QUEUE_NUM then
        bind_res (virtio_queue_set_num (queue_sel (vn_vdev v)) (sint val) v) (\<lambda>v1.
          set_mq (\<lambda>q. q\<lparr>mq_num := unat val mod 2 ^ 16\<rparr>) v1)
      else if offset = VIRTIO_MMIO_QUEUE_READY then mmio_queue_ready add_mapping val v
      else if offset = VIRTIO_MMIO_QUEUE_NOTIFY then
        (if unat val < VNIC_QUEUE_MAX then virtio_queue_notify (unat val) v else Inr v)
      else if offset = VIRTIO_MMIO_INTERRUPT_ACK then
        Inr (virtio_update_irq (upd_vdev (\<lambda>d. d\<lparr>vd_isr := vd_isr d AND NOT (ucast val)\<rparr>) v))
      else if offset = VIRTIO_MMIO_STATUS then mmio_status val v
      else if offset = VIRTIO_MMIO_QUEUE_DESC_LOW then set_mq (\<lambda>q. q\<lparr>mq_desc := (val, snd (mq_desc q))\<rparr>) v
      else if offset = VIRTIO_MMIO_QUEUE_DESC_HIGH then set_mq (\<lambda>q. q\<lparr>mq_desc := (fst (mq_desc q), val)\<rparr>) v
      else if offset = VIRTIO_MMIO_QUEUE_AVAIL_LOW then set_mq (\<lambda>q. q\<lparr>mq_avail := (val, snd (mq_avail q))\<rparr>) v
      else if offset = VIRTIO_MMIO_QUEUE_AVAIL_HIGH then set_mq (\<lambda>q. q\<lparr>mq_avail := (fst (mq_avail q), val)\<rparr>) v
      else if offset = VIRTIO_MMIO_QUEUE_USED_LOW then set_mq (\<lambda>q. q\<lparr>mq_used := (val, snd (mq_used q))\<rparr>) v
      else if offset = VIRTIO_MMIO_QUEUE_USED_HIGH then set_mq (\<lambda>q. q\<lparr>mq_used := (fst (mq_used q), val)\<rparr>) v
      else Inr v)"

definition vnic_handle_mmio_read :: "nat \<Rightarrow> nat \<Rightarrow> vnic \<Rightarrow> (u32 \<times> vnic) res" where
  "vnic_handle_mmio_read offset sz v =
     (let d = vn_vdev v in
      if offset \<ge> VIRTIO_MMIO_CONFIG then virtio_config_read (offset - VIRTIO_MMIO_CONFIG) sz v
      else if sz \<noteq> 4 then Inr (0, v)
      else if offset = VIRTIO_MMIO_MAGIC_VALUE then Inr (VIRT_MAGIC, v)
      else if offset = VIRTIO_MMIO_VERSION then Inr (VIRT_VERSION, v)
      else if offset = VIRTIO_MMIO_DEVICE_ID then Inr (ucast (device_id d), v)
      else if offset = VIRTIO_MMIO_VENDOR_ID then Inr (VIRT_VENDOR, v)
      else if offset = VIRTIO_MMIO_DEVICE_FEATURES then
        Inr (ucast (drop_bit (32 * host_features_sel (mmio_conf v)) (host_features d)), v)
      else if offset = VIRTIO_MMIO_QUEUE_NUM_MAX then
        bind_res (virtio_queue_get_num (queue_sel d) v) (\<lambda>n. Inr (if n = 0 then 0 else of_nat VNIC_VQ_MAX_SIZE, v))
      else if offset = VIRTIO_MMIO_QUEUE_READY then
        bind_res (get_mq v) (\<lambda>mq. Inr (if mq_enabled mq then 1 else 0, v))
      else if offset = VIRTIO_MMIO_INTERRUPT_STATUS then Inr (ucast (vd_isr d), v)
      else if offset = VIRTIO_MMIO_STATUS then Inr (ucast (vd_status d), v)
      else if offset = VIRTIO_MMIO_CONFIG_GENERATION then Inr (generation d, v)
      else Inr (0, v))"

text \<open>
  The trap handler. It answers whether the access itself may go ahead; a write never does. The value
  read is cut to the width of the access and extended with the sign if the instruction asks for it.
\<close>

datatype emu_state = EMU_STATE_WRITE | EMU_STATE_READ_BEFORE | EMU_STATE_READ_AFTER

definition sign_extend :: "nat \<Rightarrow> u32 \<Rightarrow> u32" where
  "sign_extend sz w =
     (if sz = 1 then (if w AND 0x80 \<noteq> 0 then w OR 0xFFFFFF00 else w)
      else if sz = 2 then (if w AND 0x8000 \<noteq> 0 then w OR 0xFFFF0000 else w) else w)"

definition vnic_emu_check ::
    "((nat \<Rightarrow> nat) \<Rightarrow> nat \<Rightarrow> nat \<Rightarrow> (nat \<Rightarrow> nat) option) \<Rightarrow> nat \<Rightarrow> nat \<Rightarrow> emu_state \<Rightarrow> u32 \<Rightarrow> nat \<Rightarrow> bool \<Rightarrow> vnic \<Rightarrow>
      (bool \<times> u32 \<times> vnic) res" where
  "vnic_emu_check add_mapping base addr state val sz signed_read v =
     (case state of
        EMU_STATE_WRITE \<Rightarrow>
          bind_res (vnic_handle_mmio_write add_mapping (sub32 addr base) val sz v) (\<lambda>v'. Inr (False, val, v'))
      | EMU_STATE_READ_BEFORE \<Rightarrow> Inr (True, val, v)
      | EMU_STATE_READ_AFTER \<Rightarrow>
          if sz \<notin> {1, 2, 4} then Inl Panic
          else bind_res (vnic_handle_mmio_read (sub32 addr base) sz v) (\<lambda>(r, v').
            let read_val = (if sz = 1 then r AND 0xFF else if sz = 2 then r AND 0xFFFF else r) in
            Inr (True, if signed_read then sign_extend sz read_val else read_val, v')))"

section \<open>The invariant of the device\<close>

text \<open>
  \<open>guarded r Q\<close>: the computation stops at a deliberate check, a panic or an assertion, or returns a
  value with property \<open>Q\<close>; it has no memory fault.
\<close>

definition guarded :: "'a res \<Rightarrow> ('a \<Rightarrow> bool) \<Rightarrow> bool" where
  "guarded r Q = (case r of Inl e \<Rightarrow> e = Panic \<or> e = Assert_failed | Inr x \<Rightarrow> Q x)"

lemma guarded_simps [simp]: "guarded (Inr x) Q = Q x" "guarded (Inl e) Q = (e = Panic \<or> e = Assert_failed)"
  by (simp_all add: guarded_def)

lemma guarded_bind: "guarded r Q \<Longrightarrow> (\<And>x. Q x \<Longrightarrow> guarded (f x) R) \<Longrightarrow> guarded (bind_res r f) R"
  by (cases r) auto

definition vq_inv :: "vqueue \<Rightarrow> bool" where
  "vq_inv q \<longleftrightarrow> 1 \<le> vq_num q \<and> vq_num q \<le> VNIC_VQ_MAX_SIZE \<and> vr_num_default (vq_vring q) = VNIC_VQ_MAX_SIZE \<and>
     0 < vring_align q \<and> notify_cb q = Some Vnic_vq_notify_cb \<and> kick_cb q = Some Vnic_vq_kick_cb \<and>
     (vring_addr q = 0 \<longrightarrow> vring_off q) \<and>
     (vring_addr q \<noteq> 0 \<longrightarrow> vq_desc q \<noteq> 0 \<and> vq_avail q \<noteq> 0 \<and> vq_used q \<noteq> 0)"

definition vnic_inv :: "vnic \<Rightarrow> bool" where
  "vnic_inv v \<longleftrightarrow> length (vd_vq (vn_vdev v)) = VNIC_QUEUE_MAX \<and> list_all vq_inv (vd_vq (vn_vdev v)) \<and>
     length (mm_vqs (mmio_conf v)) = VNIC_QUEUE_MAX \<and> queue_sel (vn_vdev v) < VNIC_QUEUE_MAX \<and>
     host_features_sel (mmio_conf v) \<le> 1 \<and> guest_features_sel (mmio_conf v) \<le> 1 \<and>
     guest_features (vn_vdev v) AND NOT (host_features (vn_vdev v)) = 0 \<and>
     config_len (vn_vdev v) = 12 \<and> config_size (vn_vnet v) = 12 \<and> length (vd_config (vn_vdev v)) = 12 \<and>
     length (vn_mac (vn_vnet v)) = 6"

text \<open>What the normal world cannot change: the features offered, the identity of the card, its settings.\<close>

definition identity :: "vnic \<Rightarrow> u64 \<times> u16 \<times> ether_addr \<times> u16 \<times> u16 \<times> nat \<times> nat" where
  "identity v = (host_features (vn_vdev v), device_id (vn_vdev v), vn_mac (vn_vnet v), vn_status (vn_vnet v), vn_mtu (vn_vnet v),
     tx_burst (vn_vnet v), rx_burst (vn_vnet v))"

definition keeps :: "vnic \<Rightarrow> vnic res \<Rightarrow> bool" where
  "keeps v r = guarded r (\<lambda>v'. vnic_inv v' \<and> identity v' = identity v)"

lemmas virtio_step_defs = upd_vdev_def upd_mmio_def virtio_notify_vector_def vnic_kick_nw_def virtio_set_isr_def
  virtio_update_irq_def virtio_notify_def virtio_net_set_status_def virtio_net_reset_def virtio_set_started_def
  virtio_net_set_features_def virtio_mmio_soft_reset_def

lemma get_vq_inv:
  assumes "vnic_inv v" "n < VNIC_QUEUE_MAX"
  obtains q where "get_vq n v = Inr q" "vq_inv q" "vd_vq (vn_vdev v) ! n = q"
  using assms that by (auto simp: vnic_inv_def get_vq_def list_all_length)

lemma list_all_update: "list_all P xs \<Longrightarrow> P q \<Longrightarrow> list_all P (xs[n := q])"
  by (cases "n < length xs") (auto simp: list_all_length nth_list_update)

lemma set_vq_inv:
  assumes "vnic_inv v" "vq_inv q"
  shows "vnic_inv (set_vq n q v)" "identity (set_vq n q v) = identity v"
  using assms by (simp_all add: vnic_inv_def set_vq_def upd_vdev_def identity_def list_all_update)

lemma set_mq_keeps:
  assumes "vnic_inv v"
  shows "keeps v (set_mq f v)"
  using assms by (simp add: keeps_def set_mq_def get_mq_def vnic_inv_def upd_mmio_def identity_def)

lemma keeps_bind:
  assumes "keeps v r" "\<And>v'. vnic_inv v' \<Longrightarrow> identity v' = identity v \<Longrightarrow> keeps v' (f v')"
  shows "keeps v (bind_res r f)"
  using assms unfolding keeps_def by (auto elim!: guarded_bind)

lemma set_num_keeps:
  assumes "vnic_inv v" "n < VNIC_QUEUE_MAX"
  shows "keeps v (virtio_queue_set_num n num v)"
proof -
  from get_vq_inv [OF assms] obtain q where q: "get_vq n v = Inr q" "vq_inv q" by blast
  show ?thesis
  proof (cases "(num \<noteq> 0) \<noteq> (vq_num q \<noteq> 0) \<or> num > int VNIC_VQ_MAX_SIZE \<or> num < 0")
    case True
    then show ?thesis using q assms by (simp add: virtio_queue_set_num_def keeps_def)
  next
    case False
    let ?q = "q\<lparr>vq_vring := (vq_vring q)\<lparr>vr_num := nat num\<rparr>\<rparr>"
    have "vq_inv ?q" using q(2) False by (auto simp: vq_inv_def vring_off_def)
    with False show ?thesis using q set_vq_inv [OF assms(1)] by (auto simp: virtio_queue_set_num_def keeps_def)
  qed
qed

lemma setup_vq_inv:
  assumes "vq_inv q"
  shows "guarded (vqueue_vring_setup am va q d a u) (\<lambda>(r, q', va'). vq_inv q')"
proof -
  have "0 < roundup2 a m" if "0 < m" "0 < a" for a m
    using roundup2_ge [of m a] that by linarith
  then show ?thesis
    using assms by (auto simp: vqueue_vring_setup_def vq_inv_def vring_off_def Let_def)
qed

lemma set_rings_keeps:
  assumes "vnic_inv v" "n < VNIC_QUEUE_MAX"
  shows "keeps v (virtio_queue_set_rings am n d a u v)"
proof -
  from get_vq_inv [OF assms] obtain q where q: "get_vq n v = Inr q" "vq_inv q" by blast
  have va: "vnic_inv (w\<lparr>vn_va := f\<rparr>) = vnic_inv w" "identity (w\<lparr>vn_va := f\<rparr>) = identity w" for w f
    by (simp_all add: vnic_inv_def identity_def)
  have "guarded (bind_res (vqueue_vring_setup am (vn_va v) q (unat d mod 2 ^ 32) (unat a mod 2 ^ 32) (unat u mod 2 ^ 32))
       (\<lambda>(r, q', va'). Inr ((set_vq n q' v)\<lparr>vn_va := va'\<rparr>))) (\<lambda>v'. vnic_inv v' \<and> identity v' = identity v)"
    by (rule guarded_bind [OF setup_vq_inv [OF q(2)]]) (use set_vq_inv [OF assms(1)] va in auto)
  then show ?thesis using q assms(1) by (simp add: virtio_queue_set_rings_def keeps_def)
qed

lemma queue_ready_keeps:
  assumes "vnic_inv v"
  shows "keeps v (mmio_queue_ready am val v)"
proof -
  have sel: "queue_sel (vn_vdev v) < VNIC_QUEUE_MAX" using assms by (simp add: vnic_inv_def)
  obtain mq where mq: "get_mq v = Inr mq" using assms by (simp add: get_mq_def vnic_inv_def)
  show ?thesis
    unfolding mmio_queue_ready_def mq using assms sel
    by (auto intro!: keeps_bind set_num_keeps set_rings_keeps set_mq_keeps)
qed

lemma notify_keeps:
  assumes "vnic_inv v" "n < VNIC_QUEUE_MAX"
  shows "keeps v (virtio_queue_notify n v)"
proof -
  from get_vq_inv [OF assms] obtain q where q: "get_vq n v = Inr q" "vq_inv q" by blast
  have "vnic_inv (v\<lparr>vn_nw := s, vn_napi := m\<rparr>) = vnic_inv v" "identity (v\<lparr>vn_nw := s, vn_napi := m\<rparr>) = identity v" for s m
    by (simp_all add: vnic_inv_def identity_def)
  then show ?thesis
    using q assms
    by (auto simp: virtio_queue_notify_def vqueue_notify_def run_cb_def vnic_vq_notify_cb_def vqueue_napi_signal_avail_def
        used_flags_update_def deref_def keeps_def vq_inv_def Let_def)
qed

lemma reset_queues_inv:
  assumes "list_all vq_inv qs"
  shows "\<exists>qs'. reset_queues qs = Inr qs' \<and> list_all vq_inv qs' \<and> length qs' = length qs"
  using assms
proof (induction qs)
  case (Cons q qs)
  then obtain qs' where IH: "reset_queues qs = Inr qs'" "list_all vq_inv qs'" "length qs' = length qs" by auto
  have q: "vq_inv q" using Cons.prems by simp
  then obtain q' where "vqueue_vring_teardown q = Inr q'"
    "vq_inv (q'\<lparr>vq_vring := (vq_vring q')\<lparr>vr_num := vr_num_default (vq_vring q')\<rparr>\<rparr>)"
    by (auto simp: vqueue_vring_teardown_def vq_inv_def vring_off_def Let_def VNIC_VQ_MAX_SIZE_def)
  with IH show ?case by auto
qed simp

lemma reset_keeps:
  assumes "vnic_inv v"
  shows "keeps v (virtio_reset v)"
proof -
  have len: "length (vd_vq (vn_vdev v)) = 2" using assms by (simp add: vnic_inv_def VNIC_QUEUE_MAX_def)
  have "list_all vq_inv (vd_vq (vn_vdev v))" using assms by (simp add: vnic_inv_def)
  from reset_queues_inv [OF this] obtain qs where
    qs: "reset_queues (vd_vq (vn_vdev v)) = Inr qs" "list_all vq_inv qs" "length qs = 2" using len by auto
  then show ?thesis
    using assms len
    by (auto simp: virtio_reset_def virtio_set_status_def virtio_step_defs Let_def keeps_def vnic_inv_def identity_def
        VNIC_QUEUE_MAX_def virtio_net_started_def)
qed

lemma set_features_keeps:
  assumes "vnic_inv v"
  shows "guarded (virtio_set_features w v) (\<lambda>(r, v'). vnic_inv v' \<and> identity v' = identity v)"
proof -
  have "(w AND h) AND NOT h = 0" for h :: u64
    by (simp add: and.assoc)
  then show ?thesis
    using assms by (simp add: virtio_set_features_def virtio_set_features_nocheck_def virtio_step_defs Let_def vnic_inv_def identity_def)
qed

lemma status_keeps:
  assumes "vnic_inv v"
  shows "keeps v (mmio_status val v)"
proof -
  let ?f = "if ucast val AND VIRTIO_CONFIG_S_FEATURES_OK \<noteq> 0
       then bind_res (virtio_set_features (join64 (mm_guest_features (mmio_conf v))) v) (\<lambda>(r, v'). Inr v') else Inr v"
  have "guarded (bind_res (virtio_set_features (join64 (mm_guest_features (mmio_conf v))) v) (\<lambda>(r, v'). Inr v'))
      (\<lambda>v'. vnic_inv v' \<and> identity v' = identity v)"
    by (rule guarded_bind [OF set_features_keeps [OF assms]]) auto
  then have feat: "keeps v ?f" using assms by (simp add: keeps_def)
  have st: "vnic_inv (snd (virtio_set_status w u)) \<and> identity (snd (virtio_set_status w u)) = identity u" if "vnic_inv u" for u w
    using that by (simp add: virtio_set_status_def virtio_validate_features_def virtio_step_defs Let_def vnic_inv_def identity_def)
  have soft: "vnic_inv (virtio_mmio_soft_reset u) \<and> identity (virtio_mmio_soft_reset u) = identity u" if "vnic_inv u" for u
    using that by (simp add: virtio_step_defs vnic_inv_def identity_def)
  have rst: "keeps u (bind_res (virtio_reset u) (\<lambda>v3. Inr (virtio_mmio_soft_reset v3)))" if "vnic_inv u" for u
    by (rule keeps_bind [OF reset_keeps [OF that]]) (use soft in \<open>simp add: keeps_def\<close>)
  show ?thesis
    unfolding mmio_status_def
  proof (rule keeps_bind [OF feat])
    fix u assume u: "vnic_inv u"
    let ?w = "snd (virtio_set_status (ucast val) u)"
    from st [OF u] rst [of ?w] show "keeps u (let v2 = ?w in if vd_status (vn_vdev v2) = 0
        then bind_res (virtio_reset v2) (\<lambda>v3. Inr (virtio_mmio_soft_reset v3)) else Inr v2)"
      by (auto simp: keeps_def Let_def)
  qed
qed

lemma config_write_keeps:
  assumes "vnic_inv v" "off + sz < 2 ^ 32"
  shows "keeps v (virtio_config_write off val sz v)"
  using assms
  by (auto simp: virtio_config_write_def keeps_def vnic_inv_def virtio_net_set_config_def upd_vdev_def identity_def add32_def)

lemma get_config_inv:
  assumes "vnic_inv v"
  shows "virtio_net_get_config v = Inr (upd_vdev (\<lambda>d. d\<lparr>vd_config := virtio_net_config (vn_vnet v)\<rparr>) v)"
    "length (virtio_net_config (vn_vnet v)) = 12"
proof -
  show len: "length (virtio_net_config (vn_vnet v)) = 12" using assms by (simp add: virtio_net_config_def vnic_inv_def)
  have "blit c 0 w = w" if "length c = 12" "length w = 12" for c w :: "byte list" using that by (simp add: blit_def)
  with len show "virtio_net_get_config v = Inr (upd_vdev (\<lambda>d. d\<lparr>vd_config := virtio_net_config (vn_vnet v)\<rparr>) v)"
    using assms by (simp add: virtio_net_get_config_def vnic_inv_def upd_vdev_def)
qed

lemma config_read_eq:
  assumes "vnic_inv v" "off + sz \<le> 12" "sz \<in> {1, 2, 4}"
  shows "virtio_config_read off sz v = Inr (of_nat (le_val (slice (virtio_net_config (vn_vnet v)) off sz)),
    upd_vdev (\<lambda>d. d\<lparr>vd_config := virtio_net_config (vn_vnet v)\<rparr>) v)"
proof -
  have "add32 off sz = off + sz" "config_len (vn_vdev v) = 12" using assms by (simp_all add: add32_def vnic_inv_def)
  then show ?thesis
    using assms(2,3) get_config_inv [OF assms(1)] by (auto simp: virtio_config_read_def upd_vdev_def)
qed

lemma config_read_keeps:
  assumes "vnic_inv v" "off + sz < 2 ^ 32"
  shows "guarded (virtio_config_read off sz v) (\<lambda>(r, v'). vnic_inv v' \<and> identity v' = identity v)"
proof (cases "off + sz \<le> 12 \<and> sz \<in> {1, 2, 4}")
  case True
  then show ?thesis
    using config_read_eq [of v off sz] assms get_config_inv(2) [OF assms(1)]
    by (auto simp: upd_vdev_def vnic_inv_def identity_def)
next
  case False
  then show ?thesis
    using assms get_config_inv(1) [OF assms(1)] by (auto simp: virtio_config_read_def add32_def vnic_inv_def)
qed

lemma mmio_write_keeps:
  assumes "vnic_inv v" "off + sz < 2 ^ 32"
  shows "keeps v (vnic_handle_mmio_write am off val sz v)"
proof -
  have sel: "queue_sel (vn_vdev v) < VNIC_QUEUE_MAX" using assms by (simp add: vnic_inv_def)
  have num: "keeps v (bind_res (virtio_queue_set_num (queue_sel (vn_vdev v)) (sint val) v) (\<lambda>v1.
      set_mq (\<lambda>q. q\<lparr>mq_num := unat val mod 2 ^ 16\<rparr>) v1))"
    by (rule keeps_bind [OF set_num_keeps [OF assms(1) sel]]) (rule set_mq_keeps)
  have simple: "keeps v (Inr (upd_mmio f v))" if "\<And>m. mm_vqs (f m) = mm_vqs m"
    "\<And>m. host_features_sel m \<le> 1 \<Longrightarrow> host_features_sel (f m) \<le> 1"
    "\<And>m. guest_features_sel m \<le> 1 \<Longrightarrow> guest_features_sel (f m) \<le> 1" for f
    using assms(1) that by (simp add: keeps_def vnic_inv_def upd_mmio_def identity_def)
  have ack: "keeps v (Inr (virtio_update_irq (upd_vdev (\<lambda>d. d\<lparr>vd_isr := vd_isr d AND w\<rparr>) v)))"
    and qsel: "k < VNIC_QUEUE_MAX \<Longrightarrow> keeps v (Inr (upd_vdev (\<lambda>d. d\<lparr>queue_sel := k\<rparr>) v))"
    and same: "keeps v (Inr v)" for w k
    using assms(1) by (simp_all add: keeps_def vnic_inv_def virtio_step_defs identity_def)
  show ?thesis
    unfolding vnic_handle_mmio_write_def
    using assms sel num simple ack qsel same set_mq_keeps [OF assms(1)] queue_ready_keeps [OF assms(1)]
      status_keeps [OF assms(1)] notify_keeps [OF assms(1)] config_write_keeps [OF assms(1)]
    by (simp split del: if_split) (auto intro!: simple)
qed

lemma mmio_read_keeps:
  assumes "vnic_inv v" "off + sz < 2 ^ 32"
  shows "guarded (vnic_handle_mmio_read off sz v) (\<lambda>(r, v'). vnic_inv v' \<and> identity v' = identity v)"
proof -
  have "queue_sel (vn_vdev v) < VNIC_QUEUE_MAX" using assms by (simp add: vnic_inv_def)
  from get_vq_inv [OF assms(1) this] obtain q where q: "get_vq (queue_sel (vn_vdev v)) v = Inr q" by blast
  obtain mq where mq: "get_mq v = Inr mq" using assms(1) by (simp add: get_mq_def vnic_inv_def)
  have cfg: "guarded (virtio_config_read (off - VIRTIO_MMIO_CONFIG) sz v) (\<lambda>(r, v'). vnic_inv v' \<and> identity v' = identity v)"
    using assms by (intro config_read_keeps) auto
  then show ?thesis
    using assms(1) q mq by (simp add: vnic_handle_mmio_read_def Let_def virtio_queue_get_num_def)
qed

lemma emu_check_keeps:
  assumes "vnic_inv v" "base \<le> addr" "addr + sz < 2 ^ 32"
  shows "guarded (vnic_emu_check am base addr state val sz sg v) (\<lambda>(ok, r, v'). vnic_inv v' \<and> identity v' = identity v)"
proof -
  have off: "sub32 addr base + sz < 2 ^ 32" using sub32_eq [of base addr] assms(2,3) by simp
  have w: "guarded (bind_res (vnic_handle_mmio_write am (sub32 addr base) val sz v) (\<lambda>v'. Inr (False, val, v')))
      (\<lambda>(ok, r, v'). vnic_inv v' \<and> identity v' = identity v)"
    using mmio_write_keeps [OF assms(1) off, unfolded keeps_def] by (rule guarded_bind) simp
  have r: "guarded (bind_res (vnic_handle_mmio_read (sub32 addr base) sz v) (\<lambda>(r, v').
        let read_val = (if sz = 1 then r AND 0xFF else if sz = 2 then r AND 0xFFFF else r) in
        Inr (True, if sg then sign_extend sz read_val else read_val, v')))
      (\<lambda>(ok, r, v'). vnic_inv v' \<and> identity v' = identity v)"
    using mmio_read_keeps [OF assms(1) off] by (rule guarded_bind) (auto simp: Let_def)
  show ?thesis using w r assms(1) by (cases state) (simp_all add: vnic_emu_check_def)
qed

section \<open>Sequences of trapped accesses\<close>

text \<open>An access of the normal world: kind, address, value written, width, and whether a load extends the sign.\<close>

type_synonym access = "emu_state \<times> nat \<times> u32 \<times> nat \<times> bool"

fun emu_run :: "((nat \<Rightarrow> nat) \<Rightarrow> nat \<Rightarrow> nat \<Rightarrow> (nat \<Rightarrow> nat) option) \<Rightarrow> nat \<Rightarrow> access list \<Rightarrow> vnic \<Rightarrow> (u32 list \<times> vnic) res" where
  "emu_run am base [] v = Inr ([], v)"
| "emu_run am base ((state, addr, val, sz, sg) # as) v =
     bind_res (vnic_emu_check am base addr state val sz sg v) (\<lambda>(ok, r, v').
     bind_res (emu_run am base as v') (\<lambda>(rs, v''). Inr (r # rs, v'')))"

definition in_region :: "nat \<Rightarrow> access \<Rightarrow> bool" where
  "in_region base a = (case a of (state, addr, val, sz, sg) \<Rightarrow> base \<le> addr \<and> addr + sz < 2 ^ 32)"

lemma emu_run_inv:
  assumes "vnic_inv v" "list_all (in_region base) as"
  shows "guarded (emu_run am base as v) (\<lambda>(rs, v'). vnic_inv v' \<and> identity v' = identity v \<and> length rs = length as)"
  using assms
proof (induction as arbitrary: v)
  case (Cons a as)
  obtain state addr val sz sg where a: "a = (state, addr, val, sz, sg)" by (cases a)
  have one: "guarded (vnic_emu_check am base addr state val sz sg v) (\<lambda>(ok, r, v'). vnic_inv v' \<and> identity v' = identity v)"
    using Cons.prems by (intro emu_check_keeps) (auto simp: a in_region_def)
  show ?case
    unfolding a emu_run.simps
  proof (rule guarded_bind [OF one], clarify)
    fix ok r v' assume v': "vnic_inv v'" "identity v' = identity v"
    have "guarded (emu_run am base as v') (\<lambda>(rs, v''). vnic_inv v'' \<and> identity v'' = identity v' \<and> length rs = length as)"
      using Cons.IH [OF v'(1)] Cons.prems by simp
    then show "guarded (bind_res (emu_run am base as v') (\<lambda>(rs, v''). Inr (r # rs, v'')))
       (\<lambda>(rs, v''). vnic_inv v'' \<and> identity v'' = identity v \<and> length rs = length ((state, addr, val, sz, sg) # as))"
      by (rule guarded_bind) (use v' in auto)
  qed
qed simp

text \<open>
  A zeroed queue, and a card with the settings of the source: both queues with 256 entries and the
  features, address and MTU that the initialisation chooses.
\<close>

definition zero_vqueue :: vqueue where
  "zero_vqueue = \<lparr>vq_id = 0, vq_vring = \<lparr>vr_num = 0, vr_num_default = 0, vr_desc = 0, vr_avail = 0, vr_used = 0\<rparr>,
     vring_addr = 0, vring_sz = 0, vring_align = 0, last_avail_idx = 0, own_event = False, notify_cb = None, kick_cb = None\<rparr>"

definition zero_mmio :: mmio where
  "zero_mmio = \<lparr>host_features_sel = 0, guest_features_sel = 0, mm_guest_features = (0, 0),
     mm_vqs = replicate VNIC_QUEUE_MAX \<lparr>mq_num = 0, mq_enabled = False, mq_desc = (0, 0), mq_avail = (0, 0), mq_used = (0, 0)\<rparr>\<rparr>"

definition TX_BURST :: nat where "TX_BURST = 256"
definition RX_BURST :: nat where "RX_BURST = 256"

definition vnic_vdev_init_feature_bits :: "vdev \<Rightarrow> vdev res" where
  "vnic_vdev_init_feature_bits d =
     bind_res (virtio_add_feature 0 VIRTIO_F_VERSION_1) (\<lambda>f1.
     bind_res (virtio_add_feature f1 VIRTIO_NET_F_MTU) (\<lambda>f2.
     bind_res (virtio_add_feature f2 VIRTIO_NET_F_MAC) (\<lambda>f3.
     bind_res (virtio_add_feature f3 VIRTIO_NET_F_STATUS) (\<lambda>f4.
       Inr (d\<lparr>host_features := f4\<rparr>)))))"

definition vnic_vdev_init :: "vdev \<Rightarrow> vdev" where
  "vnic_vdev_init d = d\<lparr>vd_status := 0, vd_isr := 0, queue_sel := 0, guest_features := 0, generation := 0, device_id := 1,
     use_started := True, vd_started := False\<rparr>"

text \<open>The zeroed net part with its burst sizes, and the address, link status and MTU of the initial configuration.\<close>

definition vnic_vnet_init :: vnet where
  "vnic_vnet_init = \<lparr>vn_mac = replicate 6 0, vn_status = 0, tx_burst = TX_BURST, rx_burst = RX_BURST, vn_mtu = 0,
     config_size = 0, curr_guest_offloads = 0\<rparr>"

definition vnic_init_config :: "vnet \<Rightarrow> vnet" where
  "vnic_init_config n = n\<lparr>vn_mac := [0x00, 0x19, 0xb8, 0x08, 0x40, 0x78], vn_status := VIRTIO_NET_S_LINK_UP, vn_mtu := 1500\<rparr>"

text \<open>
  What \<open>vnic_init\<close> builds before it registers the device; the memory it allocates holds \<open>junk\<close>.
\<close>

definition vnic_build :: "vdev \<Rightarrow> napi \<Rightarrow> (nat \<Rightarrow> nat) \<Rightarrow> nwmach \<Rightarrow> vnic res" where
  "vnic_build junk n va s =
     bind_res (vnic_vdev_init_feature_bits (vnic_vdev_init junk)) (\<lambda>d.
     let net = vnic_init_config (vnic_vnet_init\<lparr>config_size := 12\<rparr>);
         rx_vq = vqueue_init zero_vqueue 0 VNIC_VQ_MAX_SIZE SMALL_PAGE_SIZE (Some Vnic_vq_notify_cb) (Some Vnic_vq_kick_cb);
         tx_vq = vqueue_init zero_vqueue 1 VNIC_VQ_MAX_SIZE SMALL_PAGE_SIZE (Some Vnic_vq_notify_cb) (Some Vnic_vq_kick_cb) in
     Inr \<lparr>mmio_conf = zero_mmio, vn_vdev = d\<lparr>config_len := config_size net, vd_config := virtio_net_config net, vd_vq := [rx_vq, tx_vq]\<rparr>,
       vn_vnet = net, vn_napi = n, kicks = 0, vn_va = va, vn_nw = s, fec_ifp = None\<rparr>)"

definition built :: "vdev \<Rightarrow> napi \<Rightarrow> (nat \<Rightarrow> nat) \<Rightarrow> nwmach \<Rightarrow> vnic" where
  "built junk n va s = (case vnic_build junk n va s of Inr v \<Rightarrow> v)"

lemma vnic_features: "vnic_vdev_init_feature_bits d = Inr (d\<lparr>host_features := 0x100010028\<rparr>)"
  by (simp add: vnic_vdev_init_feature_bits_def virtio_add_feature_def VIRTIO_F_VERSION_1_def VIRTIO_NET_F_MTU_def
      VIRTIO_NET_F_MAC_def VIRTIO_NET_F_STATUS_def push_bit_eq_mult)

lemma vnic_build_vq:
  "vq_inv (vqueue_init zero_vqueue i VNIC_VQ_MAX_SIZE SMALL_PAGE_SIZE (Some Vnic_vq_notify_cb) (Some Vnic_vq_kick_cb))"
  by (simp add: vqueue_init_def vq_inv_def vring_off_def VNIC_VQ_MAX_SIZE_def SMALL_PAGE_SIZE_def)

lemma vnic_build_eq: "vnic_build junk n va s = Inr (built junk n va s)"
  by (simp add: built_def vnic_build_def vnic_features Let_def)

lemma built_inv: "vnic_inv (built junk n va s)"
  using vnic_build_vq
  by (simp add: built_def vnic_build_def vnic_features Let_def vnic_inv_def vnic_vdev_init_def virtio_net_config_def
      vnic_init_config_def vnic_vnet_init_def zero_mmio_def VNIC_QUEUE_MAX_def)

lemma built_sel [simp]:
  "vn_napi (built junk n va s) = n" "vn_va (built junk n va s) = va" "vn_nw (built junk n va s) = s"
  "vd_status (vn_vdev (built junk n va s)) = 0" "host_features (vn_vdev (built junk n va s)) = 0x100010028"
  "identity (built junk n va s) = (0x100010028, 1, [0x00, 0x19, 0xb8, 0x08, 0x40, 0x78], 1, 1500, 256, 256)"
  "vd_vq (vn_vdev (built junk n va s)) = map (\<lambda>i. vqueue_init zero_vqueue i VNIC_VQ_MAX_SIZE SMALL_PAGE_SIZE
     (Some Vnic_vq_notify_cb) (Some Vnic_vq_kick_cb)) [0, 1]"
  by (simp_all add: built_def vnic_build_def vnic_features Let_def vnic_vdev_init_def vnic_init_config_def vnic_vnet_init_def
      identity_def VIRTIO_NET_S_LINK_UP_def TX_BURST_def RX_BURST_def)

text \<open>
  Claim C3. Whatever the normal world stores to and loads from the registers of the card, in any
  order and any number, the trap handler meets no memory fault: it stops at a deliberate panic or
  assertion, or answers every access. The device invariant holds afterwards, and the offered features,
  the MAC address, the link status, the MTU and the burst sizes are unchanged.
\<close>

theorem mmio_accesses_safe:
  assumes "vnic_inv v" and "list_all (in_region base) as"
  shows "guarded (emu_run am base as v) (\<lambda>(rs, v'). vnic_inv v' \<and> identity v' = identity v \<and> length rs = length as)"
  using assms by (rule emu_run_inv)

text \<open>A fresh card, and the store the driver starts with: it resets the device.\<close>

definition quiet_nw :: nwmach where
  "quiet_nw = \<lparr>nwmem = \<lambda>_. 0, nwenv = \<lambda>_ m. m, nwtick = 0\<rparr>"

definition zero_vdev :: vdev where
  "zero_vdev = \<lparr>vd_status = 0, vd_isr = 0, queue_sel = 0, guest_features = 0, host_features = 0, config_len = 0, vd_config = [],
     generation = 0, vd_vq = [], device_id = 0, use_started = False, vd_started = False\<rparr>"

definition demo_vnic :: vnic where
  "demo_vnic = built zero_vdev napi_instance_setup (\<lambda>_. 0) quiet_nw"

definition reg_write :: "nat \<Rightarrow> nat \<Rightarrow> u32 \<Rightarrow> access" where
  "reg_write base off val = (EMU_STATE_WRITE, base + off, val, 4, False)"

definition reg_read :: "nat \<Rightarrow> nat \<Rightarrow> access" where
  "reg_read base off = (EMU_STATE_READ_AFTER, base + off, 0, 4, False)"

theorem mmio_accesses_safe_witness:
  "vnic_inv demo_vnic \<and>
   list_all (in_region 0x4000) [reg_write 0x4000 VIRTIO_MMIO_QUEUE_SEL 7, reg_write 0x4000 VIRTIO_MMIO_QUEUE_NOTIFY 1] \<and>
   guarded (emu_run (\<lambda>va pa n. None) 0x4000 [reg_write 0x4000 VIRTIO_MMIO_QUEUE_SEL 7, reg_write 0x4000 VIRTIO_MMIO_QUEUE_NOTIFY 1] demo_vnic)
     (\<lambda>(rs, v'). vnic_inv v' \<and> identity v' = identity demo_vnic \<and> length rs = 2)"
proof -
  let ?as = "[reg_write 0x4000 VIRTIO_MMIO_QUEUE_SEL 7, reg_write 0x4000 VIRTIO_MMIO_QUEUE_NOTIFY 1]"
  have inv: "vnic_inv demo_vnic" by (simp add: demo_vnic_def built_inv)
  have reg: "list_all (in_region 0x4000) ?as" by (simp add: in_region_def reg_write_def mmio_offs)
  from inv reg mmio_accesses_safe [OF inv reg, of "\<lambda>va pa n. None"] show ?thesis by (simp add: numeral_2_eq_2)
qed

lemma emu_check_simps:
  assumes "base + off < 2 ^ 32"
  shows "vnic_emu_check am base (base + off) EMU_STATE_WRITE val sz sg v =
      bind_res (vnic_handle_mmio_write am off val sz v) (\<lambda>v'. Inr (False, val, v'))"
    "sz \<in> {1, 2, 4} \<Longrightarrow> vnic_emu_check am base (base + off) EMU_STATE_READ_AFTER val sz False v =
      bind_res (vnic_handle_mmio_read off sz v) (\<lambda>(r, v').
        Inr (True, if sz = 1 then r AND 0xFF else if sz = 2 then r AND 0xFFFF else r, v'))"
proof -
  have "sub32 (base + off) base = off" using assms by simp
  then show "vnic_emu_check am base (base + off) EMU_STATE_WRITE val sz sg v =
      bind_res (vnic_handle_mmio_write am off val sz v) (\<lambda>v'. Inr (False, val, v'))"
    "sz \<in> {1, 2, 4} \<Longrightarrow> vnic_emu_check am base (base + off) EMU_STATE_READ_AFTER val sz False v =
      bind_res (vnic_handle_mmio_read off sz v) (\<lambda>(r, v').
        Inr (True, if sz = 1 then r AND 0xFF else if sz = 2 then r AND 0xFFFF else r, v'))"
    by (auto simp: vnic_emu_check_def Let_def)
qed

lemma mask_of_nat:
  fixes m :: nat
  assumes "m < 256 ^ sz" "sz \<in> {1, 2, 4}"
  shows "(if sz = 1 then (of_nat m :: u32) AND 0xFF else if sz = 2 then of_nat m AND 0xFFFF else of_nat m) = of_nat m"
proof -
  have "(of_nat m :: u32) AND mask k = of_nat m" if "m < 2 ^ k" for k
    using that by (simp flip: take_bit_eq_mask add: take_bit_of_nat take_bit_nat_eq_self)
  from this [of 8] this [of 16] show ?thesis using assms by (auto simp: mask_numeral)
qed

text \<open>
  Claim C16. The configuration the normal world reads is the card's own: after any accesses, stores to
  the configuration space included, a load of 1, 2 or 4 bytes inside it returns the bytes of the MAC
  address, link status, number of queue pairs and MTU that the card had at the start.
\<close>

theorem config_space_read_only:
  assumes "vnic_inv v" and "list_all (in_region base) as" and "emu_run am base as v = Inr (rs, v')"
    and "off + sz \<le> 12" and "sz \<in> {1, 2, 4}" and "base + VIRTIO_MMIO_CONFIG + 12 < 2 ^ 32"
  shows "\<exists>v''. vnic_emu_check am base (base + (VIRTIO_MMIO_CONFIG + off)) EMU_STATE_READ_AFTER val sz False v' =
    Inr (True, of_nat (le_val (slice (virtio_net_config (vn_vnet v)) off sz)), v'')"
proof -
  have v': "vnic_inv v'" "identity v' = identity v"
    using emu_run_inv [OF assms(1,2), of am] assms(3) by simp_all
  then have net: "virtio_net_config (vn_vnet v') = virtio_net_config (vn_vnet v)"
    by (simp add: identity_def virtio_net_config_def)
  have len: "length (slice (virtio_net_config (vn_vnet v)) off sz) = sz"
    using get_config_inv(2) [OF assms(1)] assms(4) by (simp add: slice_def)
  have addr: "base + (VIRTIO_MMIO_CONFIG + off) < 2 ^ 32" using assms(4-6) by linarith
  have rd: "vnic_handle_mmio_read (VIRTIO_MMIO_CONFIG + off) sz v' =
      Inr (of_nat (le_val (slice (virtio_net_config (vn_vnet v)) off sz)),
        upd_vdev (\<lambda>d. d\<lparr>vd_config := virtio_net_config (vn_vnet v)\<rparr>) v')"
    using config_read_eq [OF v'(1) assms(4,5)] by (simp add: vnic_handle_mmio_read_def net)
  show ?thesis
    using emu_check_simps(2) [OF addr assms(5)] rd mask_of_nat [OF le_val_less [of "slice (virtio_net_config (vn_vnet v)) off sz", unfolded len] assms(5)]
    by simp
qed

text \<open>
  Claim C13. Feature negotiation: a driver that stores the two halves of its feature word and then a
  status with \<open>FEATURES_OK\<close> is given exactly the features it asked for that the device offers. The test
  for a modern driver looks at bit 5, the MAC feature, not at the version bit: without that bit the
  secure world panics, and a driver that leaves out the version bit is accepted.
\<close>

theorem feature_negotiation:
  assumes "vnic_inv v" and "vd_status (vn_vdev v) AND VIRTIO_CONFIG_S_FEATURES_OK = 0"
    and "ucast s AND VIRTIO_CONFIG_S_FEATURES_OK \<noteq> (0 :: u8)" and "base + VIRTIO_MMIO_CONFIG < 2 ^ 32"
  shows "let r = emu_run am base [reg_write base VIRTIO_MMIO_DRIVER_FEATURES_SEL 0, reg_write base VIRTIO_MMIO_DRIVER_FEATURES lo,
        reg_write base VIRTIO_MMIO_DRIVER_FEATURES_SEL 1, reg_write base VIRTIO_MMIO_DRIVER_FEATURES hi,
        reg_write base VIRTIO_MMIO_STATUS s] v;
      agreed = join64 (lo, hi) AND host_features (vn_vdev v) in
    if bit agreed VIRTIO_NET_F_MAC
    then \<exists>v'. r = Inr ([0, lo, 1, hi, s], v') \<and> guest_features (vn_vdev v') = agreed \<and> vd_status (vn_vdev v') = ucast s
    else r = Inl Panic"
proof -
  have addr: "base + off < 2 ^ 32" if "off < VIRTIO_MMIO_CONFIG" for off using assms(4) that by linarith
  have b5: "(w AND of_nat VIRTIO_F_VERSION_1 \<noteq> (0 :: u64)) = bit w VIRTIO_NET_F_MAC" for w :: u64
    using bit_iff_and_push_bit_not_eq_0 [of w 5] by (simp add: VIRTIO_F_VERSION_1_def VIRTIO_NET_F_MAC_def push_bit_eq_mult)
  have nz: "(ucast s :: u8) \<noteq> 0" using assms(3) by auto
  show ?thesis
    using assms(2,3) addr nz
    by (simp add: reg_write_def emu_check_simps vnic_handle_mmio_write_def mmio_offs mmio_status_def virtio_set_features_def
        virtio_set_features_nocheck_def b5 virtio_set_status_def virtio_validate_features_def Let_def virtio_step_defs)
qed

text \<open>
  A driver that selects and loads the two halves of the offered features and joins them has
  the feature word of the device.
\<close>

lemma device_features_roundtrip:
  assumes "vnic_inv v" and "base + VIRTIO_MMIO_CONFIG < 2 ^ 32"
  shows "\<exists>lo hi v'. emu_run am base [reg_write base VIRTIO_MMIO_DEVICE_FEATURES_SEL 0, reg_read base VIRTIO_MMIO_DEVICE_FEATURES,
        reg_write base VIRTIO_MMIO_DEVICE_FEATURES_SEL 1, reg_read base VIRTIO_MMIO_DEVICE_FEATURES] v = Inr ([0, lo, 1, hi], v') \<and>
      join64 (lo, hi) = host_features (vn_vdev v)"
proof -
  have addr: "base + off < 2 ^ 32" if "off < VIRTIO_MMIO_CONFIG" for off using assms(2) that by linarith
  have "join64 (ucast w, ucast (drop_bit 32 w)) = w" for w :: u64
    unfolding join64_def by (rule bit_word_eqI) (auto simp: bit_simps)
  then show ?thesis
    using addr
    by (simp add: reg_write_def reg_read_def emu_check_simps vnic_handle_mmio_write_def vnic_handle_mmio_read_def mmio_offs upd_mmio_def Let_def)
qed

text \<open>The three properties on the fresh card.\<close>

lemma demo_vnic_sel [simp]: "vnic_inv demo_vnic" "vd_status (vn_vdev demo_vnic) = 0" "host_features (vn_vdev demo_vnic) = 0x100010028"
  "vn_mac (vn_vnet demo_vnic) = [0x00, 0x19, 0xb8, 0x08, 0x40, 0x78]" "vn_status (vn_vnet demo_vnic) = 1"
  "vn_mtu (vn_vnet demo_vnic) = 1500"
  using built_sel(6) [of zero_vdev napi_instance_setup "\<lambda>_. 0" quiet_nw]
  by (simp_all add: demo_vnic_def built_inv identity_def)

theorem config_space_read_only_witness:
  "\<exists>v' v''. emu_run (\<lambda>va pa n. None) 0x4000 [reg_write 0x4000 (VIRTIO_MMIO_CONFIG + 4) 0xffffffff] demo_vnic = Inr ([0xffffffff], v') \<and>
   vnic_emu_check (\<lambda>va pa n. None) 0x4000 (0x4000 + (VIRTIO_MMIO_CONFIG + 10)) EMU_STATE_READ_AFTER 0 2 False v' = Inr (True, 1500, v'')"
proof -
  let ?as = "[reg_write 0x4000 (VIRTIO_MMIO_CONFIG + 4) 0xffffffff]"
  have cfg: "config_len (vn_vdev demo_vnic) = 12" "length (vd_config (vn_vdev demo_vnic)) = 12"
    using demo_vnic_sel(1) unfolding vnic_inv_def by blast+
  have reg: "list_all (in_region 0x4000) ?as" by (simp add: in_region_def reg_write_def mmio_offs)
  obtain v' where run: "emu_run (\<lambda>va pa n. None) 0x4000 ?as demo_vnic = Inr ([0xffffffff], v')"
    using emu_check_simps(1) [of "0x4000" "VIRTIO_MMIO_CONFIG + 4" "\<lambda>va pa n. None" "0xffffffff" 4 False demo_vnic]
    by (simp add: reg_write_def vnic_handle_mmio_write_def mmio_offs virtio_config_write_def add32_def cfg)
  have "le_val (slice (virtio_net_config (vn_vnet demo_vnic)) 10 2) = 1500"
    by (simp add: virtio_net_config_def slice_def mem_eval)
  with run config_space_read_only [OF demo_vnic_sel(1) reg run, of 10 2 0] show ?thesis
    by (auto simp: mmio_offs)
qed

theorem feature_negotiation_witness:
  "\<exists>v'. emu_run (\<lambda>va pa n. None) 0x4000 [reg_write 0x4000 VIRTIO_MMIO_DRIVER_FEATURES_SEL 0, reg_write 0x4000 VIRTIO_MMIO_DRIVER_FEATURES 0x20,
       reg_write 0x4000 VIRTIO_MMIO_DRIVER_FEATURES_SEL 1, reg_write 0x4000 VIRTIO_MMIO_DRIVER_FEATURES 0,
       reg_write 0x4000 VIRTIO_MMIO_STATUS 11] demo_vnic = Inr ([0, 0x20, 1, 0, 11], v') \<and>
     guest_features (vn_vdev v') = 0x20"
proof -
  have ag: "join64 (0x20, 0) AND host_features (vn_vdev demo_vnic) = 0x20" by (simp add: join64_def)
  have "bit (0x20 :: u64) VIRTIO_NET_F_MAC" by (simp add: VIRTIO_NET_F_MAC_def bit_iff_and_push_bit_not_eq_0 push_bit_eq_mult)
  with feature_negotiation [of demo_vnic 11 "0x4000" "\<lambda>va pa n. None" "0x20" 0] ag show ?thesis
    by (auto simp: VIRTIO_CONFIG_S_FEATURES_OK_def mmio_offs Let_def)
qed

end
