(* ===== verification/Router.thy ===== *)
theory Router
  imports Netdev
begin

text \<open>
  The packet path of the router: route table (\<open>nettrug/pta/route.c\<close>), ARP (\<open>arp.c\<close>) and packet
  processing (\<open>worker.c\<close>). Libraries that are not part of the sources are parameters, bundled in
  \<open>ext\<close>: the thmap of an ARP cache, the longest-prefix-match table, and the NPF packet handler.
  Packets are buffer addresses in the pool; an access to a packet outside its block is a fault.
\<close>

section \<open>External libraries and state\<close>

text \<open>
  \<open>th_put\<close> returns whether the given entry is now the one stored (the C code compares the returned
  pointer with its own). \<open>npf_handler\<close> gets the packet, the device and the direction; it returns the
  error, the packet that is left, if any, and the changed buffers.
\<close>

record ('th, 'lp, 'n) ext =
  th_get :: "'th \<Rightarrow> byte list \<Rightarrow> ether_addr option"
  th_put :: "'th \<Rightarrow> byte list \<Rightarrow> ether_addr \<Rightarrow> 'th \<times> bool"
  lpm_lookup :: "'lp \<Rightarrow> byte list \<Rightarrow> route_info option"
  lpm_insert :: "'lp \<Rightarrow> byte list \<Rightarrow> nat \<Rightarrow> route_info \<Rightarrow> 'lp option"
  npf_handler :: "'n \<Rightarrow> nat \<Rightarrow> nat \<Rightarrow> bool \<Rightarrow> bufpool \<Rightarrow> int \<times> nat option \<times> bufpool \<times> 'n"

text \<open>\<open>notified\<close> lists the devices whose egress notification handler was called, newest first.\<close>

record ('th, 'lp, 'n) rstate =
  nd :: "'th netdev"
  pool :: bufpool
  rtable :: 'lp
  npfst :: 'n
  notified :: "nat list"

definition get_dev :: "nat \<Rightarrow> ('th, 'lp, 'n) rstate \<Rightarrow> 'th ifnet res" where
  "get_dev p st = (case ifs (nd st) p of None \<Rightarrow> Inl Null_deref | Some d \<Rightarrow> Inr d)"

definition set_dev :: "nat \<Rightarrow> 'th ifnet \<Rightarrow> ('th, 'lp, 'n) rstate \<Rightarrow> ('th, 'lp, 'n) rstate" where
  "set_dev p d st = st\<lparr>nd := (nd st)\<lparr>ifs := (ifs (nd st))(p \<mapsto> d)\<rparr>\<rparr>"

definition get_eb :: "nat \<Rightarrow> ('th, 'lp, 'n) rstate \<Rightarrow> ethbuf res" where
  "get_eb a st = (case bufs (pool st) a of None \<Rightarrow> Inl Null_deref | Some eb \<Rightarrow> Inr eb)"

definition set_eb :: "nat \<Rightarrow> ethbuf \<Rightarrow> ('th, 'lp, 'n) rstate \<Rightarrow> ('th, 'lp, 'n) rstate" where
  "set_eb a eb st = st\<lparr>pool := (pool st)\<lparr>bufs := (bufs (pool st))(a \<mapsto> eb)\<rparr>\<rparr>"

definition peek :: "ethbuf \<Rightarrow> nat \<Rightarrow> nat \<Rightarrow> byte list res" where
  "peek eb off n = (if off + n \<le> buf_cap eb then Inr (slice (buf eb) off n) else Inl Out_of_bounds)"

definition poke :: "ethbuf \<Rightarrow> nat \<Rightarrow> byte list \<Rightarrow> ethbuf res" where
  "poke eb off bs = (if off + length bs \<le> buf_cap eb then Inr (eb\<lparr>buf := blit (buf eb) off bs\<rparr>) else Inl Out_of_bounds)"

definition free_buf :: "nat \<Rightarrow> ('th, 'lp, 'n) rstate \<Rightarrow> ('th, 'lp, 'n) rstate res" where
  "free_buf a st = bind_res (bstgw_ethpool_buf_free a (pool st)) (\<lambda>p. Inr (st\<lparr>pool := p\<rparr>))"

fun free_bufs :: "nat list \<Rightarrow> ('th, 'lp, 'n) rstate \<Rightarrow> ('th, 'lp, 'n) rstate res" where
  "free_bufs [] st = Inr st"
| "free_bufs (a # as) st = bind_res (free_buf a st) (free_bufs as)"

text \<open>A heap allocation of the router: the answer comes from the oracle of the pool's heap.\<close>

definition heap_alloc :: "('th, 'lp, 'n) rstate \<Rightarrow> bool \<times> ('th, 'lp, 'n) rstate" where
  "heap_alloc st = (alloc_ok (pool st) (clk (pool st)), st\<lparr>pool := (pool st)\<lparr>clk := clk (pool st) + 1\<rparr>\<rparr>)"

section \<open>Routes\<close>

definition route_add :: "('th, 'lp, 'n) ext \<Rightarrow> byte list \<Rightarrow> nat \<Rightarrow> route_info \<Rightarrow> ('th, 'lp, 'n) rstate \<Rightarrow>
    int \<times> ('th, 'lp, 'n) rstate" where
  "route_add x addr preflen rt st =
     (case heap_alloc st of (ok, st1) \<Rightarrow>
        if \<not> ok then (-1, st1)
        else (case lpm_insert x (rtable st1) addr preflen rt of None \<Rightarrow> (-1, st1)
              | Some t \<Rightarrow> (0, st1\<lparr>rtable := t\<rparr>)))"

definition route_lookup :: "('th, 'lp, 'n) ext \<Rightarrow> byte list \<Rightarrow> ('th, 'lp, 'n) rstate \<Rightarrow> route_info option" where
  "route_lookup x addr st = lpm_lookup x (rtable st) addr"

section \<open>ARP cache\<close>

definition arp_cache :: "('th, 'lp, 'n) ext \<Rightarrow> nat \<Rightarrow> byte list \<Rightarrow> ether_addr \<Rightarrow> bool \<Rightarrow> ('th, 'lp, 'n) rstate \<Rightarrow>
    ('th, 'lp, 'n) rstate res" where
  "arp_cache x p ipaddr hw allow_new st =
     bind_res (get_dev p st) (\<lambda>ifp. case arp_map ifp of None \<Rightarrow> Inl Null_deref
       | Some t \<Rightarrow>
         if th_get x t ipaddr \<noteq> None then Inr st
         else if \<not> allow_new then Inr st
         else (case heap_alloc st of (ok, st1) \<Rightarrow>
           if \<not> ok then Inr st1
           else Inr (set_dev p (ifp\<lparr>arp_map := Some (fst (th_put x t ipaddr hw))\<rparr>) st1)))"

definition arp_cache_lookup :: "('th, 'lp, 'n) ext \<Rightarrow> nat \<Rightarrow> byte list \<Rightarrow> ('th, 'lp, 'n) rstate \<Rightarrow>
    ether_addr option res" where
  "arp_cache_lookup x p ipaddr st =
     bind_res (get_dev p st) (\<lambda>ifp. case arp_map ifp of None \<Rightarrow> Inl Null_deref
       | Some t \<Rightarrow> Inr (th_get x t ipaddr))"

text \<open>The bytes of an Ethernet header and of an ARP packet for IPv4 over Ethernet.\<close>

definition eth_hdr :: "ether_addr \<Rightarrow> ether_addr \<Rightarrow> byte list \<Rightarrow> byte list" where
  "eth_hdr d s t = d @ s @ t"

definition arp_hdr :: "byte list \<Rightarrow> ether_addr \<Rightarrow> byte list \<Rightarrow> ether_addr \<Rightarrow> byte list \<Rightarrow> byte list" where
  "arp_hdr opcode sha sip tha tip = [0, 1] @ [0x08, 0] @ [6] @ [4] @ opcode @ sha @ sip @ tha @ tip"

definition arp_request :: "ether_addr \<Rightarrow> byte list \<Rightarrow> byte list \<Rightarrow> ('th, 'lp, 'n) rstate \<Rightarrow>
    (nat \<times> ('th, 'lp, 'n) rstate) res" where
  "arp_request src_hwaddr src_addr target st =
     bind_res (bstgw_ethpool_buf_alloc (pool st)) (\<lambda>(m, p).
     let st1 = st\<lparr>pool := p\<rparr> in
     bind_res (get_eb m st1) (\<lambda>eb.
     let eb1 = eb\<lparr>l2_len := 14, l3_len := 28, data_len := 14 + 28\<rparr> in
     bind_res (poke eb1 (bstgw_ethbuf_head eb1) (eth_hdr (replicate 6 0xff) src_hwaddr [0x08, 0x06])) (\<lambda>eb2.
     bind_res (bstgw_ethbuf_data_ptr eb2 (l2_len eb2)) (\<lambda>ah. case ah of None \<Rightarrow> Inl Null_deref
       | Some off \<Rightarrow>
         bind_res (poke eb2 off (arp_hdr [0, 1] src_hwaddr src_addr (replicate 6 0xff) target)) (\<lambda>eb3.
           Inr (m, set_eb m eb3 st1))))))"

section \<open>Egress queues\<close>

text \<open>
  \<open>pktq_do_menqueue\<close> appends what fits, frees the rest, and calls the notification handler of the
  output device unless it is the worker's own.
\<close>

definition pktq_do_menqueue :: "nat \<Rightarrow> nat \<Rightarrow> nat list \<Rightarrow> ('th, 'lp, 'n) rstate \<Rightarrow> (int \<times> ('th, 'lp, 'n) rstate) res" where
  "pktq_do_menqueue net_if out_if_idx m_pool st =
     (if m_pool = [] then Inr (0, st)
      else case ifnet_getbyidx out_if_idx (nd st) of None \<Rightarrow> Inr (-1, st)
      | Some p \<Rightarrow>
          bind_res (get_dev p st) (\<lambda>out_ifp.
          bind_res (bstgw_pktq_locked_bulk_add_buff (egress_queue out_ifp) m_pool) (\<lambda>(q, negr_pkts).
          let st1 = set_dev p (out_ifp\<lparr>egress_queue := q\<rparr>) st in
          bind_res (free_bufs (drop negr_pkts m_pool) st1) (\<lambda>st2.
          if negr_pkts = 0 then Inr (0, st2)
          else bind_res (get_dev net_if st2) (\<lambda>own.
            Inr (int negr_pkts,
              if ifnet_idx own \<noteq> out_if_idx then st2\<lparr>notified := out_if_idx # notified st2\<rparr> else st2))))))"

text \<open>
  Output preparation. It calls ARP resolution, which enqueues an ARP request through output
  preparation again; \<open>resolve\<close> is the resolution to use.
\<close>

definition router_if_output_with ::
    "(route_info \<Rightarrow> ('th, 'lp, 'n) rstate \<Rightarrow> (ether_addr option \<times> ('th, 'lp, 'n) rstate) res) \<Rightarrow> nat \<Rightarrow> nat \<Rightarrow>
     ('th, 'lp, 'n) rstate \<Rightarrow> (int \<times> ('th, 'lp, 'n) rstate) res" where
  "router_if_output_with resolve out_p m st =
     bind_res (get_eb m st) (\<lambda>eb.
     if mp_flags (priv_data eb) AND MBUF_NPF_NEED_L2 = 0 then Inr (0, st)
     else if l2_len eb \<noteq> RTE_ETHER_HDR_LEN then Inl Assert_failed
     else (case bstgw_ethbuf_prepend eb RTE_ETHER_HDR_LEN of
        (eb1, None) \<Rightarrow> Inr (-1, st)
      | (eb1, Some eh) \<Rightarrow>
          bind_res (get_dev out_p st) (\<lambda>out_ifp.
          bind_res (poke eb1 (eh + 6) (hwaddr out_ifp)) (\<lambda>eb2.
          bind_res (resolve (mp_route (priv_data eb2)) (set_eb m eb2 st)) (\<lambda>(hw, st1).
          case hw of None \<Rightarrow> Inr (-1, st1)
          | Some d \<Rightarrow>
              bind_res (get_eb m st1) (\<lambda>eb3.
              bind_res (poke eb3 eh d) (\<lambda>eb4.
              bind_res (poke eb4 (eh + 12) (mp_ether_type (priv_data eb4))) (\<lambda>eb5.
                Inr (0, set_eb m eb5 st1)))))))))"

definition pktq_prepare_enqueue_with ::
    "(route_info \<Rightarrow> ('th, 'lp, 'n) rstate \<Rightarrow> (ether_addr option \<times> ('th, 'lp, 'n) rstate) res) \<Rightarrow> nat \<Rightarrow> nat \<Rightarrow>
     ('th, 'lp, 'n) rstate \<Rightarrow> (int \<times> ('th, 'lp, 'n) rstate) res" where
  "pktq_prepare_enqueue_with resolve out_if_idx m st =
     (case ifnet_getbyidx out_if_idx (nd st) of None \<Rightarrow> Inr (-1, st)
      | Some p \<Rightarrow>
          bind_res (router_if_output_with resolve p m st) (\<lambda>(r, st1).
          if r = -1 then Inr (-1, st1)
          else bind_res (get_eb m st1) (\<lambda>eb.
            Inr (0, set_eb m (eb\<lparr>priv_data := (priv_data eb)\<lparr>mp_out_if_idx := out_if_idx\<rparr>\<rparr>) st1))))"

definition pktq_enqueue_with ::
    "(route_info \<Rightarrow> ('th, 'lp, 'n) rstate \<Rightarrow> (ether_addr option \<times> ('th, 'lp, 'n) rstate) res) \<Rightarrow> nat \<Rightarrow> nat \<Rightarrow> nat \<Rightarrow>
     ('th, 'lp, 'n) rstate \<Rightarrow> (int \<times> ('th, 'lp, 'n) rstate) res" where
  "pktq_enqueue_with resolve net_if out_if_idx m st =
     bind_res (pktq_prepare_enqueue_with resolve out_if_idx m st) (\<lambda>(r, st1).
       if r \<noteq> 0 then Inr (r, st1)
       else bind_res (pktq_do_menqueue net_if out_if_idx [m] st1) (\<lambda>(r', st2).
         Inr (if r' \<ge> 0 then 0 else r', st2)))"

text \<open>
  ARP resolution, with a bound on the depth of the recursion: the packet that resolution enqueues is
  an ARP request, which needs no resolution itself, so two levels are enough.
\<close>

fun arp_resolve_depth :: "nat \<Rightarrow> ('th, 'lp, 'n) ext \<Rightarrow> nat \<Rightarrow> route_info \<Rightarrow> ('th, 'lp, 'n) rstate \<Rightarrow>
    (ether_addr option \<times> ('th, 'lp, 'n) rstate) res" where
  "arp_resolve_depth 0 x net_if rt st = Inl Stack_exhausted"
| "arp_resolve_depth (Suc k) x net_if rt st =
     (case ifnet_getbyidx (rt_if_idx rt) (nd st) of None \<Rightarrow> Inr (None, st)
      | Some p \<Rightarrow>
          bind_res (arp_cache_lookup x p (rt_next_hop rt) st) (\<lambda>c.
          case c of Some hw \<Rightarrow> Inr (Some hw, st)
          | None \<Rightarrow>
              bind_res (get_dev p st) (\<lambda>ifp.
              if rt_if_addr_idx rt \<ge> ips_cnt ifp then Inl Panic
              else if length (if_ips ifp) \<le> rt_if_addr_idx rt then Inl Out_of_bounds
              else bind_res (arp_request (hwaddr ifp) (if_ips ifp ! rt_if_addr_idx rt) (rt_next_hop rt) st) (\<lambda>(m, st1).
                bind_res (pktq_enqueue_with (\<lambda>rt' st'. arp_resolve_depth k x net_if rt' st') net_if (rt_if_idx rt) m st1)
                  (\<lambda>(r, st2). Inr (None, st2))))))"

definition ARP_DEPTH :: nat where "ARP_DEPTH = 2"

definition arp_resolve :: "('th, 'lp, 'n) ext \<Rightarrow> nat \<Rightarrow> route_info \<Rightarrow> ('th, 'lp, 'n) rstate \<Rightarrow>
    (ether_addr option \<times> ('th, 'lp, 'n) rstate) res" where
  "arp_resolve x net_if rt st = arp_resolve_depth ARP_DEPTH x net_if rt st"

definition router_if_output :: "('th, 'lp, 'n) ext \<Rightarrow> nat \<Rightarrow> nat \<Rightarrow> nat \<Rightarrow> ('th, 'lp, 'n) rstate \<Rightarrow>
    (int \<times> ('th, 'lp, 'n) rstate) res" where
  "router_if_output x net_if out_p m st = router_if_output_with (arp_resolve x net_if) out_p m st"

definition pktq_prepare_enqueue :: "('th, 'lp, 'n) ext \<Rightarrow> nat \<Rightarrow> nat \<Rightarrow> nat \<Rightarrow> ('th, 'lp, 'n) rstate \<Rightarrow>
    (int \<times> ('th, 'lp, 'n) rstate) res" where
  "pktq_prepare_enqueue x net_if out_if_idx m st = pktq_prepare_enqueue_with (arp_resolve x net_if) out_if_idx m st"

definition pktq_enqueue :: "('th, 'lp, 'n) ext \<Rightarrow> nat \<Rightarrow> nat \<Rightarrow> nat \<Rightarrow> ('th, 'lp, 'n) rstate \<Rightarrow>
    (int \<times> ('th, 'lp, 'n) rstate) res" where
  "pktq_enqueue x net_if out_if_idx m st = pktq_enqueue_with (arp_resolve x net_if) net_if out_if_idx m st"

section \<open>ARP input\<close>

text \<open>Offsets of the fields of \<open>struct rte_arp_hdr\<close>.\<close>

definition arp_opcode_off :: nat where "arp_opcode_off = 6"
definition arp_sha_off :: nat where "arp_sha_off = 8"
definition arp_sip_off :: nat where "arp_sip_off = 14"
definition arp_tha_off :: nat where "arp_tha_off = 18"
definition arp_tip_off :: nat where "arp_tip_off = 24"

lemmas arp_offs = arp_opcode_off_def arp_sha_off_def arp_sip_off_def arp_tha_off_def arp_tip_off_def

text \<open>
  \<open>arp_is_interesting\<close>: \<open>None\<close> when the packet is not for this device, otherwise whether it targets one
  of the device's addresses. A device of the untrusted world counts as targeted by everything it sends.
\<close>

definition arp_is_interesting :: "ether_addr \<Rightarrow> byte list \<Rightarrow> 'th ifnet \<Rightarrow> bool option" where
  "arp_is_interesting tha tip ifp =
     (let ucast = rte_is_same_ether_addr (hwaddr ifp) tha;
          bcast = (rte_is_broadcast_ether_addr tha \<or> rte_is_zero_ether_addr tha);
          untrusted = (trust_status ifp = BSTGW_IF_NONSEC) in
      if ucast \<or> bcast \<or> untrusted
      then Some (if untrusted then True else tip \<in> set (take (ips_cnt ifp) (if_ips ifp)))
      else None)"

text \<open>The ARP packet and the Ethernet header rewritten into the reply, field by field.\<close>

definition arp_make_reply :: "ether_addr \<Rightarrow> nat \<Rightarrow> nat \<Rightarrow> ethbuf \<Rightarrow> ethbuf res" where
  "arp_make_reply hw ah eh eb =
     bind_res (peek eb (ah + arp_tip_off) 4) (\<lambda>ipaddr.
     bind_res (poke eb (ah + arp_opcode_off) [0, 2]) (\<lambda>eb1.
     bind_res (peek eb1 (ah + arp_sha_off) 6) (\<lambda>sha.
     bind_res (poke eb1 (ah + arp_tha_off) sha) (\<lambda>eb2.
     bind_res (peek eb2 (ah + arp_sip_off) 4) (\<lambda>sip.
     bind_res (poke eb2 (ah + arp_tip_off) sip) (\<lambda>eb3.
     bind_res (poke eb3 (ah + arp_sha_off) hw) (\<lambda>eb4.
     bind_res (poke eb4 (ah + arp_sip_off) ipaddr) (\<lambda>eb5.
     bind_res (peek eb5 (eh + 6) 6) (\<lambda>s_addr.
     bind_res (poke eb5 eh s_addr) (\<lambda>eb6. poke eb6 (eh + 6) hw))))))))))"

definition arp_drop :: "nat \<Rightarrow> ('th, 'lp, 'n) rstate \<Rightarrow> (int \<times> ('th, 'lp, 'n) rstate) res" where
  "arp_drop m st = bind_res (free_buf m st) (\<lambda>st'. Inr (-1, st'))"

definition ptr_res :: "nat option res \<Rightarrow> nat res" where
  "ptr_res r = bind_res r (\<lambda>q. case q of None \<Rightarrow> Inl Null_deref | Some a \<Rightarrow> Inr a)"

definition arp_input :: "('th, 'lp, 'n) ext \<Rightarrow> nat option \<Rightarrow> nat \<Rightarrow> ('th, 'lp, 'n) rstate \<Rightarrow>
    (int \<times> ('th, 'lp, 'n) rstate) res" where
  "arp_input x net_if m st =
     (case net_if of None \<Rightarrow> arp_drop m st
      | Some p \<Rightarrow>
          bind_res (get_dev p st) (\<lambda>ifp.
          bind_res (get_eb m st) (\<lambda>eb.
          bind_res (ptr_res (bstgw_ethbuf_data_ptr eb (l2_len eb))) (\<lambda>ah.
          bind_res (peek eb ah 28) (\<lambda>h.
          if take 2 h \<noteq> [0, 1] \<or> h ! 4 \<noteq> 6 \<or> h ! 5 \<noteq> 4 then arp_drop m st
          else (case arp_is_interesting (slice h arp_tha_off 6) (slice h arp_tip_off 4) ifp of
              None \<Rightarrow> arp_drop m st
            | Some targeted \<Rightarrow>
                bind_res (arp_cache x p (slice h arp_sip_off 4) (slice h arp_sha_off 6) targeted st) (\<lambda>st1.
                if targeted \<and> slice h arp_opcode_off 2 = [0, 1] then
                  bind_res (ptr_res (bstgw_ethbuf_data_ptr eb 0)) (\<lambda>eh.
                  bind_res (arp_make_reply (hwaddr ifp) ah eh eb) (\<lambda>eb'.
                  bind_res (pktq_enqueue x p (ifnet_idx ifp) m (set_eb m eb' st1)) (\<lambda>(r, st2).
                    if r = -1 then arp_drop m st2 else Inr (1, st2))))
                else arp_drop m st1)))))))"

section \<open>Packet processing\<close>

definition firewall_process :: "('th, 'lp, 'n) ext \<Rightarrow> nat \<Rightarrow> nat \<Rightarrow> bool \<Rightarrow> ('th, 'lp, 'n) rstate \<Rightarrow>
    (nat option \<times> ('th, 'lp, 'n) rstate) res" where
  "firewall_process x m ifp di st =
     (case npf_handler x (npfst st) m ifp di (pool st) of (err, mp, p, n) \<Rightarrow>
        let st1 = st\<lparr>pool := p, npfst := n\<rparr> in
        case mp of None \<Rightarrow> Inr (None, st1)
        | Some m' \<Rightarrow> if err \<noteq> 0 then bind_res (free_buf m' st1) (\<lambda>st2. Inr (None, st2)) else Inr (Some m', st1))"

definition RTE_ETHER_TYPE_ARP :: "byte list" where "RTE_ETHER_TYPE_ARP = [0x08, 0x06]"
definition RTE_ETHER_TYPE_IPV4 :: "byte list" where "RTE_ETHER_TYPE_IPV4 = [0x08, 0x00]"

definition l2_input :: "('th, 'lp, 'n) ext \<Rightarrow> nat option \<Rightarrow> nat \<Rightarrow> ('th, 'lp, 'n) rstate \<Rightarrow>
    (int \<times> ('th, 'lp, 'n) rstate) res" where
  "l2_input x net_if m st =
     bind_res (get_eb m st) (\<lambda>eb.
     if packet_type eb AND RTE_PTYPE_L2_MASK = 0 then Inl Panic
     else
       bind_res (ptr_res (bstgw_ethbuf_data_ptr eb 0)) (\<lambda>eh.
       bind_res (peek eb (eh + 12) 2) (\<lambda>ty.
       let eb1 = eb\<lparr>priv_data := (priv_data eb)\<lparr>mp_ether_type := ty\<rparr>, l2_len := RTE_ETHER_HDR_LEN\<rparr>;
           st1 = set_eb m eb1 st in
       if ty = RTE_ETHER_TYPE_ARP then arp_input x net_if m st1
       else if ty = RTE_ETHER_TYPE_IPV4 then
         (let eb2 = eb1\<lparr>packet_type := packet_type eb1 OR RTE_PTYPE_L3_IPV4\<rparr> in
          case bstgw_ethbuf_precut eb2 RTE_ETHER_HDR_LEN of
            (eb3, None) \<Rightarrow> Inl Panic
          | (eb3, Some q) \<Rightarrow>
              Inr (0, set_eb m (eb3\<lparr>priv_data := (priv_data eb3)\<lparr>mp_flags := mp_flags (priv_data eb3) OR MBUF_NPF_NEED_L2\<rparr>\<rparr>) st1))
       else bind_res (free_buf m st1) (\<lambda>st2. Inr (-1, st2)))))"

text \<open>The optional source-address check is compiled out, as its macro is not defined.\<close>

definition router_ip_route :: "('th, 'lp, 'n) ext \<Rightarrow> nat \<Rightarrow> ('th, 'lp, 'n) rstate \<Rightarrow>
    (nat option \<times> ('th, 'lp, 'n) rstate) res" where
  "router_ip_route x m st =
     bind_res (get_eb m st) (\<lambda>eb.
     if packet_type eb AND RTE_PTYPE_L3_IPV4 \<noteq> 0 then
       bind_res (ptr_res (bstgw_ethbuf_data_ptr eb 0)) (\<lambda>ip4.
       bind_res (peek eb ip4 20) (\<lambda>h.
       if h ! 8 \<le> 1 then Inr (None, st)
       else
         let addr = slice h 16 4 in
         case route_lookup x addr st of None \<Rightarrow> Inr (None, st)
         | Some rt \<Rightarrow>
             let rt' = (if rt_addr_len rt = 0 then rt\<lparr>rt_next_hop := addr, rt_addr_len := 4\<rparr> else rt) in
             Inr (Some (rt_if_idx rt'), set_eb m (eb\<lparr>priv_data := (priv_data eb)\<lparr>mp_route := rt'\<rparr>\<rparr>) st)))
     else Inr (None, st))"

text \<open>\<open>router_ip_output\<close> hands back the packet that is ready for the queue; \<open>None\<close> when it is gone.\<close>

definition router_ip_output :: "('th, 'lp, 'n) ext \<Rightarrow> nat \<Rightarrow> nat \<Rightarrow> nat \<Rightarrow> ('th, 'lp, 'n) rstate \<Rightarrow>
    (int \<times> ('th, 'lp, 'n) rstate) res" where
  "router_ip_output x net_if m out_if_idx st =
     (case ifnet_getbyidx out_if_idx (nd st) of
        None \<Rightarrow> bind_res (free_buf m st) (\<lambda>st1. Inr (-1, st1))
      | Some p \<Rightarrow>
          bind_res (firewall_process x m p False st) (\<lambda>(mp, st1).
          case mp of None \<Rightarrow> Inr (-1, st1)
          | Some m1 \<Rightarrow>
              bind_res (pktq_prepare_enqueue x net_if out_if_idx m1 st1) (\<lambda>(r, st2).
              if r = -1 then bind_res (free_buf m1 st2) (\<lambda>st3. Inr (-1, st3)) else Inr (0, st2))))"

text \<open>
  One packet of \<open>router_if_input\<close>: \<open>None\<close> when it was consumed, else the packet that the caller stores
  and the interface it goes to. \<open>router_ip_output\<close> works on its own copy of the packet pointer, so the
  pointer that is stored is the one the inbound firewall left.
\<close>

definition route_one :: "('th, 'lp, 'n) ext \<Rightarrow> nat \<Rightarrow> nat \<Rightarrow> ('th, 'lp, 'n) rstate \<Rightarrow>
    ((nat \<times> nat) option \<times> ('th, 'lp, 'n) rstate) res" where
  "route_one x net_if m st =
     bind_res (l2_input x (Some net_if) m st) (\<lambda>(r, st1).
     if r \<noteq> 0 then Inr (None, st1)
     else bind_res (firewall_process x m net_if True st1) (\<lambda>(mp, st2).
       case mp of None \<Rightarrow> Inr (None, st2)
       | Some m1 \<Rightarrow>
           bind_res (router_ip_route x m1 st2) (\<lambda>(rt, st3).
           case rt of None \<Rightarrow> bind_res (free_buf m1 st3) (\<lambda>st4. Inr (None, st4))
           | Some out_if_idx \<Rightarrow>
               bind_res (router_ip_output x net_if m1 out_if_idx st3) (\<lambda>(r', st4).
               if r' < 0 then Inr (None, st4) else Inr (Some (out_if_idx, m1), st4)))))"

text \<open>
  The routing loop. \<open>outs\<close> is \<open>out_arr\<close>, one segment per device with the packets stored so far;
  \<open>egr_idx\<close> is an eight-bit set of interface indices.
\<close>

fun route_loop :: "('th, 'lp, 'n) ext \<Rightarrow> nat \<Rightarrow> nat list \<Rightarrow> u8 \<Rightarrow> nat list list \<Rightarrow> ('th, 'lp, 'n) rstate \<Rightarrow>
    (u8 \<times> nat list list \<times> ('th, 'lp, 'n) rstate) res" where
  "route_loop x net_if [] egr_idx outs st = Inr (egr_idx, outs, st)"
| "route_loop x net_if (m # ms) egr_idx outs st =
     bind_res (route_one x net_if m st) (\<lambda>(r, st1).
     case r of None \<Rightarrow> route_loop x net_if ms egr_idx outs st1
     | Some (i, m1) \<Rightarrow>
         if i = 0 \<or> length outs < i then Inl Out_of_bounds
         else route_loop x net_if ms (egr_idx OR push_bit i 1) (outs[i - 1 := outs ! (i - 1) @ [m1]]) st1)"

fun enqueue_loop :: "nat \<Rightarrow> u8 \<Rightarrow> (nat \<times> nat list) list \<Rightarrow> ('th, 'lp, 'n) rstate \<Rightarrow> ('th, 'lp, 'n) rstate res" where
  "enqueue_loop net_if egr_idx [] st = Inr st"
| "enqueue_loop net_if egr_idx ((j, ms) # rest) st =
     (if egr_idx AND push_bit j 1 = 0 then enqueue_loop net_if egr_idx rest st
      else bind_res (pktq_do_menqueue net_if j ms st) (\<lambda>(r, st1). enqueue_loop net_if egr_idx rest st1))"

definition router_if_input :: "('th, 'lp, 'n) ext \<Rightarrow> nat option \<Rightarrow> nat list \<Rightarrow> ('th, 'lp, 'n) rstate \<Rightarrow>
    ('th, 'lp, 'n) rstate res" where
  "router_if_input x net_if pkts st =
     (case net_if of None \<Rightarrow> Inl Assert_failed
      | Some w \<Rightarrow>
          if pkts = [] then Inr st
          else
            let dev_count = ifnet_dev_count (nd st);
                (ok1, st1) = heap_alloc st; (ok2, st2) = heap_alloc st1 in
            if \<not> ok1 \<or> \<not> ok2 then free_bufs pkts st2
            else bind_res (route_loop x w pkts 0 (replicate dev_count []) st2) (\<lambda>(egr_idx, outs, st3).
              enqueue_loop w egr_idx (zip [1..<dev_count + 1] outs) st3))"

text \<open>
  \<open>router_pktq_tx\<close>: the driver's transmit handler gets the contiguous run at the head of the queue and
  returns how many packets it took, or an error; it works on the state \<open>'e\<close> of its card.
\<close>

definition router_pktq_tx ::
    "(nat list \<Rightarrow> 'e \<Rightarrow> ('th, 'lp, 'n) rstate \<Rightarrow> (int \<times> 'e \<times> ('th, 'lp, 'n) rstate) res) \<Rightarrow> nat \<Rightarrow> 'e \<Rightarrow>
     ('th, 'lp, 'n) rstate \<Rightarrow> (int \<times> 'e \<times> ('th, 'lp, 'n) rstate) res" where
  "router_pktq_tx xmit p v st =
     bind_res (get_dev p st) (\<lambda>ifp.
     if trust_status ifp = BSTGW_IF_EXTERNAL \<and> netif_tx_queue_stopped (egress_queue ifp) then Inr (0, v, st)
     else
       let pq = egress_queue ifp; pktburst = bstgw_pktq_locked_contig_bufs pq in
       if pktburst = 0 then Inr (0, v, st)
       else bind_res (xmit (slice (pkt pq) (next_read pq) pktburst) v st) (\<lambda>(sent, v1, st1).
         if sent \<le> 0 then Inr (sent, v1, st1)
         else bind_res (get_dev p st1) (\<lambda>ifp1.
           bind_res (bstgw_pktq_locked_drop_bufs (egress_queue ifp1) (nat sent)) (\<lambda>q.
             Inr (sent, v1, set_dev p (ifp1\<lparr>egress_queue := q\<rparr>) st1)))))"

text \<open>\<open>bstgw_generic_rx_handler\<close> of \<open>napi.c\<close>: worker 0 of the device is its receive worker.\<close>

definition bstgw_generic_rx_handler :: "('th, 'lp, 'n) ext \<Rightarrow> nat \<Rightarrow> nat list \<Rightarrow> ('th, 'lp, 'n) rstate \<Rightarrow>
    (int \<times> ('th, 'lp, 'n) rstate) res" where
  "bstgw_generic_rx_handler x p pkts st =
     bind_res (get_dev p st) (\<lambda>d.
     if if_worker_count d = 0 \<or> workers d = [] \<or> hd (workers d) = None then Inr (-1, st)
     else bind_res (router_if_input x (Some p) pkts st) (\<lambda>st1. Inr (0, st1)))"

definition router_in_burst_size :: "nat \<Rightarrow> nat option \<Rightarrow> nat \<Rightarrow> ('th, 'lp, 'n) rstate \<Rightarrow> nat res" where
  "router_in_burst_size p dst_if pktqueue_size st =
     (case dst_if of
        Some q \<Rightarrow> bind_res (get_dev q st) (\<lambda>d. Inr (sub32 (pq_capacity (egress_queue d)) (pq_count (egress_queue d))))
      | None \<Rightarrow>
          bind_res (get_dev p st) (\<lambda>d. case trust_status d of
            BSTGW_IF_NONSEC \<Rightarrow>
              (case ifnet_getbyname (Some ''imx6q-fec'') (nd st) of None \<Rightarrow> Inl Panic
               | Some f \<Rightarrow> bind_res (get_dev f st) (\<lambda>e.
                   Inr (sub32 (pq_capacity (egress_queue e)) (pq_count (egress_queue e)))))
          | BSTGW_IF_EXTERNAL \<Rightarrow> Inr (pktqueue_size div 2)))"

end
