(* ===== verification/RouterInv.thy ===== *)
theory RouterInv
  imports Router "HOL-Library.Multiset"
begin

text \<open>
  Ownership of packets in the router. A buffer of the pool is free, queued on exactly one egress
  queue, or held by whoever processes it. \<open>eff A B st st'\<close> says that a piece of the packet path took the
  held buffers \<open>A\<close> out of the hands of its caller (freed or queued), may have rewritten the buffers
  \<open>B\<close>, and left all others and the router's invariant alone. Every operation of the packet path has a
  lemma in terms of \<open>eff\<close>; they compose to the statement that routing a batch of packets neither leaks
  nor frees twice.
\<close>

section \<open>Invariant and ownership\<close>

definition dev_queue :: "'th netdev \<Rightarrow> nat \<Rightarrow> nat list" where
  "dev_queue n p = (case ifs n p of None \<Rightarrow> [] | Some d \<Rightarrow> pktq_list (egress_queue d))"

definition queued :: "('th, 'lp, 'n) rstate \<Rightarrow> nat list" where
  "queued st = concat (map (dev_queue (nd st)) (netdev_list (nd st)))"

definition held :: "('th, 'lp, 'n) rstate \<Rightarrow> nat set" where
  "held st = set (inuse_list (pool st)) - set (queued st)"

definition dev_ok :: "'th ifnet \<Rightarrow> bool" where
  "dev_ok d \<longleftrightarrow> pktq_wf (egress_queue d) \<and> 0 < pq_capacity (egress_queue d) \<and> arp_map d \<noteq> None \<and>
     length (hwaddr d) = 6 \<and> length (if_ips d) = BSTGW_MAX_NETIF_IPS \<and> ips_cnt d \<le> BSTGW_MAX_NETIF_IPS \<and>
     list_all (\<lambda>ip. length ip = 4) (if_ips d)"

definition roomy :: "ethbuf \<Rightarrow> bool" where
  "roomy eb \<longleftrightarrow> 64 \<le> buf_cap eb"

definition devs_ok :: "'th netdev \<Rightarrow> bool" where
  "devs_ok n \<longleftrightarrow> (\<forall>p \<in> set (netdev_list n). case ifs n p of None \<Rightarrow> False | Some d \<Rightarrow> dev_ok d)"

definition pool_ok :: "bufpool \<Rightarrow> bool" where
  "pool_ok P \<longleftrightarrow> pool_wf P \<and> (\<forall>a \<in> set (free_list P) \<union> set (inuse_list P). buf_sat roomy P a)"

definition rinv :: "('th, 'lp, 'n) rstate \<Rightarrow> bool" where
  "rinv st \<longleftrightarrow> pool_ok (pool st) \<and> netdev_wf (nd st) \<and> devs_ok (nd st) \<and>
     distinct (queued st) \<and> set (queued st) \<subseteq> set (inuse_list (pool st))"

text \<open>What never changes about a device while packets are processed.\<close>

definition dev_static :: "'th ifnet \<Rightarrow> 'th ifnet" where
  "dev_static d = d\<lparr>arp_map := None, egress_queue := empty_queue\<rparr>"

definition same_net :: "'th netdev \<Rightarrow> 'th netdev \<Rightarrow> bool" where
  "same_net n n' \<longleftrightarrow> netdev_list n' = netdev_list n \<and> ifnet_map n' = ifnet_map n \<and>
     next_if_idx n' = next_if_idx n \<and> (\<forall>p. map_option dev_static (ifs n' p) = map_option dev_static (ifs n p))"

definition eff :: "nat set \<Rightarrow> nat set \<Rightarrow> ('th, 'lp, 'n) rstate \<Rightarrow> ('th, 'lp, 'n) rstate \<Rightarrow> bool" where
  "eff A B st st' \<longleftrightarrow> rinv st' \<and> same_net (nd st) (nd st') \<and> held st' = held st - A \<and>
     (\<forall>a \<in> held st - (A \<union> B). bufs (pool st') a = bufs (pool st) a)"

lemma same_net_refl [simp]: "same_net n n"
  by (simp add: same_net_def)

lemma same_net_trans: "same_net a b \<Longrightarrow> same_net b c \<Longrightarrow> same_net a c"
  by (simp add: same_net_def)

lemma same_net_idx: "same_net n n' \<Longrightarrow> ifnet_getbyidx i n' = ifnet_getbyidx i n"
  by (simp add: same_net_def ifnet_getbyidx_def)

lemma same_net_list: "same_net n n' \<Longrightarrow> netdev_list n' = netdev_list n"
  by (simp add: same_net_def)

lemma eff_refl: "rinv st \<Longrightarrow> eff {} {} st st"
  by (simp add: eff_def)

lemma eff_trans:
  assumes "eff A B st st1" "eff A' B' st1 st2"
  shows "eff (A \<union> A') (B \<union> B') st st2"
  using assms unfolding eff_def by (auto intro: same_net_trans)

lemma eff_mono: "eff A B st st' \<Longrightarrow> B \<subseteq> B' \<Longrightarrow> eff A B' st st'"
  by (auto simp: eff_def)

lemma eff_rinv: "eff A B st st' \<Longrightarrow> rinv st'"
  by (simp add: eff_def)

lemma eff_held: "eff A B st st' \<Longrightarrow> held st' = held st - A"
  by (simp add: eff_def)

lemma eff_bufs: "eff A B st st' \<Longrightarrow> a \<in> held st \<Longrightarrow> a \<notin> A \<Longrightarrow> a \<notin> B \<Longrightarrow> bufs (pool st') a = bufs (pool st) a"
  by (simp add: eff_def)

lemma eff_idx: "eff A B st st' \<Longrightarrow> ifnet_getbyidx i (nd st') = ifnet_getbyidx i (nd st)"
  by (simp add: eff_def same_net_idx)

lemma eff_list: "eff A B st st' \<Longrightarrow> netdev_list (nd st') = netdev_list (nd st)"
  by (simp add: eff_def same_net_list)

section \<open>Lookups under the invariant\<close>

lemma rinv_dev:
  assumes "rinv st" "p \<in> set (netdev_list (nd st))"
  obtains d where "get_dev p st = Inr d" "ifs (nd st) p = Some d" "dev_ok d"
proof -
  from assms have "case ifs (nd st) p of None \<Rightarrow> False | Some d \<Rightarrow> dev_ok d"
    by (simp add: rinv_def devs_ok_def)
  then show thesis using that by (auto simp: get_dev_def split: option.splits)
qed

lemma getbyidx_in_list:
  assumes "netdev_wf n" "ifnet_getbyidx i n = Some p"
  shows "p \<in> set (netdev_list n)" "1 \<le> i" "i \<le> ifnet_dev_count n"
proof -
  have i: "1 \<le> i" "i < next_if_idx n" "ifnet_map n ! (i - 1) = Some p"
    using assms(2) by (auto simp: ifnet_getbyidx_def split: if_splits)
  then have "i - 1 < length (netdev_list n)" using netdev_wf_length [OF assms(1)] by simp
  then have "ifnet_getbyidx (i - 1 + 1) n = Some (rev (netdev_list n) ! (i - 1))"
    by (rule netdev_wf_lookup(1) [OF assms(1)])
  then have "p = rev (netdev_list n) ! (i - 1)" using assms(2) i(1) by simp
  then show "p \<in> set (netdev_list n)"
    using \<open>i - 1 < length (netdev_list n)\<close> nth_mem [of "i - 1" "rev (netdev_list n)"] by simp
  show "1 \<le> i" "i \<le> ifnet_dev_count n" using i by (simp_all add: ifnet_dev_count_def)
qed

lemma rinv_getbyidx:
  assumes "rinv st" "ifnet_getbyidx i (nd st) = Some p"
  obtains d where "get_dev p st = Inr d" "ifs (nd st) p = Some d" "dev_ok d" "p \<in> set (netdev_list (nd st))"
  using assms getbyidx_in_list(1) [of "nd st" i p] rinv_dev [of st p] by (auto simp: rinv_def)

lemma rinv_buf:
  assumes "rinv st" "a \<in> held st"
  obtains eb where "get_eb a st = Inr eb" "bufs (pool st) a = Some eb" "buf_ready eb" "roomy eb"
proof -
  have a: "a \<in> set (free_list (pool st)) \<union> set (inuse_list (pool st))"
    using assms(2) by (simp add: held_def)
  from assms(1) have "pool_wf (pool st)" "buf_sat roomy (pool st) a"
    using a by (auto simp: rinv_def pool_ok_def)
  with a show thesis
    using that by (metis buf_satE get_eb_def option.inject option.simps(5) pool_wf_buf)
qed

section \<open>Basic steps\<close>

lemma queued_simps [simp]:
  "queued (st\<lparr>pool := P\<rparr>) = queued st" "queued (st\<lparr>npfst := n\<rparr>) = queued st"
  "queued (st\<lparr>notified := l\<rparr>) = queued st" "queued (set_eb a eb st) = queued st"
  by (simp_all add: queued_def set_eb_def)

lemma rinv_notified [simp]: "rinv (st\<lparr>notified := l\<rparr>) = rinv st"
  by (simp add: rinv_def)

lemma held_notified [simp]: "held (st\<lparr>notified := l\<rparr>) = held st"
  by (simp add: held_def)

lemma eff_notified [simp]: "eff A B st (st'\<lparr>notified := l\<rparr>) = eff A B st st'"
  by (simp add: eff_def)

lemma rinv_pool:
  assumes "rinv st" "pool_ok P" "set (queued st) \<subseteq> set (inuse_list P)"
  shows "rinv (st\<lparr>pool := P\<rparr>)"
  using assms by (simp add: rinv_def)

lemma pool_ok_free_buf:
  assumes "pool_ok P" "a \<in> set (inuse_list P)"
  obtains P' where "bstgw_ethpool_buf_free a P = Inr P'" "pool_ok P'"
    "set (inuse_list P') = set (inuse_list P) - {a}" "\<And>b. b \<noteq> a \<Longrightarrow> bufs P' b = bufs P b"
proof -
  have wf: "pool_wf P" and rm: "\<And>b. b \<in> set (free_list P) \<union> set (inuse_list P) \<Longrightarrow> buf_sat roomy P b"
    using assms(1) by (auto simp: pool_ok_def)
  obtain P' where P': "bstgw_ethpool_buf_free a P = Inr P'" "pool_wf P'"
    "set (free_list P') = insert a (set (free_list P))" "set (inuse_list P') = set (inuse_list P) - {a}"
    "\<And>b. b \<noteq> a \<Longrightarrow> bufs P' b = bufs P b"
    using pool_wf_free_buf [OF wf assms(2)] by blast
  have "buf_sat roomy P' a"
    using P'(1) rm [of a] assms(2)
    by (auto simp: bstgw_ethpool_buf_free_def bstgw_ethpool_buf_reset_def list_remove_def buf_sat_def
        roomy_def bind_res_Inr_iff split: option.splits if_splits)
  then have "\<forall>b \<in> set (free_list P') \<union> set (inuse_list P'). buf_sat roomy P' b"
    using rm P'(3,4,5) unfolding buf_sat_def by (metis Diff_iff Un_iff insert_iff)
  then show thesis using that P' by (simp add: pool_ok_def)
qed

lemma free_buf_eff:
  assumes "rinv st" "a \<in> held st"
  obtains st' where "free_buf a st = Inr st'" "eff {a} {} st st'"
proof -
  have ok: "pool_ok (pool st)" and a: "a \<in> set (inuse_list (pool st))" "a \<notin> set (queued st)"
    using assms by (auto simp: rinv_def held_def)
  from pool_ok_free_buf [OF ok a(1)] obtain P' where P': "bstgw_ethpool_buf_free a (pool st) = Inr P'"
    "pool_ok P'" "set (inuse_list P') = set (inuse_list (pool st)) - {a}"
    "\<And>b. b \<noteq> a \<Longrightarrow> bufs P' b = bufs (pool st) b" by blast
  have "rinv (st\<lparr>pool := P'\<rparr>)"
    by (rule rinv_pool) (use assms P' a in \<open>auto simp: rinv_def\<close>)
  then have "eff {a} {} st (st\<lparr>pool := P'\<rparr>)"
    using P' by (auto simp: eff_def held_def)
  with P'(1) that show thesis by (simp add: free_buf_def)
qed

lemma free_bufs_eff:
  assumes "rinv st" "distinct as" "set as \<subseteq> held st"
  shows "\<exists>st'. free_bufs as st = Inr st' \<and> eff (set as) {} st st'"
  using assms
proof (induction as arbitrary: st)
  case Nil
  then show ?case by (simp add: eff_refl)
next
  case (Cons a as)
  from Cons.prems(3) have "a \<in> held st" by simp
  from free_buf_eff [OF Cons.prems(1) this] obtain st1 where
    st1: "free_buf a st = Inr st1" "eff {a} {} st st1" by blast
  have "set as \<subseteq> held st1" using Cons.prems eff_held [OF st1(2)] by auto
  from Cons.IH [OF eff_rinv [OF st1(2)] _ this] Cons.prems(2) obtain st2 where
    st2: "free_bufs as st1 = Inr st2" "eff (set as) {} st1 st2" by auto
  with st1 eff_trans [OF st1(2) st2(2)] show ?case by simp
qed

lemma set_eb_eff:
  assumes "rinv st" "a \<in> held st" "buf_ready eb" "roomy eb"
  shows "eff {} {a} st (set_eb a eb st)"
proof -
  let ?P = "(pool st)\<lparr>bufs := (bufs (pool st))(a \<mapsto> eb)\<rparr>"
  have sat: "buf_sat Q ?P b \<longleftrightarrow> (if b = a then Q eb else buf_sat Q (pool st) b)" for Q b
    by (simp add: buf_sat_def)
  have a: "a \<in> set (inuse_list (pool st))" "a \<notin> set (free_list (pool st))"
    "a \<in> dom (bufs (pool st))"
    using assms(1,2) by (auto simp: held_def rinv_def pool_ok_def pool_wf_def pool_core_def)
      (metis domIff option.distinct(1) rinv_buf [OF assms(1,2)])
  have "pool_ok ?P"
    using assms a unfolding rinv_def pool_ok_def pool_wf_def pool_core_def sat by auto
  with assms(1) have "rinv (set_eb a eb st)"
    unfolding set_eb_def by (intro rinv_pool) (auto simp: rinv_def)
  then show ?thesis by (auto simp: eff_def held_def set_eb_def)
qed

lemma heap_alloc_eff:
  assumes "rinv st" "heap_alloc st = (ok, st')"
  shows "eff {} {} st st'"
proof -
  have "pool_ok ((pool st)\<lparr>clk := k\<rparr>)" for k
    using assms(1) by (simp add: rinv_def pool_ok_def pool_wf_def pool_core_def buf_sat_def)
  then show ?thesis
    using assms by (auto simp: heap_alloc_def eff_def held_def intro!: rinv_pool) (auto simp: rinv_def)
qed

section \<open>Devices and queues\<close>

lemma dev_queue_set_dev:
  "dev_queue (nd (set_dev p d st)) = (dev_queue (nd st))(p := pktq_list (egress_queue d))"
  by (auto simp: dev_queue_def set_dev_def)

lemma concat_map_upd:
  assumes "distinct xs" "p \<in> set xs"
  shows "mset (concat (map (f(p := v)) xs)) + mset (f p) = mset (concat (map f xs)) + mset v"
proof -
  from assms(2) obtain ys zs where xs: "xs = ys @ p # zs" by (auto dest: split_list)
  with assms(1) have "map (f(p := v)) ys = map f ys" "map (f(p := v)) zs = map f zs" by auto
  then have "concat (map (f(p := v)) xs) = concat (map f ys) @ v @ concat (map f zs)"
    unfolding xs by (simp del: map_eq_conv)
  then show ?thesis by (simp add: xs)
qed

lemma queued_set_dev:
  assumes "rinv st" "p \<in> set (netdev_list (nd st))" "ifs (nd st) p = Some d"
  shows "mset (queued (set_dev p d' st)) + mset (pktq_list (egress_queue d)) =
    mset (queued st) + mset (pktq_list (egress_queue d'))"
proof -
  have "distinct (netdev_list (nd st))" using assms(1) by (simp add: rinv_def netdev_wf_def)
  from concat_map_upd [OF this assms(2), of "dev_queue (nd st)" "pktq_list (egress_queue d')"]
  show ?thesis using assms(3)
    by (simp add: queued_def dev_queue_set_dev) (simp add: dev_queue_def set_dev_def)
qed

lemma dev_static_idx: "dev_static d' = dev_static d \<Longrightarrow> ifnet_idx d' = ifnet_idx d"
  unfolding dev_static_def by (drule arg_cong [of _ _ ifnet_idx]) simp

lemma set_dev_rinv:
  assumes "rinv st" "p \<in> set (netdev_list (nd st))" "ifs (nd st) p = Some d"
    "dev_ok d'" "dev_static d' = dev_static d" "pktq_list (egress_queue d') = pktq_list (egress_queue d) @ ms"
    "distinct ms" "set ms \<subseteq> held st"
  shows "rinv (set_dev p d' st)" "set (queued (set_dev p d' st)) = set (queued st) \<union> set ms"
proof -
  have m: "mset (queued (set_dev p d' st)) = mset (queued st) + mset ms"
    using queued_set_dev [OF assms(1,2,3), of d'] assms(6) by simp
  then have m': "mset (queued (set_dev p d' st)) = mset (queued st @ ms)" by simp
  have di: "distinct (queued st @ ms)" "set (queued st) \<subseteq> set (inuse_list (pool st))"
    using assms(1,7,8) by (auto simp: rinv_def held_def)
  have "distinct (queued (set_dev p d' st))"
    using di(1) mset_eq_imp_distinct_iff [OF m'] by simp
  moreover show s: "set (queued (set_dev p d' st)) = set (queued st) \<union> set ms"
    using mset_eq_setD [OF m'] by simp
  moreover have "ifnet_idx d' = ifnet_idx d" by (rule dev_static_idx [OF assms(5)])
  then have "netdev_wf (nd (set_dev p d' st))"
    using assms(1,3) by (auto simp: rinv_def netdev_wf_def set_dev_def)
  moreover have "devs_ok (nd (set_dev p d' st))"
    using assms(1,4) by (auto simp: rinv_def devs_ok_def set_dev_def)
  ultimately show "rinv (set_dev p d' st)"
    using assms(1,8) di by (auto simp: rinv_def held_def set_dev_def)
qed

lemma set_dev_eff:
  assumes "rinv st" "p \<in> set (netdev_list (nd st))" "ifs (nd st) p = Some d"
    "dev_ok d'" "dev_static d' = dev_static d" "pktq_list (egress_queue d') = pktq_list (egress_queue d) @ ms"
    "distinct ms" "set ms \<subseteq> held st"
  shows "eff (set ms) {} st (set_dev p d' st)"
  using set_dev_rinv [OF assms] assms(3,5)
  by (auto simp: eff_def held_def) (auto simp: set_dev_def same_net_def)

lemma arp_cache_eff:
  assumes "rinv st" "p \<in> set (netdev_list (nd st))"
  obtains st' where "arp_cache x p ip hw new st = Inr st'" "eff {} {} st st'"
proof -
  from rinv_dev [OF assms] obtain d where d: "get_dev p st = Inr d" "ifs (nd st) p = Some d" "dev_ok d" by blast
  then obtain t where t: "arp_map d = Some t" by (auto simp: dev_ok_def)
  obtain ok st1 where h: "heap_alloc st = (ok, st1)" by (cases "heap_alloc st")
  from heap_alloc_eff [OF assms(1) this] have e1: "eff {} {} st st1" .
  from h have nd: "nd st1 = nd st" by (auto simp: heap_alloc_def)
  let ?d' = "d\<lparr>arp_map := Some (fst (th_put x t ip hw))\<rparr>"
  have "dev_ok ?d'" "dev_static ?d' = dev_static d" using d(3) by (simp_all add: dev_ok_def dev_static_def)
  then have "eff (set []) {} st1 (set_dev p ?d' st1)"
    using assms d(2) by (intro set_dev_eff [OF eff_rinv [OF e1], where d = d]) (simp_all add: nd)
  from eff_trans [OF e1 this] have e2: "eff {} {} st (set_dev p ?d' st1)" by simp
  show thesis
    using that e1 e2 eff_refl [OF assms(1)] d(1) t h
    by (cases "th_get x t ip \<noteq> None"; cases new; cases ok) (auto simp: arp_cache_def)
qed

lemma arp_cache_lookup_ok:
  assumes "rinv st" "p \<in> set (netdev_list (nd st))"
  obtains t where "arp_cache_lookup x p ip st = Inr (th_get x t ip)"
proof -
  from rinv_dev [OF assms] obtain d where "get_dev p st = Inr d" "dev_ok d" by blast
  moreover then obtain t where "arp_map d = Some t" by (auto simp: dev_ok_def)
  ultimately show thesis using that [of t] by (simp add: arp_cache_lookup_def)
qed

lemma menqueue_eff:
  assumes "rinv st" "ifnet_getbyidx i (nd st) = Some p" "net_if \<in> set (netdev_list (nd st))"
    "distinct ms" "set ms \<subseteq> held st"
  obtains r st' where "pktq_do_menqueue net_if i ms st = Inr (r, st')" "0 \<le> r" "eff (set ms) {} st st'"
proof (cases "ms = []")
  case True
  then show ?thesis using that eff_refl [OF assms(1)] by (simp add: pktq_do_menqueue_def)
next
  case False
  from rinv_getbyidx [OF assms(1,2)] obtain d where d: "get_dev p st = Inr d" "ifs (nd st) p = Some d"
    "dev_ok d" "p \<in> set (netdev_list (nd st))" by blast
  let ?n = "min (length ms) (pktq_room (egress_queue d))"
  from bulk_add_spec [of "egress_queue d" ms] d(3) obtain q where
    q: "bstgw_pktq_locked_bulk_add_buff (egress_queue d) ms = Inr (q, ?n)" "pktq_wf q"
      "pktq_list q = pktq_list (egress_queue d) @ take ?n ms" "pq_capacity q = pq_capacity (egress_queue d)"
    by (auto simp: dev_ok_def min_def)
  let ?st1 = "set_dev p (d\<lparr>egress_queue := q\<rparr>) st"
  have sub: "set (take ?n ms) \<subseteq> held st" "set (drop ?n ms) \<subseteq> held st" "distinct (take ?n ms)"
    using assms(4,5) by (meson distinct_take set_drop_subset set_take_subset subset_trans)+
  have ms: "set (take ?n ms) \<inter> set (drop ?n ms) = {}"
    "set (take ?n ms) \<union> set (drop ?n ms) = set ms"
    using assms(4) by (metis append_take_drop_id distinct_append, metis append_take_drop_id set_append)
  have e1: "eff (set (take ?n ms)) {} st ?st1"
    using assms(1) d q sub by (intro set_dev_eff [where d = d]) (auto simp: dev_ok_def dev_static_def)
  have "\<exists>st2. free_bufs (drop ?n ms) ?st1 = Inr st2 \<and> eff (set (drop ?n ms)) {} ?st1 st2"
    using sub(2) ms(1) eff_held [OF e1] assms(4) by (intro free_bufs_eff [OF eff_rinv [OF e1]]) auto
  then obtain st2 where st2: "free_bufs (drop ?n ms) ?st1 = Inr st2" "eff (set (drop ?n ms)) {} ?st1 st2"
    by blast
  from eff_trans [OF e1 st2(2)] ms(2) have e2: "eff (set ms) {} st st2" by simp
  have "net_if \<in> set (netdev_list (nd st2))" using e2 assms(3) by (simp add: eff_def same_net_def)
  from rinv_dev [OF eff_rinv [OF e2] this] obtain own where "get_dev net_if st2 = Inr own" by blast
  then show ?thesis
    using that e2 st2(1) q(1) d(1) assms(2) False
    by (cases "?n = 0") (auto simp: pktq_do_menqueue_def Let_def)
qed

section \<open>ARP requests and output\<close>

lemma alloc_buf_cases:
  assumes "rinv st"
  shows "bstgw_ethpool_buf_alloc (pool st) = Inl Panic \<or>
     (\<exists>m P eb. bstgw_ethpool_buf_alloc (pool st) = Inr (m, P) \<and> rinv (st\<lparr>pool := P\<rparr>) \<and>
        m \<notin> set (inuse_list (pool st)) \<and> set (inuse_list P) = insert m (set (inuse_list (pool st))) \<and>
        bufs P = bufs (pool st) \<and> bufs P m = Some eb \<and> buf_ready eb \<and> buf_clean eb \<and> roomy eb)"
proof (cases "free_list (pool st)")
  case Nil
  then show ?thesis by (simp add: bstgw_ethpool_buf_alloc_def)
next
  case (Cons m rest)
  let ?P = "(pool st)\<lparr>free_list := rest, inuse_list := m # inuse_list (pool st)\<rparr>"
  have ok: "pool_wf (pool st)" "pool_ok (pool st)" using assms by (auto simp: rinv_def pool_ok_def)
  note a = pool_wf_alloc_buf [OF ok(1) Cons]
  have m: "m \<notin> set (inuse_list (pool st))" "buf_sat buf_ready (pool st) m" "buf_sat buf_clean (pool st) m"
    "buf_sat roomy (pool st) m"
    using ok Cons by (auto simp: pool_ok_def pool_wf_def pool_core_def)
  have "pool_ok ?P" using a(2) ok(2) Cons by (simp add: pool_ok_def buf_sat_def)
  then have "rinv (st\<lparr>pool := ?P\<rparr>)" using assms by (intro rinv_pool) (auto simp: rinv_def)
  with a(1) m show ?thesis by (auto simp: buf_sat_def split: option.splits)
qed

lemma length_hdrs [simp]:
  "length (eth_hdr d s t) = length d + length s + length t"
  "length (arp_hdr op sha sip tha tip) = 6 + length op + length sha + length sip + length tha + length tip"
  by (simp_all add: eth_hdr_def arp_hdr_def)

definition arp_request_frame :: "ether_addr \<Rightarrow> byte list \<Rightarrow> byte list \<Rightarrow> byte list" where
  "arp_request_frame hw src target =
     eth_hdr (replicate 6 0xff) hw RTE_ETHER_TYPE_ARP @ arp_hdr [0, 1] hw src (replicate 6 0xff) target"

lemma arp_request_spec:
  assumes "rinv st" "length hw = 6" "length src = 4" "length target = 4"
  shows "safe (arp_request hw src target st) (\<lambda>(m, st1). rinv st1 \<and> m \<notin> set (inuse_list (pool st)) \<and>
     held st1 = insert m (held st) \<and> same_net (nd st) (nd st1) \<and>
     (\<forall>a \<in> held st. bufs (pool st1) a = bufs (pool st) a) \<and>
     (\<exists>eb. bufs (pool st1) m = Some eb \<and> mp_flags (priv_data eb) = 0 \<and> eb_data eb = arp_request_frame hw src target))"
  using alloc_buf_cases [OF assms(1)]
proof (elim disjE exE conjE)
  assume "bstgw_ethpool_buf_alloc (pool st) = Inl Panic"
  then show ?thesis by (simp add: arp_request_def)
next
  fix m P eb
  assume al: "bstgw_ethpool_buf_alloc (pool st) = Inr (m, P)" "rinv (st\<lparr>pool := P\<rparr>)"
    "m \<notin> set (inuse_list (pool st))" "set (inuse_list P) = insert m (set (inuse_list (pool st)))"
    "bufs P = bufs (pool st)" "bufs P m = Some eb" "buf_ready eb" "buf_clean eb" "roomy eb"
  let ?h = "eth_hdr (replicate 6 0xff) hw [0x08, 0x06]"
  let ?a = "arp_hdr [0, 1] hw src (replicate 6 0xff) target"
  let ?eb = "eb\<lparr>l2_len := 14, l3_len := 28, data_len := 42, buf := blit (blit (buf eb) 0 ?h) 14 ?a\<rparr>"
  have cap: "64 \<le> buf_cap eb" "data_off eb = 0" "mp_flags (priv_data eb) = 0"
    using al by (auto simp: roomy_def buf_clean_def)
  have eq: "arp_request hw src target st = Inr (m, set_eb m ?eb (st\<lparr>pool := P\<rparr>))"
    using al assms(2-4) cap
    by (simp add: arp_request_def get_eb_def poke_def bstgw_ethbuf_head_def bstgw_ethbuf_data_ptr_def)
  have m: "m \<in> held (st\<lparr>pool := P\<rparr>)" using al(3,4) assms(1) by (auto simp: held_def rinv_def)
  have len: "length ?h = 14" "length ?a = 28" using assms(2-4) by simp_all
  have "buf_ready ?eb" "roomy ?eb" using al(7,9) cap len by (auto simp: buf_ready_def eb_wf_def roomy_def)
  from set_eb_eff [OF al(2) m this] have e: "eff {} {m} (st\<lparr>pool := P\<rparr>) (set_eb m ?eb (st\<lparr>pool := P\<rparr>))" .
  have h: "held (st\<lparr>pool := P\<rparr>) = insert m (held st)"
    using al(3,4) assms(1) by (auto simp: held_def rinv_def)
  have "eb_data ?eb = arp_request_frame hw src target"
    using cap len blit_append [of 0 ?h ?a "buf eb"]
    by (simp add: eb_data_def arp_request_frame_def RTE_ETHER_TYPE_ARP_def del: length_hdrs)
  then show ?thesis
    unfolding eq using e h al(3,5) cap(3) by (auto simp: eff_def set_eb_def held_def)
qed

text \<open>A packet that needs no layer-2 header, such as an ARP packet, is queued or dropped, never returned.\<close>

definition needs_l2 :: "ethbuf \<Rightarrow> bool" where
  "needs_l2 eb \<longleftrightarrow> mp_flags (priv_data eb) AND MBUF_NPF_NEED_L2 \<noteq> 0"

lemma set_priv_eff:
  assumes "rinv st" "m \<in> held st" "bufs (pool st) m = Some eb"
  shows "eff {} {m} st (set_eb m (eb\<lparr>priv_data := pd\<rparr>) st)"
proof -
  from rinv_buf [OF assms(1,2)] assms(3) have "buf_ready eb" "roomy eb" by auto
  then show ?thesis using assms(1,2) by (intro set_eb_eff) (simp_all add: buf_ready_def eb_wf_def roomy_def)
qed

lemma enqueue_plain:
  assumes "rinv st" "m \<in> held st" "bufs (pool st) m = Some eb" "\<not> needs_l2 eb"
    "ifnet_getbyidx i (nd st) = Some p" "net_if \<in> set (netdev_list (nd st))"
  obtains st' where "pktq_enqueue_with res net_if i m st = Inr (0, st')" "eff {m} {} st st'"
proof -
  let ?st1 = "set_eb m (eb\<lparr>priv_data := (priv_data eb)\<lparr>mp_out_if_idx := i\<rparr>\<rparr>) st"
  have e1: "eff {} {m} st ?st1" by (rule set_priv_eff [OF assms(1-3)])
  have prep: "pktq_prepare_enqueue_with res i m st = Inr (0, ?st1)"
    using assms(3-5)
    by (simp add: pktq_prepare_enqueue_with_def router_if_output_with_def get_eb_def needs_l2_def)
  have *: "ifnet_getbyidx i (nd ?st1) = Some p" "net_if \<in> set (netdev_list (nd ?st1))" "set [m] \<subseteq> held ?st1"
    using assms(2,5,6) eff_held [OF e1] by (simp_all add: set_eb_def)
  obtain r st2 where st2: "pktq_do_menqueue net_if i [m] ?st1 = Inr (r, st2)" "0 \<le> r" "eff {m} {} ?st1 st2"
    using menqueue_eff [OF eff_rinv [OF e1] *(1,2) _ *(3)] by auto
  have "eff {m} {} st st2"
    using eff_trans [OF e1 st2(3)] by (auto simp: eff_def)
  then show thesis using that prep st2 by (simp add: pktq_enqueue_with_def)
qed

text \<open>
  What the external maps are relied on for: a cache entry is a hardware address, and a route with an
  address holds an IPv4 one.
\<close>

definition route_ok :: "route_info \<Rightarrow> bool" where
  "route_ok rt \<longleftrightarrow> length (rt_next_hop rt) = 4"

definition th_typed :: "('th, 'lp, 'n) ext \<Rightarrow> bool" where
  "th_typed x \<longleftrightarrow> (\<forall>t k hw. th_get x t k = Some hw \<longrightarrow> length hw = 6)"

definition lpm_typed :: "('th, 'lp, 'n) ext \<Rightarrow> bool" where
  "lpm_typed x \<longleftrightarrow> (\<forall>t k rt. lpm_lookup x t k = Some rt \<longrightarrow> rt_addr_len rt \<noteq> 0 \<longrightarrow> length (rt_next_hop rt) = 4)"

definition resolves :: "(route_info \<Rightarrow> ('th, 'lp, 'n) rstate \<Rightarrow> (ether_addr option \<times> ('th, 'lp, 'n) rstate) res) \<Rightarrow> nat \<Rightarrow> bool" where
  "resolves res net_if \<longleftrightarrow> (\<forall>rt st. rinv st \<longrightarrow> net_if \<in> set (netdev_list (nd st)) \<longrightarrow> route_ok rt \<longrightarrow>
     safe (res rt st) (\<lambda>(hw, st'). eff {} {} st st' \<and> (\<forall>h. hw = Some h \<longrightarrow> length h = 6)))"

lemma arp_ask_safe:
  fixes st :: "('th, 'lp, 'n) rstate"
  assumes "rinv st" "net_if \<in> set (netdev_list (nd st))" "ifnet_getbyidx i (nd st) = Some p"
    "length hw = 6" "length src = 4" "length target = 4"
  shows "safe (bind_res (arp_request hw src target st) (\<lambda>(m, st1).
      bind_res (pktq_enqueue_with res net_if i m st1) (\<lambda>(r, st2). Inr (None, st2))))
    (\<lambda>(h, st'). eff {} {} st st' \<and> h = None)"
proof (rule safe_bind [OF arp_request_spec [OF assms(1,4,5,6)]], clarify)
  fix m eb and st1 :: "('th, 'lp, 'n) rstate"
  assume st1: "m \<notin> set (inuse_list (pool st))" "rinv st1" "held st1 = insert m (held st)"
    "same_net (nd st) (nd st1)" "\<forall>a \<in> held st. bufs (pool st1) a = bufs (pool st) a"
    "bufs (pool st1) m = Some eb" "mp_flags (priv_data eb) = 0"
  have new: "m \<notin> held st" using st1(1) by (simp add: held_def)
  have "ifnet_getbyidx i (nd st1) = Some p" "net_if \<in> set (netdev_list (nd st1))"
    using same_net_idx [OF st1(4)] same_net_list [OF st1(4)] assms(2,3) by simp_all
  with st1 obtain st2 where st2: "pktq_enqueue_with res net_if i m st1 = Inr (0, st2)" "eff {m} {} st1 st2"
    using enqueue_plain [of st1 m eb i p net_if res thesis] by (auto simp: needs_l2_def)
  have "eff {} {} st st2"
    using st2(2) st1 new by (auto simp: eff_def intro: same_net_trans)
  with st2(1) show "safe (bind_res (pktq_enqueue_with res net_if i m st1) (\<lambda>(r, st2). Inr (None, st2)))
     (\<lambda>(h, st'). eff {} {} st st' \<and> h = None)" by simp
qed

lemma arp_resolve_depth_resolves:
  fixes x :: "('th, 'lp, 'n) ext"
  assumes "th_typed x"
  shows "resolves (arp_resolve_depth (Suc k) x net_if) net_if"
  unfolding resolves_def
proof (intro allI impI)
  fix rt and st :: "('th, 'lp, 'n) rstate"
  assume st: "rinv st" "net_if \<in> set (netdev_list (nd st))" "route_ok rt"
  show "safe (arp_resolve_depth (Suc k) x net_if rt st)
    (\<lambda>(hw, st'). eff {} {} st st' \<and> (\<forall>h. hw = Some h \<longrightarrow> length h = 6))"
  proof (cases "ifnet_getbyidx (rt_if_idx rt) (nd st)")
    case None
    then show ?thesis using eff_refl [OF st(1)] by simp
  next
    case (Some p)
    from rinv_getbyidx [OF st(1) Some] obtain d where d: "get_dev p st = Inr d" "dev_ok d"
      "p \<in> set (netdev_list (nd st))" by blast
    from arp_cache_lookup_ok [OF st(1) d(3)] obtain t where
      l: "arp_cache_lookup x p (rt_next_hop rt) st = Inr (th_get x t (rt_next_hop rt))" by blast
    let ?i = "rt_if_addr_idx rt"
    have ask: "safe (bind_res (arp_request (hwaddr d) (if_ips d ! ?i) (rt_next_hop rt) st) (\<lambda>(m, st1).
        bind_res (pktq_enqueue_with (arp_resolve_depth k x net_if) net_if (rt_if_idx rt) m st1) (\<lambda>(r, st2). Inr (None, st2))))
      (\<lambda>(h, st'). eff {} {} st st' \<and> h = None)" if "?i < ips_cnt d"
      using that d(2) st(3)
      by (intro arp_ask_safe [OF st(1,2) Some]) (auto simp: dev_ok_def route_ok_def list_all_length)
    show ?thesis
    proof (cases "th_get x t (rt_next_hop rt)")
      case None
      show ?thesis
      proof (cases "?i < ips_cnt d")
        case True
        with d(2) have "?i < length (if_ips d)" by (simp add: dev_ok_def)
        then have "arp_resolve_depth (Suc k) x net_if rt st =
          bind_res (arp_request (hwaddr d) (if_ips d ! ?i) (rt_next_hop rt) st) (\<lambda>(m, st1).
            bind_res (pktq_enqueue_with (arp_resolve_depth k x net_if) net_if (rt_if_idx rt) m st1) (\<lambda>(r, st2). Inr (None, st2)))"
          using l d(1) Some None True by simp
        then show ?thesis by (simp only:) (rule safe_mono [OF ask [OF True]], auto)
      next
        case False
        then show ?thesis using l d(1) Some None by simp
      qed
    next
      case (Some hw)
      then show ?thesis using \<open>ifnet_getbyidx (rt_if_idx rt) (nd st) = Some p\<close> l assms eff_refl [OF st(1)]
        by (auto simp: th_typed_def)
    qed
  qed
qed

corollary arp_resolve_resolves: "th_typed x \<Longrightarrow> resolves (arp_resolve x net_if) net_if"
  using arp_resolve_depth_resolves [of x 1 net_if]
  by (simp add: arp_resolve_def [abs_def] ARP_DEPTH_def numeral_2_eq_2 del: arp_resolve_depth.simps)

section \<open>Output of IP packets\<close>

text \<open>The three writes of an Ethernet header in front of a packet.\<close>

lemma write_eth_hdr:
  fixes b :: "byte list"
  assumes "length s = 6" "length d = 6" "length t = 2" "eh + 14 \<le> length b"
  defines "B \<equiv> blit (blit (blit b (eh + 6) s) eh d) (eh + 12) t"
  shows "length B = length b" "slice B eh 14 = eth_hdr d s t" "slice B (eh + 14) n = slice b (eh + 14) n"
proof -
  show "length B = length b" using assms by simp
  have "slice B eh 6 = d" "slice B (eh + 6) 6 = s" "slice B (eh + 12) 2 = t"
    using assms(1-4) by (simp_all add: B_def slice_blit_before slice_blit_after)
  moreover have "slice B eh 14 = slice B eh 6 @ slice B (eh + 6) 6 @ slice B (eh + 12) 2"
    using slice_append [of B eh 6 8] slice_append [of B "eh + 6" 6 2] by (simp add: add.commute)
  ultimately show "slice B eh 14 = eth_hdr d s t" by (simp add: eth_hdr_def)
  show "slice B (eh + 14) n = slice b (eh + 14) n"
    using assms(1-4) by (simp add: B_def slice_blit_after)
qed

text \<open>An IP packet on its way out: header cut off, room for a new one, route attached.\<close>

definition ip_ready :: "ethbuf \<Rightarrow> bool" where
  "ip_ready eb \<longleftrightarrow> needs_l2 eb \<and> l2_len eb = RTE_ETHER_HDR_LEN \<and> RTE_ETHER_HDR_LEN \<le> data_off eb \<and>
     20 \<le> data_len eb \<and> length (mp_ether_type (priv_data eb)) = 2"

lemma ip_ready_off:
  assumes "ip_ready eb"
  obtains k where "data_off eb = k + 14"
  using that [of "data_off eb - 14"] assms by (simp add: ip_ready_def)

definition framed :: "ethbuf \<Rightarrow> ether_addr \<Rightarrow> ether_addr \<Rightarrow> ethbuf" where
  "framed eb d s = eb\<lparr>data_off := data_off eb - 14, data_len := data_len eb + 14,
     buf := blit (blit (blit (buf eb) (data_off eb - 8) s) (data_off eb - 14) d) (data_off eb - 2)
       (mp_ether_type (priv_data eb))\<rparr>"

lemma framed_data:
  assumes "ip_ready eb" "buf_ready eb" "roomy eb" "length d = 6" "length s = 6"
  shows "buf_ready (framed eb d s)" "roomy (framed eb d s)"
    "eb_data (framed eb d s) = eth_hdr d s (mp_ether_type (priv_data eb)) @ eb_data eb"
    "priv_data (framed eb d s) = priv_data eb" "l2_len (framed eb d s) = l2_len eb"
proof -
  from assms(1) obtain k where k: "data_off eb = k + 14" by (rule ip_ready_off)
  have le: "k + 14 + data_len eb \<le> buf_cap eb" "buf_cap eb < 2 ^ 31"
    using assms(2) k by (auto simp: buf_ready_def eb_wf_def)
  have t: "length (mp_ether_type (priv_data eb)) = 2" using assms(1) by (simp add: ip_ready_def)
  have fr: "framed eb d s = eb\<lparr>data_off := k, data_len := data_len eb + 14,
      buf := blit (blit (blit (buf eb) (k + 6) s) k d) (k + 12) (mp_ether_type (priv_data eb))\<rparr>"
    by (simp add: framed_def k add.commute [of k])
  note w = write_eth_hdr [OF assms(5,4) t, of k "buf eb"]
  show "eb_data (framed eb d s) = eth_hdr d s (mp_ether_type (priv_data eb)) @ eb_data eb"
    using le w slice_append [of "buf (framed eb d s)" k 14 "data_len eb"]
    by (simp add: fr eb_data_def k add.commute [of 14])
  show "buf_ready (framed eb d s)" "roomy (framed eb d s)"
    using assms(2,3) le w(1) by (simp_all add: fr buf_ready_def eb_wf_def roomy_def)
qed (simp_all add: framed_def)

lemma if_output_step:
  assumes "bufs (pool st) m = Some eb" "ip_ready eb" "buf_ready eb" "get_dev out_p st = Inr d" "length (hwaddr d) = 6"
  defines "eb2 \<equiv> eb\<lparr>data_off := data_off eb - 14, data_len := data_len eb + 14,
      buf := blit (buf eb) (data_off eb - 8) (hwaddr d)\<rparr>"
  shows "router_if_output_with res out_p m st = bind_res (res (mp_route (priv_data eb)) (set_eb m eb2 st)) (\<lambda>(hw, st1).
     case hw of None \<Rightarrow> Inr (-1, st1)
     | Some h \<Rightarrow> bind_res (get_eb m st1) (\<lambda>eb3. bind_res (poke eb3 (data_off eb - 14) h) (\<lambda>eb4.
         bind_res (poke eb4 (data_off eb - 2) (mp_ether_type (priv_data eb4))) (\<lambda>eb5. Inr (0, set_eb m eb5 st1)))))"
    and "buf_ready eb2"
    and "roomy eb2 = roomy eb"
proof -
  from assms(2) obtain k where k: "data_off eb = k + 14" by (rule ip_ready_off)
  have le: "k + 14 + data_len eb \<le> buf_cap eb" "buf_cap eb < 2 ^ 31"
    using assms(3) k by (auto simp: buf_ready_def eb_wf_def)
  show "buf_ready eb2" "roomy eb2 = roomy eb"
    using assms(3,5) le by (simp_all add: eb2_def k buf_ready_def eb_wf_def roomy_def)
  have "poke (eb\<lparr>data_off := k, data_len := data_len eb + 14\<rparr>) (k + 6) (hwaddr d) = Inr eb2"
    using assms(5) le by (simp add: poke_def eb2_def k add.commute [of k])
  then show "router_if_output_with res out_p m st = bind_res (res (mp_route (priv_data eb)) (set_eb m eb2 st)) (\<lambda>(hw, st1).
     case hw of None \<Rightarrow> Inr (-1, st1)
     | Some h \<Rightarrow> bind_res (get_eb m st1) (\<lambda>eb3. bind_res (poke eb3 (data_off eb - 14) h) (\<lambda>eb4.
         bind_res (poke eb4 (data_off eb - 2) (mp_ether_type (priv_data eb4))) (\<lambda>eb5. Inr (0, set_eb m eb5 st1)))))"
    using assms(1,2,4) unfolding router_if_output_with_def
    by (simp add: get_eb_def ip_ready_def needs_l2_def bstgw_ethbuf_prepend_def k eb2_def add.commute [of k 12]
        cong: option.case_cong)
qed

lemma if_output_finish:
  assumes "bufs (pool st1) m = Some (eb\<lparr>data_off := data_off eb - 14, data_len := data_len eb + 14,
      buf := blit (buf eb) (data_off eb - 8) s\<rparr>)" "ip_ready eb" "buf_ready eb" "length s = 6" "length h = 6"
  shows "bind_res (get_eb m st1) (\<lambda>eb3. bind_res (poke eb3 (data_off eb - 14) h) (\<lambda>eb4.
         bind_res (poke eb4 (data_off eb - 2) (mp_ether_type (priv_data eb4))) (\<lambda>eb5. Inr (0 :: int, set_eb m eb5 st1)))) =
     Inr (0, set_eb m (framed eb h s) st1)"
proof -
  from assms(2) obtain k where k: "data_off eb = k + 14" by (rule ip_ready_off)
  have le: "k + 14 + data_len eb \<le> buf_cap eb"
    using assms(3) k by (auto simp: buf_ready_def eb_wf_def)
  then show ?thesis
    using assms by (simp add: get_eb_def poke_def k framed_def ip_ready_def)
qed

lemma if_output_safe:
  fixes st :: "('th, 'lp, 'n) rstate"
  assumes "rinv st" "resolves res net_if" "net_if \<in> set (netdev_list (nd st))" "m \<in> held st"
    "bufs (pool st) m = Some eb" "ip_ready eb" "route_ok (mp_route (priv_data eb))" "out_p \<in> set (netdev_list (nd st))"
  shows "safe (router_if_output_with res out_p m st) (\<lambda>(r, st'). eff {} {m} st st' \<and> (r = -1 \<or> r = 0))"
proof -
  from rinv_dev [OF assms(1,8)] obtain d where d: "get_dev out_p st = Inr d" "dev_ok d" by blast
  from rinv_buf [OF assms(1,4)] assms(5) have eb: "buf_ready eb" "roomy eb" by auto
  have hw: "length (hwaddr d) = 6" using d(2) by (simp add: dev_ok_def)
  note st = if_output_step [OF assms(5,6) eb(1) d(1) hw]
  let ?eb2 = "eb\<lparr>data_off := data_off eb - 14, data_len := data_len eb + 14,
      buf := blit (buf eb) (data_off eb - 8) (hwaddr d)\<rparr>"
  let ?st1 = "set_eb m ?eb2 st"
  have e1: "eff {} {m} st ?st1" using st(2,3) eb by (intro set_eb_eff [OF assms(1,4)]) auto
  have r: "safe (res (mp_route (priv_data eb)) ?st1) (\<lambda>(hw, st'). eff {} {} ?st1 st' \<and> (\<forall>h. hw = Some h \<longrightarrow> length h = 6))"
  proof -
    have "net_if \<in> set (netdev_list (nd ?st1))" using assms(3) eff_list [OF e1] by simp
    with assms(2,7) eff_rinv [OF e1] show ?thesis by (simp add: resolves_def)
  qed
  show ?thesis
    unfolding st(1)
  proof (rule safe_bind [OF r], clarify)
    fix h :: "ether_addr option" and st2 :: "('th, 'lp, 'n) rstate"
    assume e2: "eff {} {} ?st1 st2" and h: "\<forall>h'. h = Some h' \<longrightarrow> length h' = 6"
    have e12: "eff {} {m} st st2" using eff_trans [OF e1 e2] by simp
    show "safe (case h of None \<Rightarrow> Inr (-1 :: int, st2)
      | Some h \<Rightarrow> bind_res (get_eb m st2) (\<lambda>eb3. bind_res (poke eb3 (data_off eb - 14) h) (\<lambda>eb4.
         bind_res (poke eb4 (data_off eb - 2) (mp_ether_type (priv_data eb4))) (\<lambda>eb5. Inr (0 :: int, set_eb m eb5 st2)))))
      (\<lambda>(r, st'). eff {} {m} st st' \<and> (r = -1 \<or> r = 0))"
    proof (cases h)
      case (Some h')
      have m: "m \<in> held ?st1" "m \<in> held st2" using assms(4) eff_held [OF e1] eff_held [OF e12] by simp_all
      from eff_bufs [OF e2 m(1)] have "bufs (pool st2) m = Some ?eb2" by (simp add: set_eb_def)
      from if_output_finish [OF this assms(6) eb(1) hw] h Some have
        fin: "bind_res (get_eb m st2) (\<lambda>eb3. bind_res (poke eb3 (data_off eb - 14) h') (\<lambda>eb4.
         bind_res (poke eb4 (data_off eb - 2) (mp_ether_type (priv_data eb4))) (\<lambda>eb5. Inr (0 :: int, set_eb m eb5 st2)))) =
         Inr (0, set_eb m (framed eb h' (hwaddr d)) st2)" by simp
      have "length h' = 6" using h Some by simp
      note fr = framed_data [OF assms(6) eb this hw]
      note e3 = set_eb_eff [OF eff_rinv [OF e2] m(2) fr(1,2)]
      from eff_trans [OF e12 e3] show ?thesis by (simp add: Some fin)
    qed (use e12 in simp)
  qed
qed

lemma prepare_safe:
  fixes st :: "('th, 'lp, 'n) rstate"
  assumes "rinv st" "th_typed x" "net_if \<in> set (netdev_list (nd st))" "m \<in> held st"
    "bufs (pool st) m = Some eb" "ip_ready eb" "route_ok (mp_route (priv_data eb))"
  shows "safe (pktq_prepare_enqueue x net_if i m st)
    (\<lambda>(r, st'). eff {} {m} st st' \<and> (r = -1 \<or> r = 0 \<and> ifnet_getbyidx i (nd st) \<noteq> None))"
proof (cases "ifnet_getbyidx i (nd st)")
  case None
  then show ?thesis using eff_mono [OF eff_refl [OF assms(1)]]
    by (simp add: pktq_prepare_enqueue_def pktq_prepare_enqueue_with_def)
next
  case (Some p)
  from rinv_getbyidx [OF assms(1) Some] have p: "p \<in> set (netdev_list (nd st))" by blast
  note out = if_output_safe [OF assms(1) arp_resolve_resolves [OF assms(2)] assms(3-7) p]
  have "safe (bind_res (router_if_output_with (arp_resolve x net_if) p m st) (\<lambda>(r, st1).
        if r = -1 then Inr (-1, st1)
        else bind_res (get_eb m st1) (\<lambda>eb.
          Inr (0, set_eb m (eb\<lparr>priv_data := (priv_data eb)\<lparr>mp_out_if_idx := i\<rparr>\<rparr>) st1))))
    (\<lambda>(r, st'). eff {} {m} st st' \<and> (r = -1 \<or> r = 0))"
  proof (rule safe_bind [OF out], clarify)
    fix r and st1 :: "('th, 'lp, 'n) rstate"
    assume e1: "eff {} {m} st st1"
    have m: "m \<in> held st1" using assms(4) eff_held [OF e1] by simp
    from rinv_buf [OF eff_rinv [OF e1] m] obtain eb1 where
      eb1: "get_eb m st1 = Inr eb1" "bufs (pool st1) m = Some eb1" by blast
    note e2 = set_priv_eff [OF eff_rinv [OF e1] m eb1(2)]
    show "safe (if r = -1 then Inr (-1, st1)
        else bind_res (get_eb m st1) (\<lambda>eb.
          Inr (0, set_eb m (eb\<lparr>priv_data := (priv_data eb)\<lparr>mp_out_if_idx := i\<rparr>\<rparr>) st1)))
      (\<lambda>(r, st'). eff {} {m} st st' \<and> (r = -1 \<or> r = 0))"
      using e1 eff_trans [OF e1 e2] eb1(1) by simp
  qed
  then show ?thesis
    using Some by (simp add: pktq_prepare_enqueue_def pktq_prepare_enqueue_with_def)
qed

end
