(* ===== verification/RouterInput.thy ===== *)
theory RouterInput
  imports RouterInv
begin

text \<open>
  The input side of the router in terms of ownership: ARP replies, layer-2 input, the firewall, routing
  of one packet and of a burst. The main result is that \<open>router_if_input\<close> leaks no packet and frees none
  twice; the others give the contents of the frames the router sends.
\<close>

section \<open>ARP replies\<close>

lemma take_slice_drop: "off + n \<le> length xs \<Longrightarrow> take off xs @ slice xs off n @ drop (off + n) xs = xs"
  by (simp add: slice_def) (metis append_take_drop_id drop_drop add.commute)

lemma eb_data_set_buf: "eb_data (eb\<lparr>buf := b\<rparr>) = slice b (data_off eb) (data_len eb)"
  by (simp add: eb_data_def)

lemma slice_middle:
  "length pre = off \<Longrightarrow> length mid \<le> n \<Longrightarrow> slice (pre @ mid @ post) off n = mid @ take (n - length mid) post"
  by (simp add: slice_def)

text \<open>A frame that carries an ARP packet, cut into its fields.\<close>

lemma arp_frame_split:
  fixes xs :: "byte list"
  assumes "eh + 42 \<le> length xs"
  shows "xs = take eh xs @ slice xs eh 6 @ slice xs (eh + 6) 6 @ slice xs (eh + 12) 2 @ slice xs (eh + 14) 6 @
     slice xs (eh + 20) 2 @ slice xs (eh + 22) 6 @ slice xs (eh + 28) 4 @ slice xs (eh + 32) 6 @
     slice xs (eh + 38) 4 @ drop (eh + 42) xs"
proof -
  have "slice xs eh 42 = slice xs eh 6 @ slice xs (eh + 6) 6 @ slice xs (eh + 12) 2 @ slice xs (eh + 14) 6 @
     slice xs (eh + 20) 2 @ slice xs (eh + 22) 6 @ slice xs (eh + 28) 4 @ slice xs (eh + 32) 6 @ slice xs (eh + 38) 4"
    using slice_append [of xs eh 6 36] slice_append [of xs "eh + 6" 6 30] slice_append [of xs "eh + 12" 2 28]
      slice_append [of xs "eh + 14" 6 22] slice_append [of xs "eh + 20" 2 20] slice_append [of xs "eh + 22" 6 14]
      slice_append [of xs "eh + 28" 4 10] slice_append [of xs "eh + 32" 6 4]
    by (simp add: add.commute)
  with take_slice_drop [OF assms] show ?thesis by simp
qed

lemma arp_make_reply_fields:
  fixes pre :: "byte list"
  assumes "length pre = eh" "length d = 6" "length s = 6" "length t = 2" "length f = 6" "length opc = 2"
    "length sha = 6" "length sip = 4" "length tha = 6" "length tip = 4" "length hw = 6"
    "buf eb = pre @ d @ s @ t @ f @ opc @ sha @ sip @ tha @ tip @ post"
  shows "arp_make_reply hw (eh + 14) eh eb =
    Inr (eb\<lparr>buf := pre @ s @ hw @ t @ f @ [0, 2] @ hw @ tip @ sha @ sip @ post\<rparr>)"
  using assms(1-11)
  by (simp add: arp_make_reply_def peek_def poke_def assms(12) slice_def blit_def arp_offs)

definition arp_reply_frame :: "ether_addr \<Rightarrow> byte list \<Rightarrow> byte list" where
  "arp_reply_frame hw D =
     eth_hdr (slice D 6 6) hw (slice D 12 2) @ slice D 14 6 @ [0, 2] @ hw @ slice D 38 4 @ slice D 22 6 @ slice D 28 4 @
     drop 42 D"

lemma arp_make_reply_spec:
  assumes "eb_wf eb" "42 \<le> data_len eb" "length hw = 6"
  obtains b where "arp_make_reply hw (data_off eb + 14) (data_off eb) eb = Inr (eb\<lparr>buf := b\<rparr>)"
    "length b = buf_cap eb" "eb_data (eb\<lparr>buf := b\<rparr>) = arp_reply_frame hw (eb_data eb)"
proof -
  let ?eh = "data_off eb" and ?xs = "buf eb"
  let ?b = "take ?eh ?xs @ slice ?xs (?eh + 6) 6 @ hw @ slice ?xs (?eh + 12) 2 @ slice ?xs (?eh + 14) 6 @
     [0, 2] @ hw @ slice ?xs (?eh + 38) 4 @ slice ?xs (?eh + 22) 6 @ slice ?xs (?eh + 28) 4 @ drop (?eh + 42) ?xs"
  have le: "?eh + 42 \<le> length ?xs" "?eh + data_len eb \<le> length ?xs" using assms(1,2) by (simp_all add: eb_wf_def)
  have rep: "arp_make_reply hw (?eh + 14) ?eh eb = Inr (eb\<lparr>buf := ?b\<rparr>)"
    using le assms(3) arp_frame_split [OF le(1)] by (intro arp_make_reply_fields) simp_all
  have sl: "slice ?xs (?eh + a) n = slice (eb_data eb) a n" if "a + n \<le> 42" for a n
    using that assms(2) by (simp add: eb_data_def slice_slice)
  let ?mid = "slice ?xs (?eh + 6) 6 @ hw @ slice ?xs (?eh + 12) 2 @ slice ?xs (?eh + 14) 6 @
     [0, 2] @ hw @ slice ?xs (?eh + 38) 4 @ slice ?xs (?eh + 22) 6 @ slice ?xs (?eh + 28) 4"
  have "length ?mid = 42" using le assms(3) by simp
  then have "slice ?b ?eh (data_len eb) = ?mid @ take (data_len eb - 42) (drop (?eh + 42) ?xs)"
    using le assms(2) slice_middle [of "take ?eh ?xs" ?eh ?mid "data_len eb" "drop (?eh + 42) ?xs"] by simp
  moreover have "take (data_len eb - 42) (drop (?eh + 42) ?xs) = drop 42 (eb_data eb)"
    by (simp add: eb_data_def slice_def drop_take add.commute)
  ultimately have "eb_data (eb\<lparr>buf := ?b\<rparr>) = arp_reply_frame hw (eb_data eb)"
    by (simp add: eb_data_set_buf arp_reply_frame_def eth_hdr_def sl)
  moreover have "length ?b = buf_cap eb" using le assms(3) by simp
  ultimately show thesis using that rep by blast
qed

lemma arp_drop_eff:
  assumes "rinv st" "m \<in> held st"
  obtains st' where "arp_drop m st = Inr (-1, st')" "eff {m} {} st st'"
  using free_buf_eff [OF assms] by (metis arp_drop_def bind_res_simps(2))

lemma netdev_wf_self:
  assumes "netdev_wf n" "p \<in> set (netdev_list n)" "ifs n p = Some d"
  shows "ifnet_getbyidx (ifnet_idx d) n = Some p"
proof -
  from assms(2) have "p \<in> set (rev (netdev_list n))" by simp
  then obtain i where i: "i < length (netdev_list n)" "rev (netdev_list n) ! i = p"
    by (auto simp: in_set_conv_nth simp del: set_rev)
  from netdev_wf_lookup [OF assms(1) i(1)] i(2) assms(3) show ?thesis by simp
qed

lemma dev_static_hw: "dev_static d' = dev_static d \<Longrightarrow> hwaddr d' = hwaddr d"
  unfolding dev_static_def by (drule arg_cong [of _ _ hwaddr]) simp

section \<open>Input\<close>

text \<open>
  A received frame: at least a header and an ARP packet long (\<open>virtio_net_flush_tx\<close> drops shorter
  ones), and not yet cut.
\<close>

definition frame_ok :: "ethbuf \<Rightarrow> bool" where
  "frame_ok eb \<longleftrightarrow> 42 \<le> data_len eb \<and> \<not> needs_l2 eb"

lemma eff_consume: "eff {} {m} st st1 \<Longrightarrow> eff {m} {} st1 st2 \<Longrightarrow> eff {m} {} st st2"
  using eff_trans [of "{}" "{m}" st st1 "{m}" "{}" st2] by (auto simp: eff_def)

lemma data_ptr_res:
  "eb_wf eb \<Longrightarrow> off < data_len eb \<Longrightarrow> ptr_res (bstgw_ethbuf_data_ptr eb off) = Inr (data_off eb + off)"
  by (simp add: ptr_res_def data_ptr_in_range(1))

lemma arp_answer_eff:
  assumes "rinv st" "p \<in> set (netdev_list (nd st))" "m \<in> held st" "get_dev p st = Inr d"
    "bufs (pool st) m = Some eb" "frame_ok eb"
  obtains b st' where "arp_make_reply (hwaddr d) (data_off eb + 14) (data_off eb) eb = Inr (eb\<lparr>buf := b\<rparr>)"
    "pktq_enqueue x p (ifnet_idx d) m (set_eb m (eb\<lparr>buf := b\<rparr>) st) = Inr (0, st')" "eff {m} {} st st'"
proof -
  from rinv_dev [OF assms(1,2)] assms(4) have d: "ifs (nd st) p = Some d" "dev_ok d" by auto
  from rinv_buf [OF assms(1,3)] assms(5) have eb: "buf_ready eb" "roomy eb" by auto
  have "eb_wf eb" "42 \<le> data_len eb" "length (hwaddr d) = 6"
    using eb assms(6) d(2) by (simp_all add: buf_ready_def frame_ok_def dev_ok_def)
  from arp_make_reply_spec [OF this] obtain b where
    b: "arp_make_reply (hwaddr d) (data_off eb + 14) (data_off eb) eb = Inr (eb\<lparr>buf := b\<rparr>)" "length b = buf_cap eb"
    by blast
  let ?eb = "eb\<lparr>buf := b\<rparr>"
  have "buf_ready ?eb" "roomy ?eb" using eb b(2) by (simp_all add: buf_ready_def eb_wf_def roomy_def)
  from set_eb_eff [OF assms(1,3) this] have e1: "eff {} {m} st (set_eb m ?eb st)" .
  have idx: "ifnet_getbyidx (ifnet_idx d) (nd st) = Some p"
    using assms(1,2) d(1) netdev_wf_self [of "nd st" p d] by (simp add: rinv_def)
  have "m \<in> held (set_eb m ?eb st)" "bufs (pool (set_eb m ?eb st)) m = Some ?eb" "\<not> needs_l2 ?eb"
    "ifnet_getbyidx (ifnet_idx d) (nd (set_eb m ?eb st)) = Some p" "p \<in> set (netdev_list (nd (set_eb m ?eb st)))"
    using assms(2,3,6) idx eff_held [OF e1] by (simp_all add: set_eb_def frame_ok_def needs_l2_def)
  from enqueue_plain [OF eff_rinv [OF e1] this, of "arp_resolve x p"] obtain st' where
    st': "pktq_enqueue_with (arp_resolve x p) p (ifnet_idx d) m (set_eb m ?eb st) = Inr (0, st')"
      "eff {m} {} (set_eb m ?eb st) st'" by blast
  have "eff {m} {} st st'" by (rule eff_consume [OF e1 st'(2)])
  with that b(1) st'(1) show thesis by (simp add: pktq_enqueue_def)
qed

lemma arp_input_eff:
  assumes "rinv st" "p \<in> set (netdev_list (nd st))" "m \<in> held st" "bufs (pool st) m = Some eb" "frame_ok eb" "l2_len eb = 14"
  obtains r st' where "arp_input x (Some p) m st = Inr (r, st')" "r \<noteq> 0" "eff {m} {} st st'"
proof -
  from rinv_dev [OF assms(1,2)] obtain d where d: "get_dev p st = Inr d" "ifs (nd st) p = Some d" "dev_ok d" by blast
  from rinv_buf [OF assms(1,3)] assms(4) have eb: "buf_ready eb" "roomy eb" "get_eb m st = Inr eb"
    by (auto simp: get_eb_def)
  have wf: "eb_wf eb" "42 \<le> data_len eb" "data_off eb + 42 \<le> buf_cap eb"
    using eb assms(5) by (simp_all add: buf_ready_def frame_ok_def eb_wf_def)
  have ah: "ptr_res (bstgw_ethbuf_data_ptr eb 14) = Inr (data_off eb + 14)"
    "ptr_res (bstgw_ethbuf_data_ptr eb 0) = Inr (data_off eb)"
    using data_ptr_res [OF wf(1), of 14] data_ptr_res [OF wf(1), of 0] wf(2) by simp_all
  define h where "h = slice (buf eb) (data_off eb + 14) 28"
  have h: "peek eb (data_off eb + 14) 28 = Inr h" using wf(3) by (simp add: peek_def h_def)
  define tg where "tg = arp_is_interesting (slice h arp_tha_off 6) (slice h arp_tip_off 4) d"
  from arp_drop_eff [OF assms(1,3)] obtain st0 where st0: "arp_drop m st = Inr (-1, st0)" "eff {m} {} st st0" by blast
  show thesis
  proof (cases "take 2 h \<noteq> [0, 1] \<or> h ! 4 \<noteq> 6 \<or> h ! 5 \<noteq> 4 \<or> tg = None")
    case True
    then have "arp_input x (Some p) m st = arp_drop m st"
      using d(1) eb(3) ah h assms(6) by (auto simp: arp_input_def tg_def)
    with st0 that show thesis by simp
  next
    case False
    then obtain t where t: "tg = Some t" by auto
    from arp_cache_eff [OF assms(1,2), of x "slice h arp_sip_off 4" "slice h arp_sha_off 6" t] obtain st1 where
      st1: "arp_cache x p (slice h arp_sip_off 4) (slice h arp_sha_off 6) t st = Inr st1" "eff {} {} st st1" by blast
    have m1: "m \<in> held st1" "bufs (pool st1) m = Some eb" "p \<in> set (netdev_list (nd st1))"
      using assms(2,3,4) eff_held [OF st1(2)] eff_bufs [OF st1(2) assms(3)] eff_list [OF st1(2)] by simp_all
    from rinv_dev [OF eff_rinv [OF st1(2)] m1(3)] obtain d1 where
      d1: "get_dev p st1 = Inr d1" "ifs (nd st1) p = Some d1" by blast
    have "dev_static d1 = dev_static d"
      using st1(2) d(2) d1(2) unfolding eff_def same_net_def by (metis option.simps(9) option.inject)
    note same = dev_static_hw [OF this] dev_static_idx [OF this]
    from arp_drop_eff [OF eff_rinv [OF st1(2)] m1(1)] obtain st2 where
      st2: "arp_drop m st1 = Inr (-1, st2)" "eff {m} {} st1 st2" by blast
    from arp_answer_eff [OF eff_rinv [OF st1(2)] m1(3,1) d1(1) m1(2) assms(5), of x] obtain b st3 where
      st3: "arp_make_reply (hwaddr d) (data_off eb + 14) (data_off eb) eb = Inr (eb\<lparr>buf := b\<rparr>)"
        "pktq_enqueue x p (ifnet_idx d) m (set_eb m (eb\<lparr>buf := b\<rparr>) st1) = Inr (0, st3)" "eff {m} {} st1 st3"
      unfolding same by blast
    have "arp_input x (Some p) m st = (if t \<and> slice h arp_opcode_off 2 = [0, 1] then Inr (1, st3) else Inr (-1, st2))"
      using False t d(1) eb(3) ah h assms(6) st1(1) st2(1) st3(1,2) by (simp add: arp_input_def tg_def)
    with that [of 1 st3] that [of "-1" st2] eff_trans [OF st1(2) st2(2)] eff_trans [OF st1(2) st3(3)]
    show thesis by (auto split: if_splits)
  qed
qed

lemma word_or_1_and_1: "(w OR 1) AND 1 \<noteq> (0 :: u32)"
  by (simp add: word_ao_absorbs)

text \<open>The buffer after layer-2 input has looked at it, and after it has cut the header of an IPv4 packet.\<close>

definition frame_type :: "ethbuf \<Rightarrow> byte list" where
  "frame_type eb = slice (buf eb) (data_off eb + 12) 2"

definition l2_seen :: "ethbuf \<Rightarrow> ethbuf" where
  "l2_seen eb = eb\<lparr>priv_data := (priv_data eb)\<lparr>mp_ether_type := frame_type eb\<rparr>, l2_len := 14\<rparr>"

definition l2_cut :: "ethbuf \<Rightarrow> ethbuf" where
  "l2_cut eb = eb\<lparr>l2_len := 14, packet_type := packet_type eb OR RTE_PTYPE_L3_IPV4, data_off := data_off eb + 14,
     data_len := data_len eb - 14,
     priv_data := (priv_data eb)\<lparr>mp_ether_type := frame_type eb, mp_flags := mp_flags (priv_data eb) OR MBUF_NPF_NEED_L2\<rparr>\<rparr>"

lemma l2_input_eq:
  assumes "get_eb m st = Inr eb" "eb_wf eb" "42 \<le> data_len eb"
  shows "l2_input x np m st = (if packet_type eb AND RTE_PTYPE_L2_MASK = 0 then Inl Panic
      else if frame_type eb = RTE_ETHER_TYPE_ARP then arp_input x np m (set_eb m (l2_seen eb) st)
      else if frame_type eb = RTE_ETHER_TYPE_IPV4 then Inr (0, set_eb m (l2_cut eb) st)
      else bind_res (free_buf m (set_eb m (l2_seen eb) st)) (\<lambda>st2. Inr (-1, st2)))"
proof -
  have pk: "peek eb (data_off eb + 12) 2 = Inr (frame_type eb)"
    using assms(2,3) by (simp add: peek_def frame_type_def eb_wf_def)
  have tw: "set_eb m (l2_cut eb) (set_eb m (l2_seen eb) st) = set_eb m (l2_cut eb) st" by (simp add: set_eb_def)
  have "l2_input x np m st = (if packet_type eb AND RTE_PTYPE_L2_MASK = 0 then Inl Panic
      else if frame_type eb = RTE_ETHER_TYPE_ARP then arp_input x np m (set_eb m (l2_seen eb) st)
      else if frame_type eb = RTE_ETHER_TYPE_IPV4 then Inr (0, set_eb m (l2_cut eb) (set_eb m (l2_seen eb) st))
      else bind_res (free_buf m (set_eb m (l2_seen eb) st)) (\<lambda>st2. Inr (-1, st2)))"
    using assms(1,3) data_ptr_res [OF assms(2), of 0] pk
    by (simp add: l2_input_def Let_def bstgw_ethbuf_precut_def l2_seen_def l2_cut_def)
  then show ?thesis unfolding tw .
qed

lemma l2_ready:
  assumes "buf_ready eb" "roomy eb" "frame_ok eb"
  shows "buf_ready (l2_seen eb)" "roomy (l2_seen eb)" "frame_ok (l2_seen eb)" "l2_len (l2_seen eb) = 14"
    "buf_ready (l2_cut eb)" "roomy (l2_cut eb)" "ip_ready (l2_cut eb)" "eb_data (l2_cut eb) = drop 14 (eb_data eb)"
  using assms
  by (auto simp: l2_seen_def l2_cut_def buf_ready_def roomy_def eb_wf_def frame_ok_def needs_l2_def ip_ready_def
      MBUF_NPF_NEED_L2_def word_or_1_and_1 frame_type_def eb_data_def slice_def drop_take add.commute)

lemma l2_input_safe:
  assumes "rinv st" "p \<in> set (netdev_list (nd st))" "m \<in> held st" "bufs (pool st) m = Some eb" "frame_ok eb"
  shows "safe (l2_input x (Some p) m st) (\<lambda>(r, st').
    if r = 0 then eff {} {m} st st' \<and> (\<exists>eb'. bufs (pool st') m = Some eb' \<and> ip_ready eb') else eff {m} {} st st')"
proof -
  from rinv_buf [OF assms(1,3)] assms(4) have eb: "buf_ready eb" "roomy eb" "get_eb m st = Inr eb"
    by (auto simp: get_eb_def)
  have wf: "eb_wf eb" "42 \<le> data_len eb" using eb assms(5) by (simp_all add: buf_ready_def frame_ok_def)
  note rdy = l2_ready [OF eb(1,2) assms(5)]
  let ?st1 = "set_eb m (l2_seen eb) st"
  have e1: "eff {} {m} st ?st1" and e2: "eff {} {m} st (set_eb m (l2_cut eb) st)"
    using set_eb_eff [OF assms(1,3)] rdy by auto
  have m1: "m \<in> held ?st1" "bufs (pool ?st1) m = Some (l2_seen eb)" "p \<in> set (netdev_list (nd ?st1))"
    using assms(2,3) eff_held [OF e1] by (simp_all add: set_eb_def)
  from arp_input_eff [OF eff_rinv [OF e1] m1(3,1,2) rdy(3,4), of x] obtain r st2 where
    arp: "arp_input x (Some p) m ?st1 = Inr (r, st2)" "r \<noteq> 0" "eff {m} {} ?st1 st2" by blast
  from free_buf_eff [OF eff_rinv [OF e1] m1(1)] obtain st3 where
    fr: "free_buf m ?st1 = Inr st3" "eff {m} {} ?st1 st3" by blast
  from eff_consume [OF e1 arp(3)] eff_consume [OF e1 fr(2)] show ?thesis
    unfolding l2_input_eq [OF eb(3) wf] using arp(1,2) fr(1) e2 rdy(7) by (auto simp: set_eb_def)
qed

text \<open>
  What the router relies on NPF for: the handler leaves the packet in place with changed payload
  bytes only, or consumes it and frees its buffer; it keeps its hands off all other packets.
\<close>

definition npf_ok :: "('th, 'lp, 'n) ext \<Rightarrow> bool" where
  "npf_ok x \<longleftrightarrow> (\<forall>n m ifp di P eb. pool_ok P \<longrightarrow> m \<in> set (inuse_list P) \<longrightarrow> bufs P m = Some eb \<longrightarrow>
     (case npf_handler x n m ifp di P of (err, mp, P', n') \<Rightarrow>
        pool_ok P' \<and> (\<forall>a \<in> set (inuse_list P) - {m}. bufs P' a = bufs P a) \<and>
        (case mp of None \<Rightarrow> set (inuse_list P') = set (inuse_list P) - {m}
         | Some m' \<Rightarrow> m' = m \<and> set (inuse_list P') = set (inuse_list P) \<and> (\<exists>b. bufs P' m = Some (eb\<lparr>buf := b\<rparr>)))))"

lemma firewall_cases:
  assumes "rinv st" "npf_ok x" "m \<in> held st" "bufs (pool st) m = Some eb"
  shows "(\<exists>st'. firewall_process x m p di st = Inr (None, st') \<and> eff {m} {} st st') \<or>
    (\<exists>st' b. firewall_process x m p di st = Inr (Some m, st') \<and> eff {} {m} st st' \<and> bufs (pool st') m = Some (eb\<lparr>buf := b\<rparr>))"
proof -
  obtain err mp P n where h: "npf_handler x (npfst st) m p di (pool st) = (err, mp, P, n)"
    by (cases "npf_handler x (npfst st) m p di (pool st)")
  let ?st1 = "st\<lparr>pool := P, npfst := n\<rparr>"
  have m: "m \<in> set (inuse_list (pool st))" "m \<notin> set (queued st)" and ok: "pool_ok (pool st)"
    using assms(1,3) by (auto simp: held_def rinv_def)
  have P: "pool_ok P" "\<forall>a \<in> set (inuse_list (pool st)) - {m}. bufs P a = bufs (pool st) a"
    and mp: "case mp of None \<Rightarrow> set (inuse_list P) = set (inuse_list (pool st)) - {m}
         | Some m' \<Rightarrow> m' = m \<and> set (inuse_list P) = set (inuse_list (pool st)) \<and> (\<exists>b. bufs P m = Some (eb\<lparr>buf := b\<rparr>))"
    using assms(2) [unfolded npf_ok_def, rule_format, OF ok m(1) assms(4), of "npfst st" p di] h by simp_all
  have inv: "rinv ?st1" if "set (queued st) \<subseteq> set (inuse_list P)"
    using assms(1) P(1) that by (simp add: rinv_def)
  show ?thesis
  proof (cases mp)
    case None
    with mp have in': "set (inuse_list P) = set (inuse_list (pool st)) - {m}" by simp
    have "eff {m} {} st ?st1"
      using in' P(2) m assms(1) inv by (auto simp: eff_def held_def rinv_def)
    with h None show ?thesis by (simp add: firewall_process_def)
  next
    case (Some m')
    with mp obtain b where m': "m' = m" "set (inuse_list P) = set (inuse_list (pool st))" "bufs P m = Some (eb\<lparr>buf := b\<rparr>)"
      by auto
    have e1: "eff {} {m} st ?st1"
      using m'(2) P(2) m assms(1) inv by (auto simp: eff_def held_def rinv_def)
    have "m \<in> held ?st1" using assms(3) eff_held [OF e1] by simp
    from free_buf_eff [OF eff_rinv [OF e1] this] obtain st2 where
      st2: "free_buf m ?st1 = Inr st2" "eff {m} {} ?st1 st2" by blast
    have "eff {m} {} st st2" by (rule eff_consume [OF e1 st2(2)])
    with st2(1) e1 m' h Some show ?thesis by (cases "err = 0") (auto simp: firewall_process_def)
  qed
qed

section \<open>Routing\<close>

lemma ip_ready_kept [simp]:
  "ip_ready (eb\<lparr>buf := b\<rparr>) = ip_ready eb"
  "ip_ready (eb\<lparr>priv_data := (priv_data eb)\<lparr>mp_route := rt\<rparr>\<rparr>) = ip_ready eb"
  by (simp_all add: ip_ready_def needs_l2_def)

lemma ip_route_eff:
  assumes "rinv st" "lpm_typed x" "m \<in> held st" "bufs (pool st) m = Some eb" "ip_ready eb"
  obtains rt st' eb' where "router_ip_route x m st = Inr (rt, st')" "eff {} {m} st st'"
    "bufs (pool st') m = Some eb'" "ip_ready eb'" "rt \<noteq> None \<longrightarrow> route_ok (mp_route (priv_data eb'))"
proof -
  from rinv_buf [OF assms(1,3)] assms(4) have eb: "buf_ready eb" "get_eb m st = Inr eb"
    by (auto simp: get_eb_def)
  have wf: "eb_wf eb" "20 \<le> data_len eb" "data_off eb + 20 \<le> buf_cap eb"
    using eb assms(5) by (simp_all add: buf_ready_def ip_ready_def eb_wf_def)
  define h where "h = slice (buf eb) (data_off eb) 20"
  have h: "ptr_res (bstgw_ethbuf_data_ptr eb 0) = Inr (data_off eb)" "peek eb (data_off eb) 20 = Inr h"
    using data_ptr_res [OF wf(1), of 0] wf by (simp_all add: peek_def h_def)
  have dst: "length (slice h 16 4) = 4" using wf(3) by (simp add: h_def)
  note keep = that [of None st eb, OF _ eff_mono [OF eff_refl [OF assms(1)]] assms(4,5)]
  show thesis
  proof (cases "packet_type eb AND RTE_PTYPE_L3_IPV4 = 0 \<or> h ! 8 \<le> 1 \<or> route_lookup x (slice h 16 4) st = None")
    case True
    then have "router_ip_route x m st = Inr (None, st)"
      using eb(2) h by (auto simp: router_ip_route_def Let_def)
    then show thesis using keep by simp
  next
    case False
    then obtain rt where rt: "route_lookup x (slice h 16 4) st = Some rt" by auto
    let ?rt = "if rt_addr_len rt = 0 then rt\<lparr>rt_next_hop := slice h 16 4, rt_addr_len := 4\<rparr> else rt"
    let ?eb = "eb\<lparr>priv_data := (priv_data eb)\<lparr>mp_route := ?rt\<rparr>\<rparr>"
    have ok: "route_ok ?rt" using assms(2) rt dst by (auto simp: route_ok_def lpm_typed_def route_lookup_def)
    have "router_ip_route x m st = Inr (Some (rt_if_idx ?rt), set_eb m ?eb st)"
      using False rt eb(2) h by (simp add: router_ip_route_def Let_def)
    then show thesis
      by (rule that [OF _ set_priv_eff [OF assms(1,3,4)], of _ _ ?eb]) (use ok assms(5) in \<open>simp_all add: set_eb_def\<close>)
  qed
qed

lemma ip_output_safe:
  fixes st :: "('th, 'lp, 'n) rstate"
  assumes "rinv st" "th_typed x" "npf_ok x" "net_if \<in> set (netdev_list (nd st))" "m \<in> held st"
    "bufs (pool st) m = Some eb" "ip_ready eb" "route_ok (mp_route (priv_data eb))"
  shows "safe (router_ip_output x net_if m i st) (\<lambda>(r, st').
    if r < 0 then eff {m} {} st st' else eff {} {m} st st' \<and> ifnet_getbyidx i (nd st) \<noteq> None)"
proof (cases "ifnet_getbyidx i (nd st)")
  case None
  from free_buf_eff [OF assms(1,5)] obtain st1 where "free_buf m st = Inr st1" "eff {m} {} st st1" by blast
  with None show ?thesis by (simp add: router_ip_output_def)
next
  case (Some p)
  from firewall_cases [OF assms(1,3,5,6), of p False] show ?thesis
  proof (elim disjE exE conjE)
    fix st1 assume "firewall_process x m p False st = Inr (None, st1)" "eff {m} {} st st1"
    with Some show ?thesis by (simp add: router_ip_output_def)
  next
    fix st1 b
    assume fw: "firewall_process x m p False st = Inr (Some m, st1)" and e1: "eff {} {m} st st1"
      and b: "bufs (pool st1) m = Some (eb\<lparr>buf := b\<rparr>)"
    have m1: "m \<in> held st1" "net_if \<in> set (netdev_list (nd st1))"
      using assms(4,5) eff_held [OF e1] eff_list [OF e1] by simp_all
    have prep: "safe (pktq_prepare_enqueue x net_if i m st1)
        (\<lambda>(r, st'). eff {} {m} st1 st' \<and> (r = -1 \<or> r = 0 \<and> ifnet_getbyidx i (nd st1) \<noteq> None))"
      using assms(7,8) by (intro prepare_safe [OF eff_rinv [OF e1] assms(2) m1(2,1) b]) simp_all
    have "safe (bind_res (pktq_prepare_enqueue x net_if i m st1) (\<lambda>(r, st2).
          if r = -1 then bind_res (free_buf m st2) (\<lambda>st3. Inr (-1 :: int, st3)) else Inr (0, st2)))
        (\<lambda>(r, st'). if r < 0 then eff {m} {} st st' else eff {} {m} st st' \<and> ifnet_getbyidx i (nd st) \<noteq> None)"
    proof (rule safe_bind [OF prep], clarify)
      fix r and st2 :: "('th, 'lp, 'n) rstate"
      assume e2: "eff {} {m} st1 st2"
      have e12: "eff {} {m} st st2" using eff_trans [OF e1 e2] by simp
      have "m \<in> held st2" using assms(5) eff_held [OF e12] by simp
      from free_buf_eff [OF eff_rinv [OF e2] this] obtain st3 where
        st3: "free_buf m st2 = Inr st3" "eff {m} {} st2 st3" by blast
      have "eff {m} {} st st3" by (rule eff_consume [OF e12 st3(2)])
      with st3(1) e12 Some show "safe (if r = -1 then bind_res (free_buf m st2) (\<lambda>st3. Inr (-1 :: int, st3)) else Inr (0, st2))
        (\<lambda>(r, st'). if r < 0 then eff {m} {} st st' else eff {} {m} st st' \<and> ifnet_getbyidx i (nd st) \<noteq> None)"
        by simp
    qed
    then show ?thesis using fw Some by (simp add: router_ip_output_def)
  qed
qed

definition ext_ok :: "('th, 'lp, 'n) ext \<Rightarrow> bool" where
  "ext_ok x \<longleftrightarrow> th_typed x \<and> lpm_typed x \<and> npf_ok x"

lemma route_one_safe:
  fixes st :: "('th, 'lp, 'n) rstate"
  assumes "rinv st" "ext_ok x" "p \<in> set (netdev_list (nd st))" "m \<in> held st" "bufs (pool st) m = Some eb" "frame_ok eb"
  shows "safe (route_one x p m st) (\<lambda>(r, st'). case r of None \<Rightarrow> eff {m} {} st st'
    | Some (i, m1) \<Rightarrow> m1 = m \<and> eff {} {m} st st' \<and> ifnet_getbyidx i (nd st) \<noteq> None)" (is "safe _ ?Q")
  unfolding route_one_def
proof (rule safe_bind [OF l2_input_safe [OF assms(1,3-6)]], clarify)
  fix r and st1 :: "('th, 'lp, 'n) rstate"
  have ext: "th_typed x" "lpm_typed x" "npf_ok x" using assms(2) by (auto simp: ext_ok_def)
  assume l2: "if r = 0 then eff {} {m} st st1 \<and> (\<exists>eb'. bufs (pool st1) m = Some eb' \<and> ip_ready eb') else eff {m} {} st st1"
  let ?rest = "if r \<noteq> 0 then Inr (None, st1)
     else bind_res (firewall_process x m p True st1) (\<lambda>(mp, st2).
       case mp of None \<Rightarrow> Inr (None, st2)
       | Some m1 \<Rightarrow>
           bind_res (router_ip_route x m1 st2) (\<lambda>(rt, st3).
           case rt of None \<Rightarrow> bind_res (free_buf m1 st3) (\<lambda>st4. Inr (None, st4))
           | Some out_if_idx \<Rightarrow>
               bind_res (router_ip_output x p m1 out_if_idx st3) (\<lambda>(r', st4).
               if r' < 0 then Inr (None, st4) else Inr (Some (out_if_idx, m1), st4))))"
  show "safe ?rest ?Q"
  proof (cases "r = 0")
    case True
    with l2 obtain eb1 where e1: "eff {} {m} st st1" and eb1: "bufs (pool st1) m = Some eb1" "ip_ready eb1" by auto
    have m1: "m \<in> held st1" using assms(4) eff_held [OF e1] by simp
    from firewall_cases [OF eff_rinv [OF e1] ext(3) m1 eb1(1), of p True] show ?thesis
    proof (elim disjE exE conjE)
      fix st2 assume "firewall_process x m p True st1 = Inr (None, st2)" "eff {m} {} st1 st2"
      with True eff_consume [OF e1] show ?thesis by simp
    next
      fix st2 b
      assume fw: "firewall_process x m p True st1 = Inr (Some m, st2)" and e2: "eff {} {m} st1 st2"
        and b: "bufs (pool st2) m = Some (eb1\<lparr>buf := b\<rparr>)"
      have e12: "eff {} {m} st st2" using eff_trans [OF e1 e2] by simp
      have m2: "m \<in> held st2" using assms(4) eff_held [OF e12] by simp
      have rdy: "ip_ready (eb1\<lparr>buf := b\<rparr>)" using eb1(2) by simp
      from ip_route_eff [OF eff_rinv [OF e2] ext(2) m2 b rdy] obtain rt st3 eb3 where
        rt: "router_ip_route x m st2 = Inr (rt, st3)" "eff {} {m} st2 st3" "bufs (pool st3) m = Some eb3"
          "ip_ready eb3" "rt \<noteq> None \<longrightarrow> route_ok (mp_route (priv_data eb3))" by blast
      have e13: "eff {} {m} st st3" using eff_trans [OF e12 rt(2)] by simp
      have m3: "m \<in> held st3" "p \<in> set (netdev_list (nd st3))"
        using assms(3,4) eff_held [OF e13] eff_list [OF e13] by simp_all
      show ?thesis
      proof (cases rt)
        case None
        from free_buf_eff [OF eff_rinv [OF rt(2)] m3(1)] obtain st4 where
          "free_buf m st3 = Inr st4" "eff {m} {} st3 st4" by blast
        with None True fw rt(1) eff_consume [OF e13] show ?thesis by simp
      next
        case (Some i)
        with rt(5) have "route_ok (mp_route (priv_data eb3))" by simp
        note out = ip_output_safe [OF eff_rinv [OF rt(2)] ext(1,3) m3(2,1) rt(3,4) this, of i]
        have "safe (bind_res (router_ip_output x p m i st3) (\<lambda>(r', st4).
               if r' < 0 then Inr (None, st4) else Inr (Some (i, m), st4))) ?Q"
          by (rule safe_bind [OF out])
            (use eff_consume [OF e13] eff_trans [OF e13, of "{}" "{m}"] eff_idx [OF e13] in \<open>auto split: if_splits\<close>)
        with Some True fw rt(1) show ?thesis by simp
      qed
    qed
  next
    case False
    with l2 show ?thesis by simp
  qed
qed

section \<open>A burst of packets\<close>

definition stored :: "nat list list \<Rightarrow> nat set" where
  "stored outs = set (concat outs)"

lemma mset_concat_update:
  assumes "i < length outs"
  shows "mset (concat (outs[i := outs ! i @ [m]])) = add_mset m (mset (concat outs))"
proof -
  have "concat outs = concat (take i outs) @ outs ! i @ concat (drop (Suc i) outs)"
    by (metis assms concat.simps(2) concat_append id_take_nth_drop)
  then show ?thesis using assms by (simp add: upd_conv_take_nth_drop)
qed

lemma concat_update:
  assumes "i < length outs"
  shows "stored (outs[i := outs ! i @ [m]]) = insert m (stored outs)"
    "distinct (concat (outs[i := outs ! i @ [m]])) \<longleftrightarrow> distinct (concat outs) \<and> m \<notin> stored outs"
proof -
  have eq: "mset (concat (outs[i := outs ! i @ [m]])) = mset (m # concat outs)"
    using mset_concat_update [OF assms] by simp
  show "stored (outs[i := outs ! i @ [m]]) = insert m (stored outs)"
    using mset_eq_setD [OF eq] by (simp add: stored_def)
  show "distinct (concat (outs[i := outs ! i @ [m]])) \<longleftrightarrow> distinct (concat outs) \<and> m \<notin> stored outs"
    using mset_eq_imp_distinct_iff [OF eq] by (auto simp: stored_def)
qed

text \<open>Every segment that holds packets has its bit set.\<close>

definition covered :: "u8 \<Rightarrow> nat list list \<Rightarrow> bool" where
  "covered egr outs \<longleftrightarrow> (\<forall>j < length outs. outs ! j \<noteq> [] \<longrightarrow> bit egr (Suc j))"

lemma bit_mark: "k < 8 \<Longrightarrow> bit (egr OR push_bit k (1 :: u8)) j \<longleftrightarrow> bit egr j \<or> j = k"
  by (auto simp: bit_or_iff bit_exp_iff)

lemma test_mark: "k < 8 \<Longrightarrow> egr AND push_bit k (1 :: u8) = 0 \<longleftrightarrow> \<not> bit egr k"
  by (simp add: and_exp_eq_0_iff_not_bit)

lemma covered_update:
  assumes "covered egr outs" "i < length outs" "i < 7"
  shows "covered (egr OR push_bit (Suc i) 1) (outs[i := ms])"
proof -
  have "bit (egr OR push_bit (Suc i) 1) j \<longleftrightarrow> bit egr j \<or> j = Suc i" for j
    using assms(3) by (intro bit_mark) simp
  then show ?thesis using assms by (auto simp: covered_def nth_list_update simp del: push_bit_Suc)
qed

definition frames_ok :: "nat list \<Rightarrow> ('th, 'lp, 'n) rstate \<Rightarrow> bool" where
  "frames_ok ms st \<longleftrightarrow> distinct ms \<and> set ms \<subseteq> held st \<and>
     (\<forall>m \<in> set ms. case bufs (pool st) m of None \<Rightarrow> False | Some eb \<Rightarrow> frame_ok eb)"

lemma frames_ok_step:
  assumes "frames_ok (m # ms) st" "eff A B st st'" "A \<subseteq> {m}" "B \<subseteq> {m}"
  shows "frames_ok ms st'"
proof -
  have "m' \<in> held st' \<and> bufs (pool st') m' = bufs (pool st) m'" if "m' \<in> set ms" for m'
  proof -
    have "m' \<noteq> m" "m' \<in> held st" using that assms(1) by (auto simp: frames_ok_def)
    then have "m' \<notin> A" "m' \<notin> B" using assms(3,4) by auto
    then show ?thesis using eff_bufs [OF assms(2) \<open>m' \<in> held st\<close>] eff_held [OF assms(2)] \<open>m' \<in> held st\<close> by simp
  qed
  then show ?thesis using assms(1) by (auto simp: frames_ok_def)
qed

definition loop_result ::
    "nat list \<Rightarrow> nat list list \<Rightarrow> ('th, 'lp, 'n) rstate \<Rightarrow> u8 \<times> nat list list \<times> ('th, 'lp, 'n) rstate \<Rightarrow> bool" where
  "loop_result ms outs st = (\<lambda>(egr', outs', st'). eff (set ms - stored outs') (set ms) st st' \<and> length outs' = length outs \<and>
     distinct (concat outs') \<and> covered egr' outs' \<and> stored outs \<subseteq> stored outs' \<and> stored outs' \<subseteq> stored outs \<union> set ms)"

lemma loop_result_step:
  assumes "loop_result ms outs1 st1 (egr', outs', st')" "eff A {m} st st1" "length outs1 = length outs"
    "A = {m} \<and> stored outs1 = stored outs \<and> m \<notin> stored outs \<or> A = {} \<and> stored outs1 = insert m (stored outs)"
    "m \<notin> set ms"
  shows "loop_result (m # ms) outs st (egr', outs', st')"
proof -
  have e: "eff (A \<union> (set ms - stored outs')) ({m} \<union> set ms) st st'"
    using assms(1) by (intro eff_trans [OF assms(2)]) (simp add: loop_result_def)
  have "A \<union> (set ms - stored outs') = set (m # ms) - stored outs'"
    using assms(1,4,5) by (auto simp: loop_result_def)
  with e assms(1,3,4) show ?thesis by (auto simp: loop_result_def)
qed

lemma route_loop_safe:
  fixes st :: "('th, 'lp, 'n) rstate"
  assumes "rinv st" "ext_ok x" "p \<in> set (netdev_list (nd st))" "frames_ok ms st" "length outs = ifnet_dev_count (nd st)"
    "length outs \<le> 7" "covered egr outs" "distinct (concat outs)" "stored outs \<inter> set ms = {}"
  shows "safe (route_loop x p ms egr outs st) (loop_result ms outs st)"
  using assms
proof (induction ms arbitrary: egr outs st)
  case Nil
  then show ?case by (simp add: loop_result_def eff_refl)
next
  case (Cons m ms)
  note pr = Cons.prems
  from pr(4) obtain eb where m: "m \<in> held st" "bufs (pool st) m = Some eb" "frame_ok eb" "m \<notin> set ms"
    by (auto simp: frames_ok_def split: option.splits)
  have new: "m \<notin> stored outs" using pr(9) by auto
  note one = route_one_safe [OF pr(1-3) m(1-3)]
  show ?case
    unfolding route_loop.simps
  proof (rule safe_bind [OF one], clarify)
    fix r and st1 :: "('th, 'lp, 'n) rstate"
    assume q: "case r of None \<Rightarrow> eff {m} {} st st1
      | Some (i, m1) \<Rightarrow> m1 = m \<and> eff {} {m} st st1 \<and> ifnet_getbyidx i (nd st) \<noteq> None"
    show "safe (case r of None \<Rightarrow> route_loop x p ms egr outs st1
       | Some (i, m1) \<Rightarrow> if i = 0 \<or> length outs < i then Inl Out_of_bounds
         else route_loop x p ms (egr OR push_bit i 1) (outs[i - 1 := outs ! (i - 1) @ [m1]]) st1) (loop_result (m # ms) outs st)"
    proof (cases r)
      case None
      with q have e: "eff {m} {} st st1" by simp
      have *: "p \<in> set (netdev_list (nd st1))" "length outs = ifnet_dev_count (nd st1)"
        using pr(3,5) e by (simp_all add: eff_def same_net_def ifnet_dev_count_def)
      have "safe (route_loop x p ms egr outs st1) (loop_result ms outs st1)"
        using pr(6-9) by (intro Cons.IH [OF eff_rinv [OF e] pr(2) *(1) frames_ok_step [OF pr(4) e] *(2)]) auto
      then show ?thesis
        using None loop_result_step [OF _ eff_mono [OF e], where ms = ms and ?outs1.0 = outs and outs = outs] new m(4)
        by (auto elim!: safe_mono)
    next
      case (Some im)
      with q obtain i j where i: "im = (i, m)" "ifnet_getbyidx i (nd st) = Some j" and e: "eff {} {m} st st1" by auto
      have "netdev_wf (nd st)" using pr(1) by (simp add: rinv_def)
      from getbyidx_in_list(2,3) [OF this i(2)] pr(5) obtain k where k: "i = Suc k" "k < length outs"
        by (cases i) auto
      let ?outs = "outs[k := outs ! k @ [m]]"
      have *: "p \<in> set (netdev_list (nd st1))" "length ?outs = ifnet_dev_count (nd st1)"
        using pr(3,5) e by (simp_all add: eff_def same_net_def ifnet_dev_count_def)
      note up = concat_update [OF k(2), of m]
      have "safe (route_loop x p ms (egr OR push_bit (Suc k) 1) ?outs st1) (loop_result ms ?outs st1)"
        using pr(6-9) k new m(4) up
        by (intro Cons.IH [OF eff_rinv [OF e] pr(2) *(1) frames_ok_step [OF pr(4) e] *(2)] covered_update) auto
      then show ?thesis
        using Some i(1) k loop_result_step [OF _ e, where ms = ms and ?outs1.0 = ?outs and outs = outs] up(1) m(4)
        by (auto elim!: safe_mono)
    qed
  qed
qed

lemma enqueue_loop_eff:
  assumes "rinv st" "net_if \<in> set (netdev_list (nd st))" "distinct (concat (map snd prs))"
    "set (concat (map snd prs)) \<subseteq> held st"
    "\<forall>(j, ms) \<in> set prs. ms \<noteq> [] \<longrightarrow> j < 8 \<and> bit egr j" "\<forall>(j, ms) \<in> set prs. ifnet_getbyidx j (nd st) \<noteq> None"
  shows "\<exists>st'. enqueue_loop net_if egr prs st = Inr st' \<and> eff (set (concat (map snd prs))) {} st st'"
  using assms
proof (induction prs arbitrary: st)
  case Nil
  then show ?case by (simp add: eff_refl)
next
  case (Cons pr prs)
  obtain j ms where pr: "pr = (j, ms)" by (cases pr)
  note as = Cons.prems
  show ?case
  proof (cases "egr AND push_bit j 1 = 0")
    case True
    then have "ms = []" using as(5) pr test_mark [of j egr] by auto
    then show ?thesis using True as pr Cons.IH [OF as(1,2)] by auto
  next
    case False
    from as(6) pr obtain p where p: "ifnet_getbyidx j (nd st) = Some p" by auto
    have "distinct ms" "set ms \<subseteq> held st" using as(3,4) pr by auto
    from menqueue_eff [OF as(1) p as(2) this] obtain r st1 where
      st1: "pktq_do_menqueue net_if j ms st = Inr (r, st1)" "eff (set ms) {} st st1" by blast
    have "\<exists>st'. enqueue_loop net_if egr prs st1 = Inr st' \<and> eff (set (concat (map snd prs))) {} st1 st'"
      using as pr eff_held [OF st1(2)] eff_list [OF st1(2)] eff_idx [OF st1(2)]
      by (intro Cons.IH [OF eff_rinv [OF st1(2)]]) auto
    then obtain st2 where st2: "enqueue_loop net_if egr prs st1 = Inr st2" "eff (set (concat (map snd prs))) {} st1 st2"
      by blast
    from eff_trans [OF st1(2) st2(2)] st1(1) st2(1) False pr show ?thesis by auto
  qed
qed

lemma segments_getbyidx:
  assumes "netdev_wf n" "1 \<le> j" "j \<le> ifnet_dev_count n"
  shows "ifnet_getbyidx j n \<noteq> None"
proof -
  have "j - 1 < length (netdev_list n)"
    using assms netdev_wf_length [OF assms(1)] by (auto simp: ifnet_dev_count_def)
  from netdev_wf_lookup(1) [OF assms(1) this] assms(2) show ?thesis by simp
qed

lemma enqueue_segments_eff:
  assumes "rinv st" "w \<in> set (netdev_list (nd st))" "length outs = ifnet_dev_count (nd st)" "length outs \<le> 7"
    "covered egr outs" "distinct (concat outs)" "stored outs \<subseteq> held st"
  shows "\<exists>st'. enqueue_loop w egr (zip [1..<length outs + 1] outs) st = Inr st' \<and> eff (stored outs) {} st st'"
proof -
  let ?prs = "zip [1..<length outs + 1] outs"
  have snd: "map snd ?prs = outs" by (simp del: upt_Suc)
  have mem: "\<exists>k < length outs. j = Suc k \<and> ms = outs ! k" if "(j, ms) \<in> set ?prs" for j ms
    using that by (auto simp: in_set_zip simp del: upt_Suc)
  have nw: "netdev_wf (nd st)" using assms(1) by (simp add: rinv_def)
  have bits: "ms \<noteq> [] \<longrightarrow> j < 8 \<and> bit egr j" if "(j, ms) \<in> set ?prs" for j ms
    using mem [OF that] assms(4,5) by (auto simp: covered_def)
  have idx: "ifnet_getbyidx j (nd st) \<noteq> None" if "(j, ms) \<in> set ?prs" for j ms
    using mem [OF that] assms(3) by (intro segments_getbyidx [OF nw]) auto
  show ?thesis
    using enqueue_loop_eff [OF assms(1,2), of ?prs egr, unfolded snd] bits idx assms(6,7)
    unfolding stored_def by blast
qed

lemma eff_Un_absorb:
  assumes "eff A B st st1" "eff A' {} st1 st2" "A \<union> A' = C" "B \<subseteq> C"
  shows "eff C {} st st2"
  using eff_trans [OF assms(1,2)] assms(3,4) unfolding eff_def by blast

lemma route_burst_safe:
  assumes "rinv st" "ext_ok x" "w \<in> set (netdev_list (nd st))" "c = ifnet_dev_count (nd st)" "c \<le> 7" "frames_ok pkts st"
  shows "safe (bind_res (route_loop x w pkts 0 (replicate c []) st) (\<lambda>(egr_idx, outs, st3).
      enqueue_loop w egr_idx (zip [1..<c + 1] outs) st3)) (\<lambda>st'. eff (set pkts) {} st st')"
proof -
  let ?outs = "replicate c ([] :: nat list)"
  have emp: "stored ?outs = {}" "distinct (concat ?outs)" "covered 0 ?outs"
    by (simp_all add: stored_def covered_def)
  have rl: "safe (route_loop x w pkts 0 ?outs st) (loop_result pkts ?outs st)"
    using assms emp by (intro route_loop_safe) simp_all
  show ?thesis
  proof (rule safe_bind [OF rl], clarify)
    fix egr outs st3
    assume lr: "loop_result pkts ?outs st (egr, outs, st3)"
    then have e3: "eff (set pkts - stored outs) (set pkts) st st3" and len: "length outs = c"
      and cov: "covered egr outs" "distinct (concat outs)" "stored outs \<subseteq> set pkts"
      using emp by (simp_all add: loop_result_def)
    have sub: "stored outs \<subseteq> held st3" using cov(3) assms(6) eff_held [OF e3] by (auto simp: frames_ok_def)
    have "w \<in> set (netdev_list (nd st3))" "length outs = ifnet_dev_count (nd st3)"
      using assms(3,4) len e3 by (simp_all add: eff_def same_net_def ifnet_dev_count_def)
    from enqueue_segments_eff [OF eff_rinv [OF e3] this _ cov(1,2) sub] len assms(5) obtain st4 where
      st4: "enqueue_loop w egr (zip [1..<c + 1] outs) st3 = Inr st4" "eff (stored outs) {} st3 st4" by auto
    have "eff (set pkts) {} st st4" by (rule eff_Un_absorb [OF e3 st4(2)]) (use cov(3) in auto)
    with st4(1) show "safe (enqueue_loop w egr (zip [1..<c + 1] outs) st3) (\<lambda>st'. eff (set pkts) {} st st')" by simp
  qed
qed

lemma router_if_input_safe:
  assumes "rinv st" and "ext_ok x" and "w \<in> set (netdev_list (nd st))"
    and "ifnet_dev_count (nd st) \<le> 7" and "frames_ok pkts st"
  shows "safe (router_if_input x (Some w) pkts st) (\<lambda>st'. eff (set pkts) {} st st')"
proof (cases "pkts = []")
  case True
  then show ?thesis using eff_refl [OF assms(1)] by (simp add: router_if_input_def)
next
  case False
  obtain ok1 st1 where h1: "heap_alloc st = (ok1, st1)" by (cases "heap_alloc st")
  obtain ok2 st2 where h2: "heap_alloc st1 = (ok2, st2)" by (cases "heap_alloc st1")
  have e1: "eff {} {} st st1" by (rule heap_alloc_eff [OF assms(1) h1])
  have e2: "eff {} {} st1 st2" by (rule heap_alloc_eff [OF eff_rinv [OF e1] h2])
  from eff_trans [OF e1 e2] have e: "eff {} {} st st2" by simp
  have nd: "nd st2 = nd st" using h1 h2 by (auto simp: heap_alloc_def)
  have fr: "frames_ok pkts st2"
    using assms(5) eff_held [OF e] eff_bufs [OF e] by (auto simp: frames_ok_def)
  have "\<exists>st'. free_bufs pkts st2 = Inr st' \<and> eff (set pkts) {} st2 st'"
    using fr by (intro free_bufs_eff [OF eff_rinv [OF e]]) (auto simp: frames_ok_def)
  moreover note route_burst_safe [OF eff_rinv [OF e] assms(2) _ _ assms(4) fr, of w]
  moreover have "router_if_input x (Some w) pkts st = (if \<not> ok1 \<or> \<not> ok2 then free_bufs pkts st2
      else bind_res (route_loop x w pkts 0 (replicate (ifnet_dev_count (nd st)) []) st2) (\<lambda>(egr_idx, outs, st3).
        enqueue_loop w egr_idx (zip [1..<ifnet_dev_count (nd st) + 1] outs) st3))"
    using False h1 h2 by (simp add: router_if_input_def Let_def)
  ultimately have "safe (router_if_input x (Some w) pkts st) (\<lambda>st'. eff (set pkts) {} st2 st')"
    using assms(3) nd by (auto simp del: upt_Suc)
  then show ?thesis
  proof (rule safe_mono)
    fix st' assume "eff (set pkts) {} st2 st'"
    from eff_trans [OF e this] show "eff (set pkts) {} st st'" by simp
  qed
qed


text \<open>A router with one device and two buffers, one of them holding an ARP request.\<close>

definition demo_dev :: "unit ifnet" where
  "demo_dev = zero_ifnet\<lparr>ifnet_idx := 1, if_name := ''NW'', hwaddr := [2, 0, 0, 0, 0, 1], ips_cnt := 1, arp_map := Some (),
     if_ips := [[10, 0, 0, 1], [0, 0, 0, 0]],
     egress_queue := \<lparr>stopped = False, next_read = 0, next_write = 0, pq_count = 0, pq_capacity = 4, pkt = replicate 4 0\<rparr>\<rparr>"

definition demo_net :: "unit netdev" where
  "demo_net = \<lparr>ifs = [7 \<mapsto> demo_dev], ifnet_map = Some 7 # replicate 31 None, next_if_idx = 2, netdev_list = [7]\<rparr>"

definition demo_frame :: ethbuf where
  "demo_frame = (new_ethbuf ([0, 0] @ replicate 6 0xff @ [2, 0, 0, 0, 0, 9] @ [0x08, 0x06] @ [0, 1, 0x08, 0, 6, 4] @ [0, 1] @
     [2, 0, 0, 0, 0, 9] @ [10, 0, 0, 9] @ replicate 6 0 @ [10, 0, 0, 1] @ replicate 20 0))
       \<lparr>packet_type := 0x0f, data_off := 2, data_len := 42\<rparr>"

definition demo_pool :: bufpool where
  "demo_pool = \<lparr>bufs = [3 \<mapsto> demo_frame, 4 \<mapsto> new_ethbuf (replicate 64 0)], free_list = [4], inuse_list = [3],
     pool_capacity = 2, fresh = 5, alloc_ok = (\<lambda>_. True), clk = 0\<rparr>"

definition demo_router :: "(unit, unit, unit) rstate" where
  "demo_router = \<lparr>nd = demo_net, pool = demo_pool, rtable = (), npfst = (), notified = []\<rparr>"

definition demo_ext :: "(unit, unit, unit) ext" where
  "demo_ext = \<lparr>th_get = (\<lambda>_ ip. if ip = [10, 0, 0, 2] then Some [2, 0, 0, 0, 0, 2] else None),
     th_put = (\<lambda>t _ _. (t, True)),
     lpm_lookup = (\<lambda>_ _. Some \<lparr>rt_if_idx = 1, rt_addr_len = 0, rt_next_hop = [], rt_if_addr_idx = 0\<rparr>),
     lpm_insert = (\<lambda>t _ _ _. Some t), npf_handler = (\<lambda>n m _ _ P. (0, Some m, P, n))\<rparr>"

lemmas demo_defs = demo_router_def demo_net_def demo_pool_def demo_dev_def zero_ifnet_def

lemma demo_frame_ok: "buf_ready demo_frame" "roomy demo_frame" "frame_ok demo_frame"
  by (simp_all add: demo_frame_def new_ethbuf_def buf_ready_def eb_wf_def roomy_def frame_ok_def needs_l2_def empty_priv_def)

lemma demo_pool_ok: "pool_ok demo_pool"
proof -
  have "buf_ready (new_ethbuf (replicate 64 0))" "buf_clean (new_ethbuf (replicate 64 0))" "roomy (new_ethbuf (replicate 64 0))"
    by (simp_all add: new_ethbuf_def buf_ready_def buf_clean_def eb_wf_def roomy_def empty_priv_def)
  then show ?thesis using demo_frame_ok
    by (simp add: pool_ok_def pool_wf_def pool_core_def buf_sat_def demo_pool_def)
qed

lemma demo_queued: "queued demo_router = []"
  by (simp add: queued_def dev_queue_def demo_defs pktq_list_def)

lemma demo_inv: "rinv demo_router" "held demo_router = {3}"
proof -
  have "netdev_wf demo_net"
    by (simp add: netdev_wf_def demo_net_def demo_dev_def zero_ifnet_def MAX_IFNET_IDS_def)
  moreover have "dev_ok demo_dev"
    by (simp add: dev_ok_def demo_dev_def zero_ifnet_def pktq_wf_def BSTGW_MAX_NETIF_IPS_def)
  ultimately show "rinv demo_router"
    using demo_pool_ok demo_queued
    by (simp add: rinv_def devs_ok_def demo_router_def) (simp add: demo_net_def)
  show "held demo_router = {3}"
    by (simp add: held_def demo_queued) (simp add: demo_router_def demo_pool_def)
qed

lemma demo_ext_ok: "ext_ok demo_ext"
proof -
  have "\<exists>b. eb = eb\<lparr>buf := b\<rparr>" for eb :: ethbuf by (rule exI [of _ "buf eb"]) simp
  then show ?thesis
    unfolding ext_ok_def th_typed_def lpm_typed_def npf_ok_def demo_ext_def by (auto split: if_splits)
qed


end
