(* ===== verification/Vnet.thy ===== *)
theory Vnet
  imports Virtio RouterInput
begin

text \<open>
  The data path of the virtual NIC (\<open>virtio-nic/vnic/src/virtio-net.c\<close> from \<open>virtio_net_can_receive\<close> on, the
  handlers of \<open>vnic.c\<close>): frames from the normal world's transmit queue go to the
  router, frames from the card's egress queue go to the normal world's receive queue. The normal world
  may change its memory between any two accesses; a copy of a block is one access. The result of
  \<open>vqueue_map_iovs\<close> that no assignment reaches is \<open>stk\<close>, a value for every moment.
\<close>

section \<open>Towards the normal world\<close>

definition VIRTIO_NAPI_RETRY :: int where "VIRTIO_NAPI_RETRY = -47"
definition VIRTIO_NO_AVAIL :: int where "VIRTIO_NO_AVAIL = -48"
definition ERR_GENERIC :: int where "ERR_GENERIC = -1"
definition ERR_NO_MEMORY :: int where "ERR_NO_MEMORY = -5"
definition VIRTIO_NET_RX_QUEUE_DEFAULT_SIZE :: nat where "VIRTIO_NET_RX_QUEUE_DEFAULT_SIZE = 256"
definition VIRTIO_NET_TX_QUEUE_DEFAULT_SIZE :: nat where "VIRTIO_NET_TX_QUEUE_DEFAULT_SIZE = 256"
definition MAX_RX_IOVS :: nat where "MAX_RX_IOVS = 1"
definition MAX_TX_IOVS :: nat where "MAX_TX_IOVS = 4"

text \<open>The size of \<open>struct virtio_net_hdr_v1\<close>, and the header of a received frame: one buffer, no offloads.\<close>

definition NET_HDR_LEN :: nat where "NET_HDR_LEN = 12"

definition rx_vnet_hdr :: "byte list" where
  "rx_vnet_hdr = replicate 10 0 @ [1, 0]"

definition fresh_iovs :: "nat \<Rightarrow> vqueue_iovs" where
  "fresh_iovs n = \<lparr>iovs_cnt = n, iovs_used = 0, iovs_len = 0, phys = replicate n 0, iovs = replicate n \<lparr>iov_base = 0, iov_len = 0\<rparr>\<rparr>"

definition virtio_net_can_receive :: "vnic \<Rightarrow> vqueue \<Rightarrow> bool" where
  "virtio_net_can_receive v rx_vq \<longleftrightarrow> vring_addr rx_vq \<noteq> 0 \<and> vd_status (vn_vdev v) AND VIRTIO_CONFIG_S_DRIVER_OK \<noteq> 0"

text \<open>Header and data into the mapped buffer. The flag says whether both copies were complete.\<close>

definition rx_fill :: "(nat \<Rightarrow> nat) \<Rightarrow> (nat \<Rightarrow> int) \<Rightarrow> vqueue_buf \<Rightarrow> byte list \<Rightarrow> nat \<Rightarrow> nat \<Rightarrow> nwmach \<Rightarrow>
    (bool \<times> vqueue_buf \<times> nwmach) res" where
  "rx_fill va stk b blk off sz s =
     bind_res (vqueue_map_iovs va (stk (nwtick s)) (out_iovs b)) (\<lambda>(r, l).
     if r \<noteq> NO_ERROR then Inr (False, b\<lparr>out_iovs := l\<rparr>, s)
     else
       let s1 = sync s in
       bind_res (membuf_to_kern_iovec (take 1 (iovs l)) rx_vnet_hdr (Some 0) NET_HDR_LEN (nwmem s1)) (\<lambda>(n, m).
       let s2 = s1\<lparr>nwmem := m\<rparr> in
       if n \<noteq> int NET_HDR_LEN then bind_res (vqueue_unmap_iovs l) (\<lambda>l'. Inr (False, b\<lparr>out_iovs := l'\<rparr>, s2))
       else
         let s3 = sync s2 in
         bind_res (membuf_to_kern_iovec_skip_begin (take 1 (iovs l)) blk (Some off) sz NET_HDR_LEN (nwmem s3)) (\<lambda>(n', m').
         bind_res (vqueue_unmap_iovs l) (\<lambda>l'. Inr (n' = int sz, b\<lparr>out_iovs := l'\<rparr>, s3\<lparr>nwmem := m'\<rparr>)))))"

text \<open>
  One frame: skipped and freed, handed over and freed, or kept because the loop stops. A buffer whose
  frame is not handed over goes back to the normal world with length 0.
\<close>

datatype rx_step = Rx_skip | Rx_sent | Rx_stop

definition receive_one :: "(nat \<Rightarrow> nat) \<Rightarrow> (nat \<Rightarrow> int) \<Rightarrow> vqueue_buf \<Rightarrow> vqueue \<Rightarrow> nwmach \<Rightarrow> bufpool \<Rightarrow> nat \<Rightarrow>
    (rx_step \<times> vqueue_buf \<times> vqueue \<times> nwmach \<times> bufpool) res" where
  "receive_one va stk b vq s P a =
     (if a = 0 then Inr (Rx_skip, b, vq, s, P)
      else case bstgw_ethbuf_linearize (bufs P) (Some a) of None \<Rightarrow> Inl Endless
      | Some (Inl e) \<Rightarrow> Inl e
      | Some (Inr (h, r)) \<Rightarrow>
          let P1 = P\<lparr>bufs := h\<rparr> in
          if r \<noteq> 0 then bind_res (bstgw_ethpool_buf_free a P1) (\<lambda>P2. Inr (Rx_skip, b, vq, s, P2))
          else (case h a of None \<Rightarrow> Inl Null_deref
          | Some eb \<Rightarrow>
              let sz = bstgw_ethbuf_data_len eb in
              if sz = 0 then bind_res (bstgw_ethpool_buf_free a P1) (\<lambda>P2. Inr (Rx_skip, b, vq, s, P2))
              else bind_res (bstgw_ethbuf_data_ptr eb 0) (\<lambda>p. case p of None \<Rightarrow> Inl Assert_failed
              | Some off \<Rightarrow>
                  bind_res (vqueue_get_avail_buf vq b s) (\<lambda>(r, vq1, b1, s1).
                  if r \<noteq> NO_ERROR then Inr (Rx_stop, b1, vq1, s1, P1)
                  else if iovs_used (out_iovs b1) < 1 \<or> iov_len (iovs (out_iovs b1) ! 0) < NET_HDR_LEN + sz
                  then bind_res (vqueue_add_buf vq1 b1 0 s1) (\<lambda>(_, s2). Inr (Rx_stop, b1, vq1, s2, P1))
                  else bind_res (rx_fill va stk b1 (buf eb) off sz s1) (\<lambda>(ok, b2, s2).
                    if \<not> ok then bind_res (vqueue_add_buf vq1 b2 0 s2) (\<lambda>(_, s3). Inr (Rx_stop, b2, vq1, s3, P1))
                    else bind_res (vqueue_add_buf vq1 b2 (NET_HDR_LEN + sz) s2) (\<lambda>(_, s3).
                      bind_res (bstgw_ethpool_buf_free a P1) (\<lambda>P2. Inr (Rx_sent, b2, vq1, s3, P2))))))))"

fun receive_loop :: "(nat \<Rightarrow> nat) \<Rightarrow> (nat \<Rightarrow> int) \<Rightarrow> nat \<Rightarrow> nat list \<Rightarrow> vqueue_buf \<Rightarrow> vqueue \<Rightarrow> nwmach \<Rightarrow> bufpool \<Rightarrow> nat \<Rightarrow> nat \<Rightarrow>
    (nat \<times> nat \<times> vqueue \<times> nwmach \<times> bufpool) res" where
  "receive_loop va stk burst [] b vq s P processed enqueued = Inr (processed, enqueued, vq, s, P)"
| "receive_loop va stk burst (a # as) b vq s P processed enqueued =
     bind_res (receive_one va stk b vq s P a) (\<lambda>(step, b1, vq1, s1, P1).
     case step of Rx_stop \<Rightarrow> Inr (processed, enqueued, vq1, s1, P1)
     | Rx_skip \<Rightarrow> receive_loop va stk burst as b1 vq1 s1 P1 (processed + 1) enqueued
     | Rx_sent \<Rightarrow>
         if processed + 1 \<ge> burst then Inr (processed + 1, enqueued + 1, vq1, s1, P1)
         else receive_loop va stk burst as b1 vq1 s1 P1 (processed + 1) (enqueued + 1))"

definition receive_buf :: vqueue_buf where
  "receive_buf = \<lparr>vb_head = 0, in_iovs = fresh_iovs 0, out_iovs = fresh_iovs MAX_RX_IOVS\<rparr>"

definition virtio_net_receive :: "(nat \<Rightarrow> int) \<Rightarrow> nat list \<Rightarrow> vnic \<Rightarrow> bufpool \<Rightarrow> (int \<times> vnic \<times> bufpool) res" where
  "virtio_net_receive stk ethbufs v P =
     bind_res (get_vq 0 v) (\<lambda>rx_vq.
     if \<not> virtio_net_can_receive v rx_vq then Inr (-1, v, P)
     else bind_res (vqueue_num_of_avail_buf rx_vq (vn_nw v)) (\<lambda>(space, s).
       if space = 0 then Inr (VIRTIO_NO_AVAIL, v\<lparr>vn_nw := s\<rparr>, P)
       else if space < VIRTIO_NET_RX_QUEUE_DEFAULT_SIZE div 2 then Inr (VIRTIO_NAPI_RETRY, v\<lparr>vn_nw := s\<rparr>, P)
       else bind_res (receive_loop (vn_va v) stk (rx_burst (vn_vnet v)) ethbufs receive_buf rx_vq s P 0 0)
         (\<lambda>(processed, enqueued, vq, s', P').
           let v' = (set_vq 0 vq v)\<lparr>vn_nw := s'\<rparr> in
           if enqueued > 0 then bind_res (vqueue_kick 0 v') (\<lambda>v''. Inr (int processed, v'', P'))
           else Inr (int processed, v', P'))))"

definition vnic_egr_ntfy_handler :: "vnic \<Rightarrow> vnic" where
  "vnic_egr_ntfy_handler v = v\<lparr>vn_napi := napi_schedule (vn_napi v)\<rparr>"

definition vnic_xmit_handler :: "(nat \<Rightarrow> int) \<Rightarrow> nat list \<Rightarrow> vnic \<Rightarrow> ('th, 'lp, 'n) rstate \<Rightarrow> (int \<times> vnic \<times> ('th, 'lp, 'n) rstate) res" where
  "vnic_xmit_handler stk pkts v st =
     bind_res (get_vq 1 v) (\<lambda>tx_vq.
     if vring_addr tx_vq = 0 then Inr (0, v, st)
     else bind_res (virtio_net_receive stk pkts v (pool st)) (\<lambda>(r, v', P). Inr (r, v', st\<lparr>pool := P\<rparr>)))"

section \<open>From the normal world\<close>

text \<open>Header and data out of the mapped buffer; the result is \<open>NO_ERROR\<close> or the error the caller returns.\<close>

definition tx_fill :: "vqueue_iovs \<Rightarrow> nat \<Rightarrow> ethbuf \<Rightarrow> nwmach \<Rightarrow> (int \<times> ethbuf \<times> nwmach) res" where
  "tx_fill l pckt_len eb s =
     (let iov = take (iovs_used l) (iovs l); s1 = sync s in
      bind_res (kern_iovec_to_membuf (replicate NET_HDR_LEN 0) (Some 0) NET_HDR_LEN iov (nwmem s1)) (\<lambda>(n, hdr).
      if n \<noteq> int NET_HDR_LEN then Inr (ERR_INVALID_ARGS, eb, s1)
      else if hdr ! 0 \<noteq> 0 \<or> hdr ! 1 \<noteq> 0 then Inr (ERR_INVALID_ARGS, eb, s1)
      else
        let eb1 = eb\<lparr>data_len := pckt_len\<rparr>; s2 = sync s1 in
        bind_res (bstgw_ethbuf_data_ptr eb1 0) (\<lambda>p.
        bind_res (kern_iovec_to_membuf_skip_begin (buf eb1) p pckt_len iov NET_HDR_LEN (nwmem s2)) (\<lambda>(n', bytes).
          Inr (if n' = int pckt_len then NO_ERROR else ERR_GENERIC, eb1\<lparr>buf := bytes\<rparr>, s2)))))"

text \<open>
  One round of the loop: it leaves the loop, returns an error after freeing every frame collected so
  far, or goes on with the frame it collected, if it did not drop it.
\<close>

datatype tx_step = Tx_break | Tx_return int | Tx_next "nat option"

definition tx_abort :: "int \<Rightarrow> nat \<Rightarrow> nat list \<Rightarrow> vqueue_buf \<Rightarrow> vqueue \<Rightarrow> nwmach \<Rightarrow> ('th, 'lp, 'n) rstate \<Rightarrow>
    (tx_step \<times> vqueue_buf \<times> vqueue \<times> nwmach \<times> ('th, 'lp, 'n) rstate) res" where
  "tx_abort r m frames b vq s st =
     bind_res (free_buf m st) (\<lambda>st1. bind_res (free_bufs frames st1) (\<lambda>st2. Inr (Tx_return r, b, vq, s, st2)))"

definition tx_done :: "nat option \<Rightarrow> nat \<Rightarrow> vqueue_buf \<Rightarrow> vqueue \<Rightarrow> nwmach \<Rightarrow> ('th, 'lp, 'n) rstate \<Rightarrow>
    (tx_step \<times> vqueue_buf \<times> vqueue \<times> nwmach \<times> ('th, 'lp, 'n) rstate) res" where
  "tx_done fr pckt_len b vq s st =
     bind_res (vqueue_unmap_iovs (in_iovs b)) (\<lambda>l.
     bind_res (vqueue_add_buf vq b (add32 NET_HDR_LEN pckt_len) s) (\<lambda>(_, s').
       Inr (Tx_next fr, b\<lparr>in_iovs := l\<rparr>, vq, s', st)))"

text \<open>What happens to a frame buffer \<open>m\<close> once a buffer of the normal world has been taken and mapped.\<close>

definition tx_take :: "nat \<Rightarrow> nat \<Rightarrow> nat list \<Rightarrow> vqueue_buf \<Rightarrow> vqueue \<Rightarrow> nwmach \<Rightarrow> ('th, 'lp, 'n) rstate \<Rightarrow>
    (tx_step \<times> vqueue_buf \<times> vqueue \<times> nwmach \<times> ('th, 'lp, 'n) rstate) res" where
  "tx_take burst m frames b vq s st =
     (let l = in_iovs b; pckt_len = sub32 (iovs_len l) NET_HDR_LEN in
      if iov_len (iovs l ! 0) < NET_HDR_LEN \<or> pckt_len = 0 \<or> pckt_len < 42 \<or> pckt_len > BSTGW_DEFAULT_BUF_SIZE - 2
      then bind_res (free_buf m st) (\<lambda>st1. tx_done None pckt_len b vq s st1)
      else
        bind_res (get_eb m st) (\<lambda>eb.
        bind_res (tx_fill l pckt_len eb s) (\<lambda>(r, eb', s1).
        let st1 = set_eb m eb' st in
        if r \<noteq> NO_ERROR then bind_res (free_buf m st1) (\<lambda>st2. bind_res (vqueue_unmap_iovs l) (\<lambda>l'.
          bind_res (free_bufs frames st2) (\<lambda>st3. Inr (Tx_return r, b\<lparr>in_iovs := l'\<rparr>, vq, s1, st3))))
        else if length frames \<ge> burst then Inl Out_of_bounds
        else tx_done (Some m) pckt_len b vq s1 st1)))"

definition flush_one :: "(nat \<Rightarrow> nat) \<Rightarrow> (nat \<Rightarrow> int) \<Rightarrow> nat \<Rightarrow> nat list \<Rightarrow> vqueue_buf \<Rightarrow> vqueue \<Rightarrow> nwmach \<Rightarrow>
    ('th, 'lp, 'n) rstate \<Rightarrow> (tx_step \<times> vqueue_buf \<times> vqueue \<times> nwmach \<times> ('th, 'lp, 'n) rstate) res" where
  "flush_one va stk burst frames b vq s st =
     bind_res (bstgw_ethpool_buf_alloc (pool st)) (\<lambda>(m, P).
     bind_res (get_eb m (st\<lparr>pool := P\<rparr>)) (\<lambda>eb.
     let st1 = set_eb m (eb\<lparr>data_off := 2, packet_type := RTE_PTYPE_L2_MASK\<rparr>) (st\<lparr>pool := P\<rparr>) in
     bind_res (vqueue_get_avail_buf vq b s) (\<lambda>(r, vq1, b1, s1).
     if r = ERR_NOT_ENOUGH_BUFFER then bind_res (free_buf m st1) (\<lambda>st2. Inr (Tx_break, b1, vq1, s1, st2))
     else if r \<noteq> NO_ERROR then tx_abort r m frames b1 vq1 s1 st1
     else if iovs_used (in_iovs b1) < 1 then tx_abort ERR_INVALID_ARGS m frames b1 vq1 s1 st1
     else bind_res (vqueue_map_iovs va (stk (nwtick s1)) (in_iovs b1)) (\<lambda>(r2, l).
       if r2 \<noteq> NO_ERROR then tx_abort r2 m frames (b1\<lparr>in_iovs := l\<rparr>) vq1 s1 st1
       else tx_take burst m frames (b1\<lparr>in_iovs := l\<rparr>) vq1 s1 st1))))"

text \<open>\<open>left\<close> counts the rounds that may follow; the first always happens.\<close>

fun flush_loop :: "(nat \<Rightarrow> nat) \<Rightarrow> (nat \<Rightarrow> int) \<Rightarrow> nat \<Rightarrow> nat \<Rightarrow> vqueue_buf \<Rightarrow> vqueue \<Rightarrow> nwmach \<Rightarrow> ('th, 'lp, 'n) rstate \<Rightarrow> nat list \<Rightarrow>
    nat \<Rightarrow> (int option \<times> nat \<times> nat list \<times> vqueue \<times> nwmach \<times> ('th, 'lp, 'n) rstate) res" where
  "flush_loop va stk burst left b vq s st frames num =
     bind_res (flush_one va stk burst frames b vq s st) (\<lambda>(step, b1, vq1, s1, st1).
     case step of Tx_break \<Rightarrow> Inr (None, num, frames, vq1, s1, st1)
     | Tx_return r \<Rightarrow> Inr (Some r, num, [], vq1, s1, st1)
     | Tx_next fr \<Rightarrow>
         let frames' = (case fr of None \<Rightarrow> frames | Some m \<Rightarrow> frames @ [m]) in
         (case left of 0 \<Rightarrow> Inr (None, num + 1, frames', vq1, s1, st1)
          | Suc left' \<Rightarrow> flush_loop va stk burst left' b1 vq1 s1 st1 frames' (num + 1)))"

declare flush_loop.simps [simp del]

definition flush_buf :: vqueue_buf where
  "flush_buf = \<lparr>vb_head = 0, in_iovs = fresh_iovs MAX_TX_IOVS, out_iovs = fresh_iovs 0\<rparr>"

text \<open>A failing receive handler is only logged: the frames it was given stay allocated.\<close>

definition virtio_net_flush_tx :: "('th, 'lp, 'n) ext \<Rightarrow> nat \<Rightarrow> (nat \<Rightarrow> int) \<Rightarrow> nat \<Rightarrow> vnic \<Rightarrow> ('th, 'lp, 'n) rstate \<Rightarrow>
    (int \<times> vnic \<times> ('th, 'lp, 'n) rstate) res" where
  "virtio_net_flush_tx x pktqueue_size stk dev v st =
     bind_res (get_vq 1 v) (\<lambda>tx_vq.
     if vd_status (vn_vdev v) AND VIRTIO_CONFIG_S_DRIVER_OK = 0 then Inr (0, v, st)
     else bind_res (vqueue_num_of_avail_buf tx_vq (vn_nw v)) (\<lambda>(data_avail, s).
     if data_avail = 0 then Inr (VIRTIO_NO_AVAIL, v\<lparr>vn_nw := s\<rparr>, st)
     else
       let v1 = v\<lparr>vn_nw := s, fec_ifp := (if fec_ifp v = None then ifnet_getbyname (Some ''imx6q-fec'') (nd st) else fec_ifp v)\<rparr> in
       bind_res (router_in_burst_size dev (fec_ifp v1) pktqueue_size st) (\<lambda>ref_burst.
       if ref_burst < VIRTIO_NET_TX_QUEUE_DEFAULT_SIZE div 2 then Inr (VIRTIO_NAPI_RETRY, v1, st)
       else
         let burst = min (min (tx_burst (vn_vnet v)) ref_burst) data_avail; (ok, st1) = heap_alloc st in
         if \<not> ok then Inr (ERR_NO_MEMORY, v1, st1)
         else bind_res (flush_loop (vn_va v) stk burst (burst - 1) flush_buf tx_vq s st1 [] 0) (\<lambda>(ret, num_packets, frames, vq, s', st2).
           let v2 = (set_vq 1 vq v1)\<lparr>vn_nw := s'\<rparr> in
           case ret of Some r \<Rightarrow> Inr (r, v2, st2)
           | None \<Rightarrow>
               bind_res (if num_packets > 0 then vqueue_kick 1 v2 else Inr v2) (\<lambda>v3.
               bind_res (if frames \<noteq> [] then bstgw_generic_rx_handler x dev frames st2 else Inr (0, st2)) (\<lambda>(_, st3).
                 Inr (int num_packets, v3, st3)))))))"


section \<open>Faults and results of the data path\<close>

text \<open>
  \<open>lax r Q\<close>: a deliberate check stops the computation, or one of the scatter/gather copies leaves its
  buffer, or the result has property \<open>Q\<close>.
\<close>

definition lax :: "'a res \<Rightarrow> ('a \<Rightarrow> bool) \<Rightarrow> bool" where
  "lax r Q = (case r of Inl e \<Rightarrow> e \<in> {Panic, Assert_failed, Out_of_bounds} | Inr x \<Rightarrow> Q x)"

lemma lax_simps [simp]: "lax (Inr x) Q = Q x" "lax (Inl e) Q = (e \<in> {Panic, Assert_failed, Out_of_bounds})"
  by (simp_all add: lax_def)

lemma lax_bind: "lax r Q \<Longrightarrow> (\<And>x. Q x \<Longrightarrow> lax (f x) R) \<Longrightarrow> lax (bind_res r f) R"
  by (cases r) auto

lemma lax_mono: "lax r Q \<Longrightarrow> (\<And>x. Q x \<Longrightarrow> R x) \<Longrightarrow> lax r R"
  by (cases r) auto

lemma lax_safe: "safe r Q \<Longrightarrow> lax r Q"
  by (cases r) (auto simp: safe_def)

definition like_iovs :: "vqueue_iovs \<Rightarrow> vqueue_iovs \<Rightarrow> bool" where
  "like_iovs l l' \<longleftrightarrow> iovs_wf l' \<and> iovs_used l' = iovs_used l \<and> iovs_cnt l' = iovs_cnt l \<and> iovs_len l' = iovs_len l \<and>
     map iov_len (iovs l') = map iov_len (iovs l)"

lemma map_iov_len_update: "i < length vs \<Longrightarrow> map iov_len (vs[i := (vs ! i)\<lparr>iov_base := a\<rparr>]) = map iov_len vs"
  by (simp add: map_update list_update_same_conv)

lemma map_loop_like:
  assumes "iovs_wf l" "i + n \<le> iovs_cnt l"
  shows "\<exists>bad l'. map_iovs_loop va i n l = Inr (bad, l') \<and> like_iovs l l' \<and> (\<forall>j. bad = Some j \<longrightarrow> j < iovs_cnt l)"
  using assms
proof (induction n arbitrary: i l)
  case (Suc n)
  let ?l = "l\<lparr>iovs := (iovs l)[i := (iovs l ! i)\<lparr>iov_base := va (phys l ! i)\<rparr>]\<rparr>"
  have i: "i < length (iovs l)" "i < length (phys l)" using Suc.prems by (simp_all add: iovs_wf_def)
  have l: "like_iovs l ?l" using Suc.prems(1) i by (simp add: like_iovs_def iovs_wf_def map_iov_len_update)
  from Suc.IH [of ?l "i + 1"] Suc.prems l obtain bad l' where
    "map_iovs_loop va (i + 1) n ?l = Inr (bad, l')" "like_iovs ?l l'" "\<forall>j. bad = Some j \<longrightarrow> j < iovs_cnt ?l"
    by (auto simp: like_iovs_def)
  then show ?case using i l Suc.prems(2) by (auto simp: Let_def like_iovs_def)
qed (simp add: like_iovs_def)

lemma clear_bases_like: "i \<le> length vs \<Longrightarrow> length (clear_bases i vs) = length vs \<and> map iov_len (clear_bases i vs) = map iov_len vs"
  by (induction i arbitrary: vs) (simp_all add: map_iov_len_update)

lemma map_iovs_like:
  assumes "iovs_wf l" "0 < iovs_used l"
  obtains r l' where "vqueue_map_iovs va j l = Inr (r, l')" "like_iovs l l'"
proof -
  have wf: "length (iovs l) = iovs_cnt l" "length (phys l) = iovs_cnt l" "iovs_used l \<le> iovs_cnt l"
    using assms(1) by (simp_all add: iovs_wf_def)
  then have ne: "phys l \<noteq> []" "iovs l \<noteq> []" using assms(2) by auto
  obtain bad l' where m: "map_iovs_loop va 0 (iovs_used l) l = Inr (bad, l')" "like_iovs l l'" "\<forall>j. bad = Some j \<longrightarrow> j < iovs_cnt l"
    using map_loop_like [OF assms(1), of 0 "iovs_used l" va] wf by auto
  show thesis
  proof (cases bad)
    case None
    then show thesis using that m ne wf by (simp add: vqueue_map_iovs_def)
  next
    case (Some i)
    have "i \<le> length (iovs l')" using Some m wf by (simp add: like_iovs_def iovs_wf_def)
    from clear_bases_like [OF this] m(2) have "like_iovs l (l'\<lparr>iovs := clear_bases i (iovs l')\<rparr>)"
      by (simp add: like_iovs_def iovs_wf_def)
    then show thesis using that Some m(1) ne wf by (simp add: vqueue_map_iovs_def)
  qed
qed

lemma unmap_loop_like:
  assumes "i + n \<le> length vs"
  shows "unmap_loop i n vs = Inl Assert_failed \<or> (\<exists>vs'. unmap_loop i n vs = Inr vs' \<and> length vs' = length vs)"
  using assms
proof (induction n arbitrary: i vs)
  case (Suc n)
  from Suc.IH [of "i + 1" "vs[i := (vs ! i)\<lparr>iov_base := 0\<rparr>]"] Suc.prems show ?case by auto
qed simp

lemma unmap_lax:
  assumes "iovs_wf l" "0 < iovs_used l"
  shows "lax (vqueue_unmap_iovs l) iovs_wf"
proof -
  have wf: "length (iovs l) = iovs_cnt l" "length (phys l) = iovs_cnt l" "iovs_used l \<le> iovs_cnt l"
    using assms(1) by (simp_all add: iovs_wf_def)
  then have "phys l \<noteq> []" "iovs l \<noteq> []" using assms(2) by auto
  then show ?thesis using unmap_loop_like [of 0 "iovs_used l" "iovs l"] wf by (auto simp: vqueue_unmap_iovs_def iovs_wf_def)
qed

definition ring_up :: "vqueue \<Rightarrow> bool" where
  "ring_up q \<longleftrightarrow> vq_inv q \<and> vring_addr q \<noteq> 0"

lemma add_buf_returns:
  assumes "ring_up vq"
  obtains r s' where "vqueue_add_buf vq b len s = Inr (r, s')"
proof -
  have "vring_addr vq \<noteq> 0" "vq_used vq \<noteq> 0" using assms by (auto simp: ring_up_def vq_inv_def)
  then have "\<exists>y. vqueue_add_buf vq b len s = Inr y" by (simp add: vqueue_add_buf_def deref_def Let_def)
  then show thesis using that by auto
qed

lemma get_avail_lax:
  assumes "vbuf_wf b" "ring_up vq"
  shows "lax (vqueue_get_avail_buf vq b s) (\<lambda>(r, vq', b', s'). vbuf_wf b' \<and> ring_up vq')"
proof -
  have "0 < vq_num vq" "vq_avail vq \<noteq> 0" using assms(2) by (auto simp: ring_up_def vq_inv_def)
  then have "case vqueue_get_avail_buf vq b s of Inl e \<Rightarrow> e = Panic \<or> e = Assert_failed
    | Inr (r, vq', b', s') \<Rightarrow> vbuf_wf b' \<and> (vq' = vq \<or> vq' = vq\<lparr>last_avail_idx := (last_avail_idx vq + 1) mod 2 ^ 16\<rparr>)"
    using get_avail_buf_spec [OF assms(1), of vq s] by (auto split: sum.splits)
  moreover have "ring_up (vq\<lparr>last_avail_idx := k\<rparr>)" for k
    using assms(2) by (simp add: ring_up_def vq_inv_def vring_off_def)
  ultimately show ?thesis using assms(2) by (auto split: sum.splits)
qed

lemma to_iovec_lax: "lax (to_iovec_loop vs b off len copied m) (\<lambda>_. True)"
  by (induction vs b off len copied m rule: to_iovec_loop.induct) (auto simp: Let_def)

lemma to_membuf_lax: "lax (membuf_to_kern_iovec vs b p len m) (\<lambda>_. True)"
  using to_iovec_lax by (auto simp: membuf_to_kern_iovec_def split: option.splits)

lemma to_skip_loop_lax: "lax (to_iovec_skip_loop vs b off len p k m) (\<lambda>_. True)"
proof (induction vs b off len p k m rule: to_iovec_skip_loop.induct)
  case (2 v vs b off len p k m)
  have "lax (bind_res (membuf_to_kern_iovec vs b q n m') (\<lambda>(r, m''). Inr (g r, m''))) (\<lambda>_. True)" for q n m' and g :: "int \<Rightarrow> int"
    by (rule lax_bind [OF to_membuf_lax]) auto
  moreover have "lax (bind_res (membuf_to_kern_iovec vs b q n m') Inr) (\<lambda>_. True)" for q n m'
    by (rule lax_bind [OF to_membuf_lax]) auto
  ultimately show ?case using 2 by (simp add: Let_def)
qed simp

lemma to_skip_lax: "lax (membuf_to_kern_iovec_skip_begin vs b p len k m) (\<lambda>_. True)"
  using to_membuf_lax to_skip_loop_lax by (auto simp: membuf_to_kern_iovec_skip_begin_def split: option.splits)

lemma rx_fill_lax:
  assumes "vbuf_wf b" "0 < iovs_used (out_iovs b)"
  shows "lax (rx_fill va stk b blk off sz s) (\<lambda>(ok, b', s'). vbuf_wf b')"
proof -
  have wf: "iovs_wf (out_iovs b)" "iovs_wf (in_iovs b)" using assms(1) by (simp_all add: vbuf_wf_def)
  obtain r l where l: "vqueue_map_iovs va (stk (nwtick s)) (out_iovs b) = Inr (r, l)" "like_iovs (out_iovs b) l"
    by (rule map_iovs_like [OF wf(1) assms(2)])
  have lw: "iovs_wf l" "0 < iovs_used l" using l(2) assms(2) by (simp_all add: like_iovs_def)
  have un: "lax (bind_res (vqueue_unmap_iovs l) (\<lambda>l'. Inr (c, b\<lparr>out_iovs := l'\<rparr>, t))) (\<lambda>(ok, b', s'). vbuf_wf b')" for c t
    by (rule lax_bind [OF unmap_lax [OF lw]]) (use wf in \<open>simp add: vbuf_wf_def\<close>)
  have sk: "lax (bind_res (membuf_to_kern_iovec_skip_begin vs blk q k p m) (\<lambda>(n', m').
      bind_res (vqueue_unmap_iovs l) (\<lambda>l'. Inr (n' = int sz, b\<lparr>out_iovs := l'\<rparr>, t\<lparr>nwmem := m'\<rparr>)))) (\<lambda>(ok, b', s'). vbuf_wf b')" for vs q k p m t
    by (rule lax_bind [OF to_skip_lax]) (use un in auto)
  have b: "vbuf_wf (b\<lparr>out_iovs := l\<rparr>)" using wf lw by (simp add: vbuf_wf_def)
  have hd: "lax (bind_res (membuf_to_kern_iovec vs h q k m) (\<lambda>(n, m').
      if n \<noteq> int NET_HDR_LEN then bind_res (vqueue_unmap_iovs l) (\<lambda>l'. Inr (False, b\<lparr>out_iovs := l'\<rparr>, t\<lparr>nwmem := m'\<rparr>))
      else let s3 = sync (t\<lparr>nwmem := m'\<rparr>) in
         bind_res (membuf_to_kern_iovec_skip_begin vs blk (Some off) sz NET_HDR_LEN (nwmem s3)) (\<lambda>(n', m').
         bind_res (vqueue_unmap_iovs l) (\<lambda>l'. Inr (n' = int sz, b\<lparr>out_iovs := l'\<rparr>, s3\<lparr>nwmem := m'\<rparr>))))) (\<lambda>(ok, b', s'). vbuf_wf b')" for vs h q k m t
    by (rule lax_bind [OF to_membuf_lax]) (use un sk in \<open>auto simp: Let_def\<close>)
  show ?thesis using hd b unfolding rx_fill_def l(1) by (simp add: Let_def del: One_nat_def)
qed

text \<open>What handing one frame to the normal world does to the pool.\<close>

definition freed :: "nat set \<Rightarrow> bufpool \<Rightarrow> bufpool \<Rightarrow> bool" where
  "freed A P P' \<longleftrightarrow> pool_ok P' \<and> set (inuse_list P') = set (inuse_list P) - A \<and> (\<forall>c. c \<notin> A \<longrightarrow> bufs P' c = bufs P c)"

lemma freed_none: "pool_ok P \<Longrightarrow> freed {} P P"
  by (simp add: freed_def)

lemma freed_trans: "freed A P P1 \<Longrightarrow> freed B P1 P2 \<Longrightarrow> freed (A \<union> B) P P2"
  by (auto simp: freed_def)

lemma free_one:
  assumes "pool_ok P" "a \<in> set (inuse_list P)"
  obtains P' where "bstgw_ethpool_buf_free a P = Inr P'" "freed {a} P P'"
proof -
  from pool_ok_free_buf [OF assms] obtain P' where "bstgw_ethpool_buf_free a P = Inr P'" "pool_ok P'"
    "set (inuse_list P') = set (inuse_list P) - {a}" "\<And>b. b \<noteq> a \<Longrightarrow> bufs P' b = bufs P b" by blast
  then show thesis using that by (simp add: freed_def)
qed

definition rx_post :: "nat \<Rightarrow> bufpool \<Rightarrow> rx_step \<times> vqueue_buf \<times> vqueue \<times> nwmach \<times> bufpool \<Rightarrow> bool" where
  "rx_post a P = (\<lambda>(step, b', vq', s', P'). vbuf_wf b' \<and> ring_up vq' \<and> freed (if step = Rx_stop then {} else {a}) P P')"

lemma receive_one_lax:
  assumes "pool_ok P" "a \<in> set (inuse_list P)" "vbuf_wf b" "ring_up vq"
  shows "lax (receive_one va stk b vq s P a) (rx_post a P)"
proof -
  have "buf_sat buf_ready P a" "dom (bufs P) \<subseteq> {1..<fresh P}"
    using assms(1,2) by (auto simp: pool_ok_def pool_wf_def pool_core_def)
  then obtain eb where eb: "bufs P a = Some eb" "buf_ready eb" and a: "a \<noteq> 0"
    by (auto simp: buf_sat_def split: option.splits)
  have lin: "bstgw_ethbuf_linearize (bufs P) (Some a) = Some (Inr (bufs P, 0))"
    using eb by (simp add: bstgw_ethbuf_linearize_def buf_ready_def)
  obtain P2 where P2: "bstgw_ethpool_buf_free a P = Inr P2" "freed {a} P P2" by (rule free_one [OF assms(1,2)])
  have stop: "lax (bind_res (vqueue_add_buf vq1 b1 k s1) (\<lambda>(_, s2). Inr (Rx_stop, b1, vq1, s2, P))) (rx_post a P)"
    if "vbuf_wf b1" "ring_up vq1" for b1 vq1 k s1
    using add_buf_returns [OF that(2), of b1 k s1] that freed_none [OF assms(1)] by (force simp: rx_post_def)
  have sent: "lax (bind_res (vqueue_add_buf vq1 b1 k s1) (\<lambda>(_, s3). Inr (Rx_sent, b1, vq1, s3, P2))) (rx_post a P)"
    if "vbuf_wf b1" "ring_up vq1" for b1 vq1 k s1
    using add_buf_returns [OF that(2), of b1 k s1] that P2 by (force simp: rx_post_def)
  have fill: "lax (bind_res (rx_fill va stk b1 (buf eb) off sz s1) (\<lambda>(ok, b2, s2).
        if \<not> ok then bind_res (vqueue_add_buf vq1 b2 0 s2) (\<lambda>(_, s3). Inr (Rx_stop, b2, vq1, s3, P))
        else bind_res (vqueue_add_buf vq1 b2 k s2) (\<lambda>(_, s3). Inr (Rx_sent, b2, vq1, s3, P2)))) (rx_post a P)"
    if "vbuf_wf b1" "ring_up vq1" "0 < iovs_used (out_iovs b1)" for b1 vq1 off sz s1 k
    by (rule lax_bind [OF rx_fill_lax [OF that(1,3)]]) (use stop sent that(2) in auto)
  have get: "lax (bind_res (vqueue_get_avail_buf vq b s) (\<lambda>(r, vq1, b1, s1).
          if r \<noteq> NO_ERROR then Inr (Rx_stop, b1, vq1, s1, P)
          else if iovs_used (out_iovs b1) < 1 \<or> iov_len (iovs (out_iovs b1) ! 0) < NET_HDR_LEN + sz
          then bind_res (vqueue_add_buf vq1 b1 0 s1) (\<lambda>(_, s2). Inr (Rx_stop, b1, vq1, s2, P))
          else bind_res (rx_fill va stk b1 (buf eb) off sz s1) (\<lambda>(ok, b2, s2).
            if \<not> ok then bind_res (vqueue_add_buf vq1 b2 0 s2) (\<lambda>(_, s3). Inr (Rx_stop, b2, vq1, s3, P))
            else bind_res (vqueue_add_buf vq1 b2 (NET_HDR_LEN + sz) s2) (\<lambda>(_, s3). Inr (Rx_sent, b2, vq1, s3, P2))))) (rx_post a P)" for off sz
    by (rule lax_bind [OF get_avail_lax [OF assms(3,4)]])
      (use stop fill freed_none [OF assms(1)] in \<open>auto simp: rx_post_def not_less Suc_le_eq\<close>)
  have "rx_post a P (Rx_skip, b, vq, s, P2)" using assms P2 by (simp add: rx_post_def)
  moreover have "P\<lparr>bufs := bufs P\<rparr> = P" by simp
  ultimately show ?thesis
    using get a unfolding receive_one_def lin option.case sum.case prod.case Let_def \<open>P\<lparr>bufs := bufs P\<rparr> = P\<close> P2(1) bind_res_simps eb(1)
    by (auto simp: bstgw_ethbuf_data_ptr_def bstgw_ethbuf_data_len_def)
qed

lemma receive_loop_lax:
  assumes "pool_ok P" "set as \<subseteq> set (inuse_list P)" "distinct as" "vbuf_wf b" "ring_up vq"
  shows "lax (receive_loop va stk burst as b vq s P pr en) (\<lambda>(pr', en', vq', s', P').
    ring_up vq' \<and> pr \<le> pr' \<and> pr' - pr \<le> length as \<and> freed (set (take (pr' - pr) as)) P P')"
  using assms
proof (induction as arbitrary: b vq s P pr en)
  case Nil
  then show ?case by (simp add: freed_none)
next
  case (Cons a as)
  have one: "lax (receive_one va stk b vq s P a) (rx_post a P)"
    using Cons.prems by (intro receive_one_lax) auto
  have rest: "lax (receive_loop va stk burst as b1 vq1 s1 P1 (pr + 1) en1) (\<lambda>(pr', en', vq', s', P').
      ring_up vq' \<and> pr \<le> pr' \<and> pr' - pr \<le> length (a # as) \<and> freed (set (take (pr' - pr) (a # as))) P P')"
    if post: "vbuf_wf b1" "ring_up vq1" "freed {a} P P1" for b1 vq1 s1 P1 en1
  proof -
    have "set as \<subseteq> set (inuse_list P1)" "pool_ok P1" using Cons.prems(2,3) post(3) by (auto simp: freed_def)
    from Cons.IH [OF this(2,1) _ post(1,2), of s1 "pr + 1" en1] Cons.prems(3)
    have "lax (receive_loop va stk burst as b1 vq1 s1 P1 (pr + 1) en1) (\<lambda>(pr', en', vq', s', P').
      ring_up vq' \<and> pr + 1 \<le> pr' \<and> pr' - (pr + 1) \<le> length as \<and> freed (set (take (pr' - (pr + 1)) as)) P1 P')" by simp
    then show ?thesis
    proof (rule lax_mono, goal_cases)
      case (1 y)
      obtain pr' en' vq' s' P' where y: "y = (pr', en', vq', s', P')" by (cases y)
      have h: "ring_up vq'" "pr + 1 \<le> pr'" "pr' - (pr + 1) \<le> length as" "freed (set (take (pr' - (pr + 1)) as)) P1 P'"
        using 1 by (simp_all add: y)
      have "pr' - pr = Suc (pr' - (pr + 1))" using h(2) by simp
      then have "set (take (pr' - pr) (a # as)) = {a} \<union> set (take (pr' - (pr + 1)) as)" by simp
      with h freed_trans [OF post(3) h(4)] show ?case by (simp add: y)
    qed
  qed
  show ?case
    unfolding receive_loop.simps
  proof (rule lax_bind [OF one], goal_cases)
    case (1 y)
    obtain step b1 vq1 s1 P1 where y: "y = (step, b1, vq1, s1, P1)" by (cases y)
    then have "vbuf_wf b1" "ring_up vq1" "freed (if step = Rx_stop then {} else {a}) P P1" using 1 by (simp_all add: rx_post_def)
    then show ?case using rest y by (cases step) simp_all
  qed
qed

text \<open>The state of the card that the data path may change.\<close>

definition card_ok :: "vnic \<Rightarrow> vnic \<Rightarrow> bool" where
  "card_ok v v' \<longleftrightarrow> vnic_inv v' \<and> identity v' = identity v \<and> vn_va v' = vn_va v \<and> fec_ifp v' = fec_ifp v \<and>
     (\<forall>i < VNIC_QUEUE_MAX. ring_up (vd_vq (vn_vdev v) ! i) \<longrightarrow> ring_up (vd_vq (vn_vdev v') ! i))"

lemma card_ok_refl: "vnic_inv v \<Longrightarrow> card_ok v v"
  by (simp add: card_ok_def)

lemma card_ok_trans: "card_ok u v \<Longrightarrow> card_ok v w \<Longrightarrow> card_ok u w"
  by (simp add: card_ok_def)

lemma card_ok_frame:
  assumes "vnic_inv v"
  shows "card_ok v (v\<lparr>vn_nw := s\<rparr>)" "card_ok v (v\<lparr>vn_napi := n\<rparr>)"
  using assms by (simp_all add: card_ok_def vnic_inv_def identity_def)

lemma card_ok_set_vq:
  assumes "vnic_inv v" "ring_up q"
  shows "card_ok v ((set_vq i q v)\<lparr>vn_nw := s\<rparr>)"
proof -
  have "vq_inv q" using assms(2) by (simp add: ring_up_def)
  moreover have "ring_up (xs[i := q] ! j)" if "ring_up (xs ! j)" for xs j
    using assms(2) that by (cases "i = j"; cases "j < length xs") (auto simp: list_update_beyond)
  ultimately show ?thesis
    using set_vq_inv [OF assms(1), of q i] by (auto simp: card_ok_def vnic_inv_def identity_def set_vq_def upd_vdev_def)
qed

lemma vnic_queues:
  assumes "vnic_inv v" "i < VNIC_QUEUE_MAX"
  shows "get_vq i v = Inr (vd_vq (vn_vdev v) ! i)" "vq_inv (vd_vq (vn_vdev v) ! i)"
  using get_vq_inv [OF assms] by blast+

lemma kick_card:
  assumes "vnic_inv v" "i < VNIC_QUEUE_MAX" "ring_up (vd_vq (vn_vdev v) ! i)"
  obtains v' where "vqueue_kick i v = Inr v'" "card_ok v v'"
proof -
  let ?q = "vd_vq (vn_vdev v) ! i"
  have q: "kick_cb ?q = Some Vnic_vq_kick_cb" "vq_avail ?q \<noteq> 0" using assms(3) by (auto simp: ring_up_def vq_inv_def)
  have "card_ok v (virtio_notify (v\<lparr>vn_nw := s\<rparr>))" for s
    using assms(1) by (simp add: card_ok_def vnic_inv_def identity_def virtio_step_defs Let_def)
  then have "\<exists>v'. vqueue_kick i v = Inr v' \<and> card_ok v v'"
    using q vnic_queues [OF assms(1,2)] card_ok_frame(1) [OF assms(1)]
    by (simp add: vqueue_kick_def run_cb_def vnic_vq_kick_cb_def deref_def Let_def)
  then show thesis using that by blast
qed

lemma receive_lax:
  assumes "vnic_inv v" "pool_ok P" "set as \<subseteq> set (inuse_list P)" "distinct as"
  shows "lax (virtio_net_receive stk as v P) (\<lambda>(r, v', P').
    card_ok v v' \<and> r \<le> int (length as) \<and> freed (set (take (nat r) as)) P P')"
proof -
  let ?q = "vd_vq (vn_vdev v) ! 0"
  have q: "get_vq 0 v = Inr ?q" "vq_inv ?q" using vnic_queues [OF assms(1), of 0] by (simp_all add: VNIC_QUEUE_MAX_def)
  show ?thesis
  proof (cases "virtio_net_can_receive v ?q")
    case False
    then show ?thesis using q card_ok_refl [OF assms(1)] freed_none [OF assms(2)] by (simp add: virtio_net_receive_def)
  next
    case True
    then have up: "ring_up ?q" using q(2) by (simp add: ring_up_def virtio_net_can_receive_def)
    then have av: "vq_avail ?q \<noteq> 0" by (auto simp: ring_up_def vq_inv_def)
    then obtain space s where sp: "vqueue_num_of_avail_buf ?q (vn_nw v) = Inr (space, s)"
      by (simp add: vqueue_num_of_avail_buf_def deref_def Let_def)
    have wf: "vbuf_wf receive_buf" by (simp add: receive_buf_def vbuf_wf_def iovs_wf_def fresh_iovs_def)
    have step: "lax (if en' > 0 then bind_res (vqueue_kick 0 ((set_vq 0 q' v)\<lparr>vn_nw := s'\<rparr>)) (\<lambda>v''. Inr (int pr, v'', P'))
        else Inr (int pr, (set_vq 0 q' v)\<lparr>vn_nw := s'\<rparr>, P')) (\<lambda>(r, v', P').
        card_ok v v' \<and> r \<le> int (length as) \<and> freed (set (take (nat r) as)) P P')"
      if h: "ring_up q'" "pr \<le> length as" "freed (set (take pr as)) P P'" for q' s' pr P' and en' :: nat
    proof -
      let ?v = "(set_vq 0 q' v)\<lparr>vn_nw := s'\<rparr>"
      have c: "card_ok v ?v" by (rule card_ok_set_vq [OF assms(1) h(1)])
      then have "vnic_inv ?v" "ring_up (vd_vq (vn_vdev ?v) ! 0)" using up by (auto simp: card_ok_def VNIC_QUEUE_MAX_def)
      then obtain v'' where "vqueue_kick 0 ?v = Inr v''" "card_ok ?v v''"
        using kick_card [of ?v 0] by (auto simp: VNIC_QUEUE_MAX_def)
      then show ?thesis using c card_ok_trans [OF c] h by auto
    qed
    have "lax (bind_res (receive_loop (vn_va v) stk (rx_burst (vn_vnet v)) as receive_buf ?q s P 0 0)
         (\<lambda>(processed, enqueued, vq, s', P').
           let v' = (set_vq 0 vq v)\<lparr>vn_nw := s'\<rparr> in
           if enqueued > 0 then bind_res (vqueue_kick 0 v') (\<lambda>v''. Inr (int processed, v'', P'))
           else Inr (int processed, v', P'))) (\<lambda>(r, v', P').
        card_ok v v' \<and> r \<le> int (length as) \<and> freed (set (take (nat r) as)) P P')"
      by (rule lax_bind [OF receive_loop_lax [OF assms(2-4) wf up]]) (use step in \<open>auto simp: Let_def\<close>)
    then show ?thesis
      using True q(1) sp card_ok_frame(1) [OF assms(1)] freed_none [OF assms(2)]
      by (simp add: virtio_net_receive_def VIRTIO_NO_AVAIL_def VIRTIO_NAPI_RETRY_def)
  qed
qed

text \<open>Dropping the first packets of a device's queue together with their buffers.\<close>

lemma queue_sent_eff:
  assumes "rinv st" "p \<in> set (netdev_list (nd st))" "ifs (nd st) p = Some d" "dev_ok d"
    "pktq_wf q" "pq_capacity q = pq_capacity (egress_queue d)" "pktq_list q = drop n (pktq_list (egress_queue d))"
    "freed (set (take n (pktq_list (egress_queue d)))) (pool st) P"
  shows "eff {} {} st (set_dev p (d\<lparr>egress_queue := q\<rparr>) (st\<lparr>pool := P\<rparr>))"
proof -
  let ?l = "pktq_list (egress_queue d)" and ?d = "d\<lparr>egress_queue := q\<rparr>"
  let ?st = "set_dev p ?d st" and ?st' = "set_dev p ?d (st\<lparr>pool := P\<rparr>)"
  have inv: "distinct (queued st)" "set (queued st) \<subseteq> set (inuse_list (pool st))" using assms(1) by (simp_all add: rinv_def)
  have "mset ?l = mset (take n ?l) + mset (drop n ?l)" by (metis append_take_drop_id mset_append)
  then have m: "mset (queued ?st @ take n ?l) = mset (queued st)"
    using queued_set_dev [OF assms(1-3), of ?d] assms(7) by simp
  then have dist: "distinct (queued ?st @ take n ?l)" using inv(1) mset_eq_imp_distinct_iff by blast
  have qs: "set (queued st) = set (queued ?st) \<union> set (take n ?l)" using mset_eq_setD [OF m] by simp
  have nd: "queued ?st' = queued ?st" "pool ?st' = P" "nd ?st' = nd ?st" by (simp_all add: queued_def set_dev_def)
  have P: "pool_ok P" "set (inuse_list P) = set (inuse_list (pool st)) - set (take n ?l)"
    "\<And>c. c \<notin> set (take n ?l) \<Longrightarrow> bufs P c = bufs (pool st) c" using assms(8) by (simp_all add: freed_def)
  have "dev_ok ?d" using assms(4-6) by (simp add: dev_ok_def)
  then have "netdev_wf (nd ?st)" "devs_ok (nd ?st)" "same_net (nd st) (nd ?st)"
    using assms(1,3) by (auto simp: rinv_def netdev_wf_def devs_ok_def set_dev_def same_net_def dev_static_def)
  then show ?thesis using P dist qs inv(2) unfolding eff_def rinv_def held_def nd by auto
qed

text \<open>The packets at the head of a queue, as the router hands them out.\<close>

lemma queue_burst:
  assumes "rinv st" "p \<in> set (netdev_list (nd st))" "ifs (nd st) p = Some d"
  shows "set (pktq_list (egress_queue d)) \<subseteq> set (queued st)" "distinct (pktq_list (egress_queue d))"
    "set (pktq_list (egress_queue d)) \<subseteq> set (inuse_list (pool st))"
proof -
  have "dev_queue (nd st) p = pktq_list (egress_queue d)" using assms(3) by (simp add: dev_queue_def)
  moreover obtain ys zs where "netdev_list (nd st) = ys @ p # zs" using assms(2) by (auto dest: split_list)
  ultimately have "queued st = concat (map (dev_queue (nd st)) ys) @ pktq_list (egress_queue d) @ concat (map (dev_queue (nd st)) zs)"
    by (simp add: queued_def)
  moreover have "distinct (queued st)" "set (queued st) \<subseteq> set (inuse_list (pool st))" using assms(1) by (simp_all add: rinv_def)
  ultimately show "set (pktq_list (egress_queue d)) \<subseteq> set (queued st)" "distinct (pktq_list (egress_queue d))"
    "set (pktq_list (egress_queue d)) \<subseteq> set (inuse_list (pool st))" by auto
qed

definition tx_post :: "nat \<Rightarrow> vnic \<Rightarrow> ('th, 'lp, 'n) rstate \<Rightarrow> int \<times> vnic \<times> ('th, 'lp, 'n) rstate \<Rightarrow> bool" where
  "tx_post dev v st = (\<lambda>(sent, v', st'). card_ok v v' \<and> eff {} {} st st' \<and>
     dev_queue (nd st') dev = drop (nat sent) (dev_queue (nd st) dev))"

lemma xmit_lax:
  assumes "vnic_inv v" "pool_ok (pool st)" "set as \<subseteq> set (inuse_list (pool st))" "distinct as"
  shows "lax (vnic_xmit_handler stk as v st) (\<lambda>(r, v', st'). card_ok v v' \<and> r \<le> int (length as) \<and>
    (\<exists>P. st' = st\<lparr>pool := P\<rparr> \<and> freed (set (take (nat r) as)) (pool st) P))"
proof -
  have q: "get_vq 1 v = Inr (vd_vq (vn_vdev v) ! 1)" using vnic_queues [OF assms(1), of 1] by (simp add: VNIC_QUEUE_MAX_def)
  have "lax (bind_res (virtio_net_receive stk as v (pool st)) (\<lambda>(r, v', P). Inr (r, v', st\<lparr>pool := P\<rparr>)))
    (\<lambda>(r, v', st'). card_ok v v' \<and> r \<le> int (length as) \<and> (\<exists>P. st' = st\<lparr>pool := P\<rparr> \<and> freed (set (take (nat r) as)) (pool st) P))"
    by (rule lax_bind [OF receive_lax [OF assms]]) auto
  moreover have "\<exists>P. st = st\<lparr>pool := P\<rparr> \<and> freed {} (pool st) P"
    by (rule exI [of _ "pool st"]) (use freed_none [OF assms(2)] in simp)
  ultimately show ?thesis using card_ok_refl [OF assms(1)] unfolding vnic_xmit_handler_def q bind_res_simps by simp
qed

lemma pktq_tx_lax:
  fixes st :: "('th, 'lp, 'n) rstate"
  assumes "vnic_inv v" "rinv st" "dev \<in> set (netdev_list (nd st))"
  shows "lax (router_pktq_tx (vnic_xmit_handler stk) dev v st) (tx_post dev v st)"
proof -
  obtain d where d: "get_dev dev st = Inr d" "ifs (nd st) dev = Some d" "dev_ok d" by (rule rinv_dev [OF assms(2,3)])
  let ?q = "egress_queue d" and ?k = "bstgw_pktq_locked_contig_bufs (egress_queue d)"
  let ?as = "take ?k (pktq_list ?q)"
  have wf: "pktq_wf ?q" "0 < pq_capacity ?q" using d(3) by (simp_all add: dev_ok_def)
  have sl: "slice (pkt ?q) (next_read ?q) ?k = ?as" using contig_slice(4) [OF wf(1) refl] by (simp add: slice_def)
  have same: "tx_post dev v st (0, v, st)" using card_ok_refl [OF assms(1)] eff_refl [OF assms(2)] by (simp add: tx_post_def)
  note qb = queue_burst [OF assms(2,3) d(2)]
  have as: "set ?as \<subseteq> set (inuse_list (pool st))" "distinct ?as"
    using qb set_take_subset [of ?k "pktq_list ?q"] by auto
  have pok: "pool_ok (pool st)" using assms(2) by (simp add: rinv_def)
  have "lax (bind_res (vnic_xmit_handler stk ?as v st) (\<lambda>(sent, v1, st1).
         if sent \<le> 0 then Inr (sent, v1, st1)
         else bind_res (get_dev dev st1) (\<lambda>ifp1.
           bind_res (bstgw_pktq_locked_drop_bufs (egress_queue ifp1) (nat sent)) (\<lambda>q.
             Inr (sent, v1, set_dev dev (ifp1\<lparr>egress_queue := q\<rparr>) st1))))) (tx_post dev v st)"
  proof (rule lax_bind [OF xmit_lax [OF assms(1) pok as]], goal_cases)
    case (1 y)
    obtain sent v1 st1 where y: "y = (sent, v1, st1)" by (cases y)
    then obtain P where h: "card_ok v v1" "sent \<le> int (length ?as)" "st1 = st\<lparr>pool := P\<rparr>" "freed (set (take (nat sent) ?as)) (pool st) P"
      using 1 by auto
    show ?case
    proof (cases "sent \<le> 0")
      case True
      then have P: "pool_ok P" "set (inuse_list P) = set (inuse_list (pool st))" "bufs P = bufs (pool st)"
        using h(4) by (auto simp: freed_def)
      have "rinv st1" unfolding h(3) by (rule rinv_pool [OF assms(2) P(1)]) (use assms(2) P in \<open>simp add: rinv_def\<close>)
      then show ?thesis using True h P by (simp add: y tx_post_def eff_def held_def)
    next
      case False
      let ?n = "nat sent"
      have n: "?n \<le> pq_count ?q" "?n \<le> ?k" using False h(2) by auto
      from drop_bufs_spec [OF wf(1) n(1) wf(2)] obtain q where
        q: "bstgw_pktq_locked_drop_bufs ?q ?n = Inr q" "pktq_wf q" "pktq_list q = drop ?n (pktq_list ?q)"
          "pq_capacity q = pq_capacity ?q" by blast
      have "freed (set (take ?n (pktq_list ?q))) (pool st) P" using h(4) n(2) by (simp add: min_absorb1)
      from queue_sent_eff [OF assms(2,3) d(2,3) q(2,4,3) this]
      have "eff {} {} st (set_dev dev (d\<lparr>egress_queue := q\<rparr>) st1)" by (simp add: h(3))
      moreover have "get_dev dev st1 = Inr d" using d(1) by (simp add: h(3) get_dev_def)
      ultimately show ?thesis
        using False h(1) q(1,3) d(2) by (simp add: y tx_post_def dev_queue_set_dev) (simp add: dev_queue_def)
    qed
  qed
  then show ?thesis using same d(1) by (simp add: router_pktq_tx_def Let_def sl)
qed


section \<open>Frames from the normal world\<close>

lemma from_loop_result:
  assumes "copied + len < 2 ^ 31"
  shows "lax (from_iovec_loop b off len copied vs m) (\<lambda>(r, b'). length b' = length b \<and>
    (r = ERR_INVALID_ARGS \<or> (\<exists>c \<le> len. r = int (copied + c) \<and> (c = 0 \<or> off + c \<le> length b))))"
  using assms
proof (induction b off len copied vs m rule: from_iovec_loop.induct)
  case (1 b off len copied m)
  then show ?case by (auto simp: ssize_of_small)
next
  case (2 b off len copied v vs m)
  define k where "k = (if len > iov_len v then iov_len v else len)"
  let ?b = "blit b off (rd m (iov_base v) k)"
  have k: "k \<le> len" by (simp add: k_def)
  consider "k = 0" | "k \<noteq> 0" "iov_base v = 0" | "k \<noteq> 0" "iov_base v \<noteq> 0" "off + k > length b"
    | "k \<noteq> 0" "iov_base v \<noteq> 0" "off + k \<le> length b" "len - k = 0" | "k \<noteq> 0" "iov_base v \<noteq> 0" "off + k \<le> length b" "len - k \<noteq> 0"
    by (meson not_le)
  then show ?case
  proof cases
    case 1
    then show ?thesis using 2 by (simp add: k_def [symmetric] Let_def)
  next
    case 4
    then have "k = len" using k by simp
    then show ?thesis using 4 2(3) by (auto simp: k_def [symmetric] Let_def ssize_of_small)
  next
    case 5
    have IH: "lax (from_iovec_loop ?b (off + k) (len - k) (copied + k) vs m) (\<lambda>(r, b'). length b' = length ?b \<and>
        (r = ERR_INVALID_ARGS \<or> (\<exists>c \<le> len - k. r = int (copied + k + c) \<and> (c = 0 \<or> off + k + c \<le> length ?b))))"
      using 5 2(2) [OF k_def _ _ _ refl] 2(3) k by simp
    have len: "length ?b = length b" using 5(3) by simp
    have "lax (from_iovec_loop ?b (off + k) (len - k) (copied + k) vs m) (\<lambda>(r, b'). length b' = length b \<and>
        (r = ERR_INVALID_ARGS \<or> (\<exists>c \<le> len. r = int (copied + c) \<and> (c = 0 \<or> off + c \<le> length b))))"
    proof (rule lax_mono [OF IH], clarify, intro conjI)
      fix r b' assume h: "length b' = length ?b" "r = ERR_INVALID_ARGS \<or>
        (\<exists>c \<le> len - k. r = int (copied + k + c) \<and> (c = 0 \<or> off + k + c \<le> length ?b))"
      show "length b' = length b" using h len by simp
      show "r = ERR_INVALID_ARGS \<or> (\<exists>c \<le> len. r = int (copied + c) \<and> (c = 0 \<or> off + c \<le> length b))"
      proof (cases "r = ERR_INVALID_ARGS")
        case False
        then obtain c where "c \<le> len - k" "r = int (copied + k + c)" "c = 0 \<or> off + k + c \<le> length b" using h len by auto
        then show ?thesis using k 5(3) by (intro disjI2 exI [of _ "k + c"]) auto
      qed simp
    qed
    then show ?thesis using 5 by (simp add: k_def [symmetric] Let_def)
  qed (auto simp: k_def [symmetric] Let_def)
qed

lemma to_membuf_result:
  assumes "len < 2 ^ 31"
  shows "lax (kern_iovec_to_membuf b p len vs m) (\<lambda>(r, b'). length b' = length b \<and>
    (r = ERR_INVALID_ARGS \<or> r = 0 \<or> (\<exists>c off. p = Some off \<and> c \<le> len \<and> r = int c \<and> off + c \<le> length b)))"
proof (cases p)
  case (Some off)
  have "lax (from_iovec_loop b off len 0 vs m) (\<lambda>(r, b'). length b' = length b \<and>
    (r = ERR_INVALID_ARGS \<or> r = 0 \<or> (\<exists>c off. p = Some off \<and> c \<le> len \<and> r = int c \<and> off + c \<le> length b)))"
    using from_loop_result [of 0 len b off vs m] assms Some by (auto elim!: lax_mono)
  then show ?thesis using Some by (simp add: kern_iovec_to_membuf_def)
qed (simp add: kern_iovec_to_membuf_def)

lemma ssize_of_err:
  assumes "rest < len" "len < 2 ^ 31"
  shows "ssize_of (int rest + ERR_INVALID_ARGS) \<noteq> int len"
proof (cases "rest < 8")
  case True
  then have "int rest + ERR_INVALID_ARGS = 2 ^ 32 * (-1) + (2 ^ 32 - 8 + int rest)" by (simp add: ERR_INVALID_ARGS_def)
  then have "(int rest + ERR_INVALID_ARGS) mod 2 ^ 32 = 2 ^ 32 - 8 + int rest"
    using True by (simp only: mod_mult_self4) simp
  then show ?thesis using True by (simp add: ssize_of_def)
next
  case False
  then show ?thesis using assms by (simp add: ERR_INVALID_ARGS_def ssize_of_small)
qed

lemma from_skip_loop_result:
  assumes "0 < len" "len < 2 ^ 31"
  shows "lax (from_iovec_skip_loop b off len vs p k m) (\<lambda>(r, b'). length b' = length b \<and> (r = int len \<longrightarrow> off + len \<le> length b))"
  using assms
proof (induction b off len vs p k m rule: from_iovec_skip_loop.induct)
  case (1 b off len p k m)
  then show ?case by (simp add: ERR_INVALID_ARGS_def)
next
  case (2 b off len v vs p k m)
  define rest where "rest = add32 k (iov_len v) - p"
  define b' where "b' = (if rest > 0 then blit b off (rd m (iov_base v + sub32 (iov_len v) rest) rest) else b)"
  let ?Q = "\<lambda>(r, b'). length b' = length b \<and> (r = int len \<longrightarrow> off + len \<le> length b)"
  have tail: "lax (bind_res (kern_iovec_to_membuf b' (Some (off + rest)) (len - rest) vs m) (\<lambda>(r, c). Inr (ssize_of (int rest + r), c))) ?Q"
    if "rest < len" "rest > 0 \<longrightarrow> off + rest \<le> length b"
  proof -
    have len: "length b' = length b" using that(2) by (simp add: b'_def)
    show ?thesis
    proof (rule lax_bind [OF to_membuf_result], goal_cases)
      case (2 y)
      obtain r c where y: "y = (r, c)" by (cases y)
      have "off + len \<le> length b" if eq: "ssize_of (int rest + r) = int len"
      proof -
        have "r \<noteq> ERR_INVALID_ARGS" using eq ssize_of_err [OF \<open>rest < len\<close>] assms(2) "2.prems" by auto
        moreover have "r \<noteq> 0" using eq \<open>rest < len\<close> 2 "2.prems" by (auto simp: ssize_of_small)
        ultimately obtain n where n: "n \<le> len - rest" "r = int n" "off + rest + n \<le> length b" using 2 y len by auto
        then have "rest + n = len" using eq \<open>rest < len\<close> assms(2) "2.prems" by (auto simp: ssize_of_small)
        then show ?thesis using n(3) by simp
      qed
      then show ?case using 2 y len by simp
    qed (use 2 in simp)
  qed
  show ?case
  proof (cases "add32 k (iov_len v) < p")
    case True
    then show ?thesis using 2 by simp
  next
    case False
    then show ?thesis
      unfolding from_iovec_skip_loop.simps Let_def rest_def [symmetric] b'_def [symmetric]
      using tail 2(2,3) by (auto simp: ERR_INVALID_ARGS_def ssize_of_small not_less split: if_splits)
  qed
qed

lemma from_skip_result:
  assumes "0 < len" "len < 2 ^ 31"
  shows "lax (kern_iovec_to_membuf_skip_begin b p len vs NET_HDR_LEN m) (\<lambda>(r, b'). length b' = length b \<and>
    (r = int len \<longrightarrow> (\<exists>off. p = Some off \<and> off + len \<le> length b)))"
proof (cases p)
  case (Some off)
  with from_skip_loop_result [OF assms, of b off vs NET_HDR_LEN 0 m] assms(1) show ?thesis
    by (simp add: kern_iovec_to_membuf_skip_begin_def NET_HDR_LEN_def)
qed (use assms in \<open>simp add: kern_iovec_to_membuf_skip_begin_def NET_HDR_LEN_def ERR_INVALID_ARGS_def\<close>)

definition filled :: "ethbuf \<Rightarrow> nat \<Rightarrow> int \<times> ethbuf \<times> nwmach \<Rightarrow> bool" where
  "filled eb n = (\<lambda>(r, eb', s'). \<exists>k b. eb' = eb\<lparr>data_len := k, buf := b\<rparr> \<and> length b = buf_cap eb \<and>
     (r = NO_ERROR \<longrightarrow> k = n \<and> data_off eb + n \<le> buf_cap eb))"

lemma tx_fill_lax:
  assumes "0 < n" "n < 2 ^ 31"
  shows "lax (tx_fill l n eb s) (filled eb n)"
proof -
  let ?iov = "take (iovs_used l) (iovs l)"
  have err: "filled eb n (ERR_INVALID_ARGS, eb, t)" for t
    unfolding filled_def by (simp add: ERR_INVALID_ARGS_def NO_ERROR_def, rule exI [of _ "data_len eb"], rule exI [of _ "buf eb"]) simp
  have ptr: "lax (bstgw_ethbuf_data_ptr (eb\<lparr>data_len := n\<rparr>) 0) (\<lambda>p. p = Some (data_off eb))"
    using assms(1) by (simp add: bstgw_ethbuf_data_ptr_def)
  have copy: "lax (bind_res (kern_iovec_to_membuf_skip_begin (buf eb) (Some (data_off eb)) n ?iov NET_HDR_LEN m) (\<lambda>(n', bytes).
      Inr (if n' = int n then NO_ERROR else ERR_GENERIC, eb\<lparr>data_len := n, buf := bytes\<rparr>, t))) (filled eb n)" for m t
    by (rule lax_bind [OF from_skip_result [OF assms]])
      (auto simp: filled_def NO_ERROR_def ERR_GENERIC_def intro!: exI)
  have data: "lax (bind_res (bstgw_ethbuf_data_ptr (eb\<lparr>data_len := n\<rparr>) 0) (\<lambda>p.
      bind_res (kern_iovec_to_membuf_skip_begin (buf eb) p n ?iov NET_HDR_LEN m) (\<lambda>(n', bytes).
      Inr (if n' = int n then NO_ERROR else ERR_GENERIC, eb\<lparr>data_len := n, buf := bytes\<rparr>, t)))) (filled eb n)" for m t
    by (rule lax_bind [OF ptr]) (simp add: copy)
  have hdr: "lax (kern_iovec_to_membuf (replicate NET_HDR_LEN 0) (Some 0) NET_HDR_LEN ?iov m) (\<lambda>_. True)" for m
    by (rule lax_mono [OF to_membuf_result]) (simp_all add: NET_HDR_LEN_def)
  show ?thesis
    unfolding tx_fill_def Let_def by (rule lax_bind [OF hdr]) (use err data in auto)
qed

text \<open>
  \<open>owns X F st0 st\<close>: since \<open>st0\<close> the caller has got hold of the frames \<open>F\<close>, ready for the router, and of the
  buffers \<open>X\<close> it works on; nothing else is different.
\<close>

definition owns :: "nat set \<Rightarrow> nat list \<Rightarrow> ('th, 'lp, 'n) rstate \<Rightarrow> ('th, 'lp, 'n) rstate \<Rightarrow> bool" where
  "owns X F st0 st \<longleftrightarrow> rinv st \<and> same_net (nd st0) (nd st) \<and> held st = held st0 \<union> set F \<union> X \<and>
     held st0 \<inter> (set F \<union> X) = {} \<and> set F \<inter> X = {} \<and> frames_ok F st \<and>
     (\<forall>a \<in> held st0. bufs (pool st) a = bufs (pool st0) a)"

lemma owns_eff:
  assumes "owns X F st0 st" "eff A B st st'" "A \<subseteq> X" "B \<subseteq> X"
  shows "owns (X - A) F st0 st'"
proof -
  have o: "same_net (nd st0) (nd st)" "held st = held st0 \<union> set F \<union> X" "held st0 \<inter> (set F \<union> X) = {}" "set F \<inter> X = {}"
    "frames_ok F st" "\<And>a. a \<in> held st0 \<Longrightarrow> bufs (pool st) a = bufs (pool st0) a"
    using assms(1) by (simp_all add: owns_def)
  have keep: "bufs (pool st') a = bufs (pool st) a" if "a \<in> held st0 \<union> set F" for a
    using that o(2-4) assms(3,4) by (intro eff_bufs [OF assms(2)]) auto
  have fr: "\<forall>m \<in> set F. case bufs (pool st) m of None \<Rightarrow> False | Some eb \<Rightarrow> frame_ok eb" "distinct F"
    using o(5) by (simp_all add: frames_ok_def)
  have h: "held st' = held st0 \<union> set F \<union> (X - A)" using eff_held [OF assms(2)] o(2-4) assms(3) by auto
  have "\<forall>m \<in> set F. case bufs (pool st') m of None \<Rightarrow> False | Some eb \<Rightarrow> frame_ok eb" using fr keep by simp
  with fr h have "frames_ok F st'" unfolding frames_ok_def by auto
  moreover have "same_net (nd st0) (nd st')" using o(1) assms(2) by (simp add: eff_def same_net_def)
  ultimately show ?thesis
    using h o(3,4,6) keep eff_rinv [OF assms(2)] unfolding owns_def by auto
qed

lemma owns_alloc:
  assumes "owns {} F st0 st" "bstgw_ethpool_buf_alloc (pool st) = Inr (m, P)"
  obtains eb where "owns {m} F st0 (st\<lparr>pool := P\<rparr>)" "get_eb m (st\<lparr>pool := P\<rparr>) = Inr eb" "buf_ready eb" "buf_clean eb" "roomy eb"
proof -
  have o: "rinv st" "same_net (nd st0) (nd st)" "held st = held st0 \<union> set F" "held st0 \<inter> set F = {}"
    "frames_ok F st" "\<And>a. a \<in> held st0 \<Longrightarrow> bufs (pool st) a = bufs (pool st0) a"
    using assms(1) by (simp_all add: owns_def)
  from alloc_buf_cases [OF o(1)] assms(2) obtain eb where
    a: "rinv (st\<lparr>pool := P\<rparr>)" "m \<notin> set (inuse_list (pool st))" "set (inuse_list P) = insert m (set (inuse_list (pool st)))"
      "bufs P = bufs (pool st)" "bufs P m = Some eb" "buf_ready eb" "buf_clean eb" "roomy eb" by auto
  have q: "m \<notin> set (queued st)" using a(2) o(1) by (auto simp: rinv_def)
  have h: "held (st\<lparr>pool := P\<rparr>) = insert m (held st)" using a(3) q by (auto simp: held_def)
  have m: "m \<notin> held st" using a(2) by (simp add: held_def)
  have "frames_ok F (st\<lparr>pool := P\<rparr>)" using o(5) h a(4) by (auto simp: frames_ok_def)
  then have "owns {m} F st0 (st\<lparr>pool := P\<rparr>)" using o a h m unfolding owns_def by auto
  then show thesis using that a by (simp add: get_eb_def)
qed

lemma owns_get:
  assumes "owns {m} F st0 st"
  obtains eb where "get_eb m st = Inr eb" "bufs (pool st) m = Some eb" "buf_ready eb" "roomy eb"
  using rinv_buf [of st m] assms by (auto simp: owns_def)

lemma owns_set:
  assumes "owns {m} F st0 st" "buf_ready eb" "roomy eb"
  shows "owns {m} F st0 (set_eb m eb st)"
proof -
  have "eff {} {m} st (set_eb m eb st)" using assms by (intro set_eb_eff) (auto simp: owns_def)
  from owns_eff [OF assms(1) this] show ?thesis by simp
qed

lemma owns_free:
  assumes "owns {m} F st0 st"
  obtains st' where "free_buf m st = Inr st'" "owns {} F st0 st'"
proof -
  have "rinv st" "m \<in> held st" using assms by (simp_all add: owns_def)
  then obtain st' where st': "free_buf m st = Inr st'" "eff {m} {} st st'" by (rule free_buf_eff)
  then show thesis using that owns_eff [OF assms st'(2)] by simp
qed

lemma owns_add:
  assumes "owns {m} F st0 st" "bufs (pool st) m = Some eb" "frame_ok eb"
  shows "owns {} (F @ [m]) st0 st"
  using assms by (auto simp: owns_def frames_ok_def)

lemma owns_consume:
  assumes "owns {} F st0 st" "eff (set F) {} st st'"
  shows "eff {} {} st0 st'"
proof -
  have o: "same_net (nd st0) (nd st)" "held st = held st0 \<union> set F" "held st0 \<inter> set F = {}"
    "\<And>a. a \<in> held st0 \<Longrightarrow> bufs (pool st) a = bufs (pool st0) a"
    using assms(1) by (simp_all add: owns_def)
  have h: "held st' = held st0" using eff_held [OF assms(2)] o(2,3) by auto
  have "bufs (pool st') a = bufs (pool st0) a" if "a \<in> held st0" for a
    using eff_bufs [OF assms(2), of a] o that by auto
  then show ?thesis using h o(1) assms(2) by (simp add: eff_def same_net_def)
qed

lemma owns_drop:
  assumes "owns {} F st0 st"
  obtains st' where "free_bufs F st = Inr st'" "eff {} {} st0 st'"
proof -
  have "rinv st" "distinct F" "set F \<subseteq> held st" using assms by (auto simp: owns_def frames_ok_def)
  from free_bufs_eff [OF this] obtain st' where "free_bufs F st = Inr st'" "eff (set F) {} st st'" by auto
  then show thesis using that owns_consume [OF assms] by blast
qed

text \<open>What one round of the transmit loop leaves behind.\<close>

definition flush_post :: "nat list \<Rightarrow> ('th, 'lp, 'n) rstate \<Rightarrow> tx_step \<times> vqueue_buf \<times> vqueue \<times> nwmach \<times> ('th, 'lp, 'n) rstate \<Rightarrow> bool" where
  "flush_post F st0 = (\<lambda>(step, b', vq', s', st'). vbuf_wf b' \<and> ring_up vq' \<and>
     (case step of Tx_break \<Rightarrow> owns {} F st0 st' | Tx_return r \<Rightarrow> eff {} {} st0 st'
      | Tx_next None \<Rightarrow> owns {} F st0 st' | Tx_next (Some m) \<Rightarrow> owns {} (F @ [m]) st0 st'))"

lemma tx_abort_lax:
  assumes "owns {m} F st0 st" "vbuf_wf b" "ring_up vq"
  shows "lax (tx_abort r m F b vq s st) (flush_post F st0)"
proof -
  obtain st1 where 1: "free_buf m st = Inr st1" "owns {} F st0 st1" by (rule owns_free [OF assms(1)])
  obtain st2 where "free_bufs F st1 = Inr st2" "eff {} {} st0 st2" by (rule owns_drop [OF 1(2)])
  then show ?thesis using 1(1) assms(2,3) by (simp add: tx_abort_def flush_post_def)
qed

lemma tx_done_lax:
  assumes "vbuf_wf b" "ring_up vq" "0 < iovs_used (in_iovs b)" "case fr of None \<Rightarrow> owns {} F st0 st | Some m \<Rightarrow> owns {} (F @ [m]) st0 st"
  shows "lax (tx_done fr n b vq s st) (flush_post F st0)"
proof -
  have wf: "iovs_wf (in_iovs b)" "iovs_wf (out_iovs b)" using assms(1) by (simp_all add: vbuf_wf_def)
  have add: "lax (bind_res (vqueue_add_buf vq b k s) (\<lambda>(_, s'). Inr (Tx_next fr, b\<lparr>in_iovs := l\<rparr>, vq, s', st))) (flush_post F st0)"
    if "iovs_wf l" for l k
    using add_buf_returns [OF assms(2), of b k s] that wf assms(2,4)
    by (force simp: flush_post_def vbuf_wf_def split: option.splits)
  show ?thesis unfolding tx_done_def by (rule lax_bind [OF unmap_lax [OF wf(1) assms(3)]]) (rule add)
qed

lemma free_filled:
  assumes "owns {m} F st0 st" "get_eb m st = Inr eb" "eb' = eb\<lparr>data_len := k, buf := b\<rparr>" "length b = buf_cap eb"
  obtains st' where "free_buf m (set_eb m eb' st) = Inr st'" "owns {} F st0 st'"
proof -
  obtain e where e: "get_eb m st = Inr e" "buf_ready e" "roomy e" by (rule owns_get [OF assms(1)])
  let ?e = "eb\<lparr>buf := b\<rparr>"
  have "buf_ready ?e" "roomy ?e" using e assms(2,4) by (auto simp: buf_ready_def eb_wf_def roomy_def)
  then have o: "owns {m} F st0 (set_eb m ?e st)" by (rule owns_set [OF assms(1)])
  have "free_buf m (set_eb m eb' st) = free_buf m (set_eb m ?e st)"
    by (simp add: free_buf_def set_eb_def bstgw_ethpool_buf_free_def bstgw_ethpool_buf_reset_def assms(3))
  then show thesis using owns_free [OF o] that by metis
qed

lemma tx_take_lax:
  assumes "owns {m} F st0 st" "get_eb m st = Inr eb" "data_off eb = 2" "\<not> needs_l2 eb"
    "vbuf_wf b" "ring_up vq" "0 < iovs_used (in_iovs b)"
  shows "lax (tx_take burst m F b vq s st) (flush_post F st0)"
proof -
  let ?l = "in_iovs b"
  define n where "n = sub32 (iovs_len ?l) NET_HDR_LEN"
  have wf: "iovs_wf ?l" "iovs_wf (out_iovs b)" using assms(5) by (simp_all add: vbuf_wf_def)
  obtain st1 where st1: "free_buf m st = Inr st1" "owns {} F st0 st1" by (rule owns_free [OF assms(1)])
  obtain e where e: "get_eb m st = Inr e" "buf_ready e" "roomy e" by (rule owns_get [OF assms(1)])
  have eb: "buf_ready eb" "roomy eb" using e assms(2) by simp_all
  have drop: "lax (tx_done None n b vq s st1) (flush_post F st0)" using assms st1(2) by (intro tx_done_lax) simp_all
  have step: "lax (if r \<noteq> NO_ERROR then bind_res (free_buf m (set_eb m eb' st)) (\<lambda>st2. bind_res (vqueue_unmap_iovs ?l) (\<lambda>l'.
          bind_res (free_bufs F st2) (\<lambda>st3. Inr (Tx_return r, b\<lparr>in_iovs := l'\<rparr>, vq, s1, st3))))
        else if length F \<ge> burst then Inl Out_of_bounds else tx_done (Some m) n b vq s1 (set_eb m eb' st)) (flush_post F st0)"
    if f: "filled eb n (r, eb', s1)" and n: "42 \<le> n" for r eb' s1
  proof -
    from f obtain k c where kc: "eb' = eb\<lparr>data_len := k, buf := c\<rparr>" "length c = buf_cap eb"
      "r = NO_ERROR \<Longrightarrow> k = n \<and> data_off eb + n \<le> buf_cap eb" by (auto simp: filled_def)
    obtain st2 where st2: "free_buf m (set_eb m eb' st) = Inr st2" "owns {} F st0 st2" by (rule free_filled [OF assms(1,2) kc(1,2)])
    obtain st3 where st3: "free_bufs F st2 = Inr st3" "eff {} {} st0 st3" by (rule owns_drop [OF st2(2)])
    have ret: "lax (bind_res (vqueue_unmap_iovs ?l) (\<lambda>l'. Inr (Tx_return r, b\<lparr>in_iovs := l'\<rparr>, vq, s1, st3))) (flush_post F st0)"
      by (rule lax_bind [OF unmap_lax [OF wf(1) assms(7)]]) (use wf st3 assms(6) in \<open>simp add: flush_post_def vbuf_wf_def\<close>)
    have "lax (tx_done (Some m) n b vq s1 (set_eb m eb' st)) (flush_post F st0)" if "r = NO_ERROR"
    proof -
      have "buf_ready eb'" "roomy eb'" "frame_ok eb'"
        using kc that eb assms(4) n by (auto simp: buf_ready_def eb_wf_def roomy_def frame_ok_def needs_l2_def)
      then have "owns {} (F @ [m]) st0 (set_eb m eb' st)"
        using owns_set [OF assms(1)] by (intro owns_add) (auto simp: set_eb_def)
      then show ?thesis using assms(5-7) by (intro tx_done_lax) simp_all
    qed
    then show ?thesis using st2(1) st3(1) ret by simp
  qed
  have "lax (bind_res (tx_fill ?l n eb s) (\<lambda>(r, eb', s1).
        if r \<noteq> NO_ERROR then bind_res (free_buf m (set_eb m eb' st)) (\<lambda>st2. bind_res (vqueue_unmap_iovs ?l) (\<lambda>l'.
          bind_res (free_bufs F st2) (\<lambda>st3. Inr (Tx_return r, b\<lparr>in_iovs := l'\<rparr>, vq, s1, st3))))
        else if length F \<ge> burst then Inl Out_of_bounds else tx_done (Some m) n b vq s1 (set_eb m eb' st))) (flush_post F st0)"
    if "42 \<le> n" "n \<le> BSTGW_DEFAULT_BUF_SIZE - 2"
    by (rule lax_bind [OF tx_fill_lax]) (use that step in \<open>auto simp: BSTGW_DEFAULT_BUF_SIZE_def\<close>)
  then show ?thesis
    unfolding tx_take_def Let_def n_def [symmetric] st1(1) assms(2) bind_res_simps
    using drop by (simp add: not_less)
qed

lemma flush_one_lax:
  assumes "owns {} F st0 st" "vbuf_wf b" "ring_up vq"
  shows "lax (flush_one va stk burst F b vq s st) (flush_post F st0)"
proof (cases "bstgw_ethpool_buf_alloc (pool st)")
  case (Inl e)
  then have "e = Panic" using assms(1) alloc_buf_cases [of st] by (auto simp: owns_def)
  then show ?thesis using Inl by (simp add: flush_one_def)
next
  case (Inr mP)
  obtain m P where mP: "mP = (m, P)" by (cases mP)
  then obtain eb where eb: "owns {m} F st0 (st\<lparr>pool := P\<rparr>)" "get_eb m (st\<lparr>pool := P\<rparr>) = Inr eb" "buf_ready eb" "buf_clean eb" "roomy eb"
    using owns_alloc [OF assms(1)] Inr by metis
  define e where "e = eb\<lparr>data_off := 2, packet_type := RTE_PTYPE_L2_MASK\<rparr>"
  define st1 where "st1 = set_eb m e (st\<lparr>pool := P\<rparr>)"
  have "buf_ready e" "roomy e" using eb(3-5) by (auto simp: e_def buf_ready_def eb_wf_def roomy_def buf_clean_def)
  then have o: "owns {m} F st0 st1" unfolding st1_def by (rule owns_set [OF eb(1)])
  have e: "get_eb m st1 = Inr e" "data_off e = 2" "\<not> needs_l2 e"
    using eb(4) by (simp_all add: st1_def get_eb_def set_eb_def e_def needs_l2_def buf_clean_def)
  have take: "lax (bind_res (vqueue_map_iovs va j (in_iovs b1)) (\<lambda>(r2, l).
       if r2 \<noteq> NO_ERROR then tx_abort r2 m F (b1\<lparr>in_iovs := l\<rparr>) vq1 s1 st1
       else tx_take burst m F (b1\<lparr>in_iovs := l\<rparr>) vq1 s1 st1)) (flush_post F st0)"
    if h: "vbuf_wf b1" "ring_up vq1" "0 < iovs_used (in_iovs b1)" for b1 vq1 s1 j
  proof -
    have "iovs_wf (in_iovs b1)" using h(1) by (simp add: vbuf_wf_def)
    then obtain r2 l where l: "vqueue_map_iovs va j (in_iovs b1) = Inr (r2, l)" "like_iovs (in_iovs b1) l"
      by (rule map_iovs_like [OF _ h(3)])
    have "vbuf_wf (b1\<lparr>in_iovs := l\<rparr>)" "0 < iovs_used l" using h l(2) by (simp_all add: vbuf_wf_def like_iovs_def)
    then show ?thesis using tx_abort_lax [OF o] tx_take_lax [OF o e] h(2) l(1) by simp
  qed
  have "lax (bind_res (vqueue_get_avail_buf vq b s) (\<lambda>(r, vq1, b1, s1).
     if r = ERR_NOT_ENOUGH_BUFFER then bind_res (free_buf m st1) (\<lambda>st2. Inr (Tx_break, b1, vq1, s1, st2))
     else if r \<noteq> NO_ERROR then tx_abort r m F b1 vq1 s1 st1
     else if iovs_used (in_iovs b1) < 1 then tx_abort ERR_INVALID_ARGS m F b1 vq1 s1 st1
     else bind_res (vqueue_map_iovs va (stk (nwtick s1)) (in_iovs b1)) (\<lambda>(r2, l).
       if r2 \<noteq> NO_ERROR then tx_abort r2 m F (b1\<lparr>in_iovs := l\<rparr>) vq1 s1 st1
       else tx_take burst m F (b1\<lparr>in_iovs := l\<rparr>) vq1 s1 st1))) (flush_post F st0)"
  proof (rule lax_bind [OF get_avail_lax [OF assms(2,3)]], goal_cases)
    case (1 y)
    obtain r vq1 b1 s1 where y: "y = (r, vq1, b1, s1)" by (cases y)
    then have h: "vbuf_wf b1" "ring_up vq1" using 1 by simp_all
    obtain st2 where "free_buf m st1 = Inr st2" "owns {} F st0 st2" by (rule owns_free [OF o])
    then have "lax (bind_res (free_buf m st1) (\<lambda>st2. Inr (Tx_break, b1, vq1, s1, st2))) (flush_post F st0)"
      using h by (simp add: flush_post_def)
    then show ?case using tx_abort_lax [OF o h] take [OF h] y by (simp add: not_less Suc_le_eq)
  qed
  then show ?thesis
    unfolding flush_one_def Inr mP bind_res_simps prod.case eb(2) Let_def e_def [symmetric] st1_def [symmetric] .
qed

lemma flush_loop_lax:
  assumes "owns {} F st0 st" "vbuf_wf b" "ring_up vq"
  shows "lax (flush_loop va stk burst left b vq s st F num) (\<lambda>(ret, num', F', vq', s', st').
    ring_up vq' \<and> (case ret of None \<Rightarrow> owns {} F' st0 st' | Some r \<Rightarrow> eff {} {} st0 st'))"
  using assms
proof (induction left arbitrary: F st b vq s num)
  case 0
  show ?case
    unfolding flush_loop.simps [of va stk burst 0]
    by (rule lax_bind [OF flush_one_lax [OF 0]]) (auto simp: flush_post_def split: tx_step.splits option.splits)
next
  case (Suc left)
  show ?case
    unfolding flush_loop.simps [of va stk burst "Suc left"]
  proof (rule lax_bind [OF flush_one_lax [OF Suc.prems]], goal_cases)
    case (1 y)
    obtain step b1 vq1 s1 st1 where y: "y = (step, b1, vq1, s1, st1)" by (cases y)
    then have h: "flush_post F st0 (step, b1, vq1, s1, st1)" using 1 by simp
    show ?case
    proof (cases step)
      case (Tx_next fr)
      define F' where "F' = (case fr of None \<Rightarrow> F | Some m \<Rightarrow> F @ [m])"
      have "owns {} F' st0 st1" "vbuf_wf b1" "ring_up vq1"
        using h Tx_next by (auto simp: flush_post_def F'_def split: option.splits)
      from Suc.IH [OF this, of s1 "num + 1"] show ?thesis by (simp add: y Tx_next F'_def [symmetric] Let_def)
    qed (use h y in \<open>auto simp: flush_post_def\<close>)
  qed
qed

end
