(* ===== verification/Vpoll.thy ===== *)
theory Vpoll
  imports Vnet
begin

text \<open>
  The poll function of the virtual NIC and its initialisation (\<open>vnic_poll\<close> and \<open>vnic_init\<close> of
  \<open>virtio-nic/vnic/src/vnic.c\<close>): one poll moves frames in both directions between the rings of the normal
  world and the router, conserves the buffers, rearms the notifications when there is nothing left to do,
  and has two states in which it fails: rings that were never set up, and a normal world that offers too
  few receive buffers. A poll runs without interference of other workers on the router's state; the
  normal world may change its memory at every access.
\<close>

section \<open>Polling\<close>

text \<open>
  One round of the loop of \<open>vnic_poll\<close>: both directions, and when neither had anything to do, completion of the poll. The flag
  says that the function returns.
\<close>

definition poll_done :: "int \<Rightarrow> vnic \<Rightarrow> vnic res" where
  "poll_done ret v =
     (let (n, fin) = napi_complete (vn_napi v); v1 = v\<lparr>vn_napi := n\<rparr> in
      if \<not> fin then Inr v1
      else bind_res (get_vq 1 v1) (\<lambda>tx_vq. bind_res (vqueue_num_of_avail_buf_and_notify tx_vq (vn_nw v1)) (\<lambda>(k, s).
        let v2 = v1\<lparr>vn_nw := s\<rparr> in
        if k \<noteq> 0 then Inr (v2\<lparr>vn_napi := napi_schedule (vn_napi v2)\<rparr>)
        else if ret \<noteq> VIRTIO_NO_AVAIL then Inr v2
        else bind_res (get_vq 0 v2) (\<lambda>rx_vq. bind_res (vqueue_num_of_avail_buf_and_notify rx_vq (vn_nw v2)) (\<lambda>(k', s').
          let v3 = v2\<lparr>vn_nw := s'\<rparr> in
          Inr (if k' \<noteq> 0 then v3\<lparr>vn_napi := napi_schedule (vn_napi v3)\<rparr> else v3))))))"

definition poll_round :: "('th, 'lp, 'n) ext \<Rightarrow> nat \<Rightarrow> (nat \<Rightarrow> int) \<Rightarrow> nat \<Rightarrow> int \<times> vnic \<times> ('th, 'lp, 'n) rstate \<Rightarrow>
    (bool \<times> int \<times> vnic \<times> ('th, 'lp, 'n) rstate) res" where
  "poll_round x pktqueue_size stk dev = (\<lambda>(pkts, v, st).
     bind_res (virtio_net_flush_tx x pktqueue_size stk dev v st) (\<lambda>(ret, v1, st1).
     let pkts' = (if ret > 0 then pkts + ret else pkts) in
     bind_res (router_pktq_tx (vnic_xmit_handler stk) dev v1 st1) (\<lambda>(ret2, v2, st2).
     if ret > 0 \<or> ret = VIRTIO_NAPI_RETRY \<or> ret2 > 0 \<or> ret2 = VIRTIO_NAPI_RETRY then Inr (False, pkts', v2, st2)
     else bind_res (poll_done ret2 v2) (\<lambda>v3. Inr (True, pkts', v3, st2)))))"

partial_function (option) poll_loop ::
    "(int \<times> vnic \<times> ('th, 'lp, 'n) rstate \<Rightarrow> (bool \<times> int \<times> vnic \<times> ('th, 'lp, 'n) rstate) res) \<Rightarrow> int \<Rightarrow>
     int \<times> vnic \<times> ('th, 'lp, 'n) rstate \<Rightarrow> (int \<times> vnic \<times> ('th, 'lp, 'n) rstate) res option" where
  "poll_loop f budget w =
     (case f w of Inl e \<Rightarrow> Some (Inl e)
      | Inr (fin, w') \<Rightarrow> if fin \<or> fst w' \<ge> budget then Some (Inr w') else poll_loop f budget w')"

definition vnic_poll :: "('th, 'lp, 'n) ext \<Rightarrow> nat \<Rightarrow> (nat \<Rightarrow> int) \<Rightarrow> nat \<Rightarrow> int \<Rightarrow> vnic \<Rightarrow> ('th, 'lp, 'n) rstate \<Rightarrow>
    (int \<times> vnic \<times> ('th, 'lp, 'n) rstate) res option" where
  "vnic_poll x pktqueue_size stk dev budget v st =
     (case bind_res (get_vq 0 v) (\<lambda>rx_vq. bind_res (get_vq 1 v) (\<lambda>tx_vq.
        bind_res (used_flags_update (\<lambda>f. f OR VRING_USED_F_NO_NOTIFY) rx_vq (vn_nw v)) (\<lambda>s.
        used_flags_update (\<lambda>f. f OR VRING_USED_F_NO_NOTIFY) tx_vq s))) of
      Inl e \<Rightarrow> Some (Inl e)
    | Inr s \<Rightarrow> poll_loop (poll_round x pktqueue_size stk dev) budget (0, v\<lparr>vn_nw := s\<rparr>, st))"

section \<open>Both directions and the poll function\<close>

text \<open>
  Everything the poll function relies on: the card with both rings set up, the router's invariant, the
  external libraries, a device with a worker among at most seven, and a remembered external card that exists.
\<close>

definition has_worker :: "'th ifnet \<Rightarrow> bool" where
  "has_worker d \<longleftrightarrow> \<not> (if_worker_count d = 0 \<or> workers d = [] \<or> hd (workers d) = None)"

definition net_ready :: "nat \<Rightarrow> ('th, 'lp, 'n) rstate \<Rightarrow> bool" where
  "net_ready dev st \<longleftrightarrow> rinv st \<and> dev \<in> set (netdev_list (nd st)) \<and> ifnet_dev_count (nd st) \<le> 7 \<and>
     (\<forall>d. ifs (nd st) dev = Some d \<longrightarrow> has_worker d)"

definition card_ready :: "vnic \<Rightarrow> ('th, 'lp, 'n) rstate \<Rightarrow> bool" where
  "card_ready v st \<longleftrightarrow> vnic_inv v \<and> (\<forall>i < VNIC_QUEUE_MAX. ring_up (vd_vq (vn_vdev v) ! i)) \<and>
     (\<forall>p. fec_ifp v = Some p \<longrightarrow> p \<in> set (netdev_list (nd st)))"

lemma dev_static_worker: "dev_static d' = dev_static d \<Longrightarrow> has_worker d' = has_worker d"
  unfolding has_worker_def dev_static_def
  by (frule arg_cong [of _ _ if_worker_count], drule arg_cong [of _ _ workers]) simp

lemma same_net_dev:
  assumes "same_net n n'" "ifs n' p = Some d'"
  obtains d where "ifs n p = Some d" "dev_static d' = dev_static d"
proof -
  have "map_option dev_static (ifs n' p) = map_option dev_static (ifs n p)" using assms(1) by (simp add: same_net_def)
  then show thesis using assms(2) that by (cases "ifs n p") auto
qed

lemma net_ready_eff:
  assumes "net_ready dev st" "eff A B st st'"
  shows "net_ready dev st'"
proof -
  have n: "same_net (nd st) (nd st')" "rinv st'" using assms(2) by (simp_all add: eff_def)
  have "has_worker d'" if d': "ifs (nd st') dev = Some d'" for d'
  proof -
    obtain d where "ifs (nd st) dev = Some d" "dev_static d' = dev_static d" by (rule same_net_dev [OF n(1) d'])
    then show ?thesis using assms(1) dev_static_worker by (auto simp: net_ready_def)
  qed
  then show ?thesis using assms(1) n by (simp add: net_ready_def same_net_def ifnet_dev_count_def)
qed

lemma find_in_list: "find P xs = Some p \<Longrightarrow> p \<in> set xs"
  by (auto simp: find_Some_iff)

lemma burst_size_safe:
  assumes "rinv st" "dev \<in> set (netdev_list (nd st))" "\<And>p. q = Some p \<Longrightarrow> p \<in> set (netdev_list (nd st))"
  shows "lax (router_in_burst_size dev q n st) (\<lambda>_. True)"
proof -
  have g: "\<exists>d. get_dev p st = Inr d" if "p \<in> set (netdev_list (nd st))" for p
    using rinv_dev [OF assms(1) that] by blast
  show ?thesis
  proof (cases q)
    case (Some p)
    then show ?thesis using g [of p] assms(3) by (auto simp: router_in_burst_size_def)
  next
    case None
    obtain d where d: "get_dev dev st = Inr d" using g [OF assms(2)] by blast
    have "\<exists>e. get_dev f st = Inr e" if "ifnet_getbyname (Some ''imx6q-fec'') (nd st) = Some f" for f
      using that g by (auto simp: ifnet_getbyname_def dest!: find_in_list)
    then show ?thesis using None d
      by (fastforce simp: router_in_burst_size_def split: bstgw_trust.splits option.splits)
  qed
qed

lemma rx_handler_lax:
  assumes "net_ready dev st0" "ext_ok x" "owns {} F st0 st"
  shows "lax (bstgw_generic_rx_handler x dev F st) (\<lambda>(r, st'). eff {} {} st0 st')"
proof -
  have o: "rinv st" "same_net (nd st0) (nd st)" "frames_ok F st" using assms(3) by (simp_all add: owns_def)
  have net: "dev \<in> set (netdev_list (nd st))" "ifnet_dev_count (nd st) \<le> 7"
    using assms(1) o(2) by (simp_all add: net_ready_def same_net_def ifnet_dev_count_def)
  obtain d where d: "get_dev dev st = Inr d" "ifs (nd st) dev = Some d" by (rule rinv_dev [OF o(1) net(1)])
  obtain d0 where "ifs (nd st0) dev = Some d0" "dev_static d = dev_static d0" by (rule same_net_dev [OF o(2) d(2)])
  then have w: "has_worker d" using assms(1) dev_static_worker by (auto simp: net_ready_def)
  have "lax (bind_res (router_if_input x (Some dev) F st) (\<lambda>st1. Inr (0 :: int, st1))) (\<lambda>(r, st'). eff {} {} st0 st')"
    by (rule lax_bind [OF lax_safe [OF router_if_input_safe [OF o(1) assms(2) net o(3)]]])
      (use owns_consume [OF assms(3)] in auto)
  then show ?thesis using d w by (auto simp: bstgw_generic_rx_handler_def has_worker_def)
qed

lemma flush_finish:
  fixes st :: "('th, 'lp, 'n) rstate"
  assumes "net_ready dev st" "ext_ok x" "eff {} {} st st1" "vnic_inv v" "ring_up (vd_vq (vn_vdev v) ! 1)"
    "ring_up vq" "case ret of None \<Rightarrow> owns {} frames st1 st2 | Some r \<Rightarrow> eff {} {} st1 st2" "v2 = (set_vq 1 vq v)\<lparr>vn_nw := s'\<rparr>"
  shows "lax (case ret of Some r \<Rightarrow> Inr (r, v2, st2)
       | None \<Rightarrow> bind_res (if num > 0 then vqueue_kick 1 v2 else Inr v2) (\<lambda>v3.
           bind_res (if frames \<noteq> [] then bstgw_generic_rx_handler x dev frames st2 else Inr (0, st2)) (\<lambda>(_, st3).
             Inr (int num, v3, st3)))) (\<lambda>(r, v', st'). card_ok v v' \<and> eff {} {} st st')"
proof -
  have c: "card_ok v v2" unfolding assms(8) by (rule card_ok_set_vq [OF assms(4,6)])
  show ?thesis
  proof (cases ret)
    case (Some r)
    then have "eff {} {} st st2" using assms(7) eff_trans [OF assms(3)] by fastforce
    then show ?thesis using Some c by simp
  next
    case None
    then have o: "owns {} frames st1 st2" using assms(7) by simp
    have "vnic_inv v2" "ring_up (vd_vq (vn_vdev v2) ! 1)" using c assms(5) by (auto simp: card_ok_def VNIC_QUEUE_MAX_def)
    then obtain v3 where k: "vqueue_kick 1 v2 = Inr v3" "card_ok v v3"
      using kick_card [of v2 1] card_ok_trans [OF c] by (auto simp: VNIC_QUEUE_MAX_def)
    have rx: "lax (if frames \<noteq> [] then bstgw_generic_rx_handler x dev frames st2 else Inr (0, st2)) (\<lambda>(r, st3). eff {} {} st st3)"
    proof (cases "frames = []")
      case True
      then show ?thesis using o eff_trans [OF assms(3) owns_consume [OF o]] eff_refl by (auto simp: owns_def)
    next
      case False
      have "lax (bstgw_generic_rx_handler x dev frames st2) (\<lambda>(r, st3). eff {} {} st1 st3)"
        by (rule rx_handler_lax [OF net_ready_eff [OF assms(1,3)] assms(2) o])
      then show ?thesis using False eff_trans [OF assms(3)] by (auto elim!: lax_mono)
    qed
    have go: "lax (bind_res (if frames \<noteq> [] then bstgw_generic_rx_handler x dev frames st2 else Inr (0, st2)) (\<lambda>(_, st3).
        Inr (int num, w, st3))) (\<lambda>(r, v', st'). card_ok v v' \<and> eff {} {} st st')" if "card_ok v w" for w
      by (rule lax_bind [OF rx]) (use that in auto)
    show ?thesis
      unfolding None option.case using go [OF c] go [OF k(2)] k(1)
      by (cases "num > 0") (simp_all only: if_True if_False bind_res_simps)
  qed
qed

definition poll_post :: "vnic \<Rightarrow> ('th, 'lp, 'n) rstate \<Rightarrow> vnic \<Rightarrow> ('th, 'lp, 'n) rstate \<Rightarrow> bool" where
  "poll_post v st v' st' \<longleftrightarrow> card_ready v' st' \<and> identity v' = identity v \<and> eff {} {} st st'"

lemma poll_post_trans: "poll_post v st v1 st1 \<Longrightarrow> poll_post v1 st1 v2 st2 \<Longrightarrow> poll_post v st v2 st2"
  using eff_trans [of "{}" "{}" st st1 "{}" "{}" st2] by (auto simp: poll_post_def)

lemma poll_post_card:
  assumes "card_ready v st" "card_ok v v'" "eff {} {} st st'"
  shows "poll_post v st v' st'"
  using assms by (auto simp: poll_post_def card_ready_def card_ok_def eff_list)

lemma flush_loop_finish:
  fixes st :: "('th, 'lp, 'n) rstate"
  assumes "net_ready dev st" "ext_ok x" "eff {} {} st st1" "vnic_inv v" "ring_up (vd_vq (vn_vdev v) ! 1)" "ring_up q"
  shows "lax (bind_res (flush_loop va stk burst left flush_buf q s st1 [] 0) (\<lambda>(ret, num_packets, frames, vq, s', st2).
       let v2 = (set_vq 1 vq v)\<lparr>vn_nw := s'\<rparr> in
       case ret of Some r \<Rightarrow> Inr (r, v2, st2)
       | None \<Rightarrow>
           bind_res (if num_packets > 0 then vqueue_kick 1 v2 else Inr v2) (\<lambda>v3.
           bind_res (if frames \<noteq> [] then bstgw_generic_rx_handler x dev frames st2 else Inr (0, st2)) (\<lambda>(_, st3).
             Inr (int num_packets, v3, st3))))) (\<lambda>(r, v', st'). card_ok v v' \<and> eff {} {} st st')"
proof -
  have wf: "vbuf_wf flush_buf" by (simp add: flush_buf_def vbuf_wf_def iovs_wf_def fresh_iovs_def)
  have o: "owns {} [] st1 st1" using eff_rinv [OF assms(3)] by (simp add: owns_def frames_ok_def)
  show ?thesis
  proof (rule lax_bind [OF flush_loop_lax [OF o wf assms(6)]], goal_cases)
    case (1 y)
    obtain ret num frames vq s' st2 where y: "y = (ret, num, frames, vq, s', st2)" by (cases y)
    show ?case unfolding y prod.case Let_def
      by (rule flush_finish [OF assms(1-5)]) (use 1 y in simp_all)
  qed
qed

lemma flush_tx_lax:
  fixes st :: "('th, 'lp, 'n) rstate"
  assumes "net_ready dev st" "card_ready v st" "ext_ok x"
  shows "lax (virtio_net_flush_tx x qsize stk dev v st) (\<lambda>(r, v', st'). poll_post v st v' st')"
proof -
  let ?q = "vd_vq (vn_vdev v) ! 1" and ?R = "\<lambda>(r, v', st'). poll_post v st v' st'"
  have v: "vnic_inv v" and up: "ring_up ?q" using assms(2) by (simp_all add: card_ready_def VNIC_QUEUE_MAX_def)
  have r: "rinv st" "dev \<in> set (netdev_list (nd st))" using assms(1) by (simp_all add: net_ready_def)
  have q: "get_vq 1 v = Inr ?q" using vnic_queues [OF v, of 1] by (simp add: VNIC_QUEUE_MAX_def)
  have "vq_avail ?q \<noteq> 0" using up by (auto simp: ring_up_def vq_inv_def)
  then obtain k s where s: "vqueue_num_of_avail_buf ?q (vn_nw v) = Inr (k, s)"
    by (simp add: vqueue_num_of_avail_buf_def deref_def Let_def)
  define fec where "fec = (if fec_ifp v = None then ifnet_getbyname (Some ''imx6q-fec'') (nd st) else fec_ifp v)"
  define v1 where "v1 = v\<lparr>vn_nw := s, fec_ifp := fec\<rparr>"
  have fec: "p \<in> set (netdev_list (nd st))" if "fec = Some p" for p
    using that assms(2) by (auto simp: fec_def card_ready_def ifnet_getbyname_def dest: find_in_list split: if_splits)
  have v1: "vnic_inv v1" "ring_up (vd_vq (vn_vdev v1) ! 1)" "fec_ifp v1 = fec" using v up by (simp_all add: v1_def vnic_inv_def)
  have ready: "poll_post v st w st'" if "card_ok v1 w" "eff {} {} st st'" for w st'
    using that assms(2) fec by (auto simp: poll_post_def card_ready_def card_ok_def v1_def identity_def eff_list)
  obtain ok st1 where h: "heap_alloc st = (ok, st1)" by (cases "heap_alloc st")
  have e: "eff {} {} st st" "eff {} {} st st1" using eff_refl [OF r(1)] heap_alloc_eff [OF r(1) h] by simp_all
  have loop: "lax (bind_res (flush_loop (vn_va v) stk burst left flush_buf ?q s st1 [] 0) (\<lambda>(ret, num_packets, frames, vq, s', st2).
           let v2 = (set_vq 1 vq v1)\<lparr>vn_nw := s'\<rparr> in
           case ret of Some r \<Rightarrow> Inr (r, v2, st2)
           | None \<Rightarrow>
               bind_res (if num_packets > 0 then vqueue_kick 1 v2 else Inr v2) (\<lambda>v3.
               bind_res (if frames \<noteq> [] then bstgw_generic_rx_handler x dev frames st2 else Inr (0, st2)) (\<lambda>(_, st3).
                 Inr (int num_packets, v3, st3))))) ?R" for burst left
    by (rule lax_mono [OF flush_loop_finish [OF assms(1,3) e(2) v1(1,2) up]]) (use ready in auto)
  have size: "lax (bind_res (router_in_burst_size dev fec qsize st) f) ?R" if "\<And>n. lax (f n) ?R" for f
    by (rule lax_bind [OF burst_size_safe [OF r]]) (use fec that in auto)
  have "poll_post v st v st" "poll_post v st (v\<lparr>vn_nw := s\<rparr>) st" "poll_post v st v1 st" "poll_post v st v1 st1"
    using poll_post_card [OF assms(2)] card_ok_refl [OF v] card_ok_frame(1) [OF v] ready [OF card_ok_refl [OF v1(1)]] e by auto
  then show ?thesis
    unfolding virtio_net_flush_tx_def q bind_res_simps s prod.case Let_def fec_def [symmetric] v1_def [symmetric] h
    by (auto simp: v1(3) simp del: One_nat_def intro!: size loop [unfolded Let_def])
qed

lemma avail_notify_returns:
  assumes "ring_up q"
  obtains k s' where "vqueue_num_of_avail_buf_and_notify q s = Inr (k, s')"
proof -
  have "vq_avail q \<noteq> 0" "vq_used q \<noteq> 0" using assms by (auto simp: ring_up_def vq_inv_def)
  then have "\<exists>y. vqueue_num_of_avail_buf_and_notify q s = Inr y"
    by (simp add: vqueue_num_of_avail_buf_and_notify_def vqueue_num_of_avail_buf_def used_flags_update_def deref_def Let_def)
  then show thesis using that by auto
qed

lemma poll_done_card:
  assumes "vnic_inv v" "\<And>i. i < VNIC_QUEUE_MAX \<Longrightarrow> ring_up (vd_vq (vn_vdev v) ! i)"
  obtains v' where "poll_done ret v = Inr v'" "card_ok v v'"
proof -
  obtain n fin where n: "napi_complete (vn_napi v) = (n, fin)" by (cases "napi_complete (vn_napi v)")
  have c: "card_ok v (v\<lparr>vn_napi := m\<rparr>)" "card_ok v (v\<lparr>vn_napi := m, vn_nw := s\<rparr>)" "card_ok v (v\<lparr>vn_napi := m, vn_nw := s, vn_napi := m'\<rparr>)"
    for m m' s using assms(1) by (simp_all add: card_ok_def vnic_inv_def identity_def)
  have q: "get_vq i w = Inr (vd_vq (vn_vdev v) ! i)" if "i < VNIC_QUEUE_MAX" "vn_vdev w = vn_vdev v" for i w
    using assms(1) that by (simp add: get_vq_def vnic_inv_def)
  obtain k s where k: "vqueue_num_of_avail_buf_and_notify (vd_vq (vn_vdev v) ! 1) (vn_nw v) = Inr (k, s)"
    using avail_notify_returns [OF assms(2) [of 1]] by (auto simp: VNIC_QUEUE_MAX_def)
  obtain k' s' where k': "vqueue_num_of_avail_buf_and_notify (vd_vq (vn_vdev v) ! 0) s = Inr (k', s')"
    using avail_notify_returns [OF assms(2) [of 0]] by (auto simp: VNIC_QUEUE_MAX_def)
  have "\<exists>v'. poll_done ret v = Inr v' \<and> card_ok v v'"
    unfolding poll_done_def n Let_def prod.case
    using c k k' q [of 1] q [of 0] by (simp add: VNIC_QUEUE_MAX_def)
  then show thesis using that by blast
qed

lemma poll_round_lax:
  fixes st :: "('th, 'lp, 'n) rstate"
  assumes "net_ready dev st" "card_ready v st" "ext_ok x"
  shows "lax (poll_round x qsize stk dev (pkts, v, st)) (\<lambda>(fin, pkts', v', st'). poll_post v st v' st')"
proof -
  have ends: "lax (bind_res (poll_done ret v2) (\<lambda>v3. Inr (True, p, v3, st2))) (\<lambda>(fin, pkts', v', st'). poll_post v st v' st')"
    if "poll_post v st v2 st2" for ret v2 st2 and p :: int
  proof -
    have c: "card_ready v2 st2" "rinv st2" using that by (auto simp: poll_post_def eff_def)
    then obtain v3 where v3: "poll_done ret v2 = Inr v3" "card_ok v2 v3"
      using poll_done_card [of v2] by (auto simp: card_ready_def)
    have "poll_post v2 st2 v3 st2" by (rule poll_post_card [OF c(1) v3(2) eff_refl [OF c(2)]])
    then show ?thesis using v3(1) poll_post_trans [OF that] by simp
  qed
  have tx: "lax (bind_res (router_pktq_tx (vnic_xmit_handler stk) dev v1 st1) (\<lambda>(ret2, v2, st2).
     if ret > 0 \<or> ret = VIRTIO_NAPI_RETRY \<or> ret2 > 0 \<or> ret2 = VIRTIO_NAPI_RETRY then Inr (False, p, v2, st2)
     else bind_res (poll_done ret2 v2) (\<lambda>v3. Inr (True, p, v3, st2)))) (\<lambda>(fin, pkts', v', st'). poll_post v st v' st')"
    if p1: "poll_post v st v1 st1" for v1 st1 ret and p :: int
  proof -
    have "card_ready v1 st1" "net_ready dev st1" using p1 net_ready_eff [OF assms(1)] by (auto simp: poll_post_def)
    then have c: "vnic_inv v1" "rinv st1" "dev \<in> set (netdev_list (nd st1))" "card_ready v1 st1"
      by (simp_all add: card_ready_def net_ready_def)
    have step: "poll_post v st v2 st2" if "tx_post dev v1 st1 (r, v2, st2)" for r v2 st2
      using that poll_post_trans [OF p1] poll_post_card [OF c(4)] by (auto simp: tx_post_def)
    show ?thesis
    proof (rule lax_bind [OF pktq_tx_lax [OF c(1-3)]], goal_cases)
      case (1 y)
      then show ?case using step ends by (cases y) auto
    qed
  qed
  show ?thesis
    unfolding poll_round_def prod.case
    by (rule lax_bind [OF flush_tx_lax [OF assms]]) (use tx in \<open>auto simp: Let_def\<close>)
qed

lemma poll_loop_post:
  fixes st :: "('th, 'lp, 'n) rstate"
  assumes "poll_loop (poll_round x qsize stk dev) budget w = Some r" "w = (pkts, v, st)"
    "net_ready dev st" "card_ready v st" "ext_ok x"
  shows "lax r (\<lambda>(pkts', v', st'). poll_post v st v' st')"
proof -
  let ?f = "poll_round x qsize stk dev"
  define P where "P = (\<lambda>f (b :: int) (w :: int \<times> vnic \<times> ('th, 'lp, 'n) rstate) (r :: (int \<times> vnic \<times> ('th, 'lp, 'n) rstate) res). f = ?f \<longrightarrow> (\<forall>pkts v st. w = (pkts, v, st) \<longrightarrow> net_ready dev st \<longrightarrow> card_ready v st \<longrightarrow>
    lax r (\<lambda>(pkts', v', st'). poll_post v st v' st')))"
  have "P ?f budget w r"
  proof (rule poll_loop.raw_induct [where P = P, OF _ assms(1)])
    fix rec f b w r
    assume IH: "\<And>f b w r. rec f b w = Some r \<Longrightarrow> P f b w r"
      and eq: "(case f w of Inl e \<Rightarrow> Some (Inl e)
        | Inr (fin, w') \<Rightarrow> if fin \<or> b \<le> fst w' then Some (Inr w') else rec f b w') = Some r"
    show "P f b w r"
      unfolding P_def
    proof (intro impI allI)
      fix pkts v st
      assume f: "f = ?f" and w: "w = (pkts, v, st)" and pre: "net_ready dev st" "card_ready v st"
      have one: "lax (f w) (\<lambda>(fin, pkts', v', st'). poll_post v st v' st')"
        unfolding f w by (rule poll_round_lax [OF pre assms(5)])
      show "lax r (\<lambda>(pkts', v', st'). poll_post v st v' st')"
      proof (cases "f w")
        case (Inl e)
        then show ?thesis using eq one by auto
      next
        case (Inr y)
        obtain fin p1 v1 st1 where y: "y = (fin, p1, v1, st1)" by (cases y)
        have p1: "poll_post v st v1 st1" using one Inr y by simp
        show ?thesis
        proof (cases "fin \<or> b \<le> p1")
          case True
          then show ?thesis using eq Inr y p1 by auto
        next
          case False
          then have "rec f b (p1, v1, st1) = Some r" using eq Inr y by simp
          from IH [OF this] have "lax r (\<lambda>(pkts', v', st'). poll_post v1 st1 v' st')"
            using f p1 net_ready_eff [OF pre(1)] by (auto simp: P_def poll_post_def)
          then show ?thesis by (rule lax_mono) (use poll_post_trans [OF p1] in auto)
        qed
      qed
    qed
  qed
  then show ?thesis using assms(2-4) by (simp add: P_def)
qed

section \<open>The poll function\<close>



text \<open>
  A card whose rings are not set up faults on its first poll, and a single store to the status register
  schedules that poll.
\<close>

lemma poll_null:
  assumes "vnic_inv v" "vring_addr (vd_vq (vn_vdev v) ! 0) = 0"
  shows "vnic_poll x qsize stk dev budget v st = Some (Inl Null_deref)"
proof -
  let ?q = "vd_vq (vn_vdev v) ! 0"
  have "get_vq 0 v = Inr ?q" "vq_inv ?q" "\<exists>q. get_vq 1 v = Inr q"
    using vnic_queues [OF assms(1), of 0] vnic_queues [OF assms(1), of 1] by (simp_all add: VNIC_QUEUE_MAX_def)
  moreover have "vq_used ?q = 0" using assms(2) \<open>vq_inv ?q\<close> by (simp add: vq_inv_def vring_off_def)
  ultimately show ?thesis by (auto simp: vnic_poll_def used_flags_update_def deref_def)
qed

text \<open>
  Claim C31. A driver that never makes a queue ready and stores \<open>DRIVER_OK\<close> to the status register of the
  freshly initialised card has its poll function scheduled, and that poll writes through the null
  pointer of the used ring in the secure world.
\<close>

theorem unready_poll_faults:
  assumes "\<not> n_disable n" and "base + VIRTIO_MMIO_CONFIG < 2 ^ 32"
  shows "\<exists>v'. emu_run am base [reg_write base VIRTIO_MMIO_STATUS 4] (built junk n va s) = Inr ([4], v') \<and>
    n_sched (vn_napi v') \<and> vnic_poll x qsize stk dev budget v' st = Some (Inl Null_deref)"
proof -
  let ?v = "built junk n va s"
  have addr: "base + VIRTIO_MMIO_STATUS < 2 ^ 32" using assms(2) by (simp add: mmio_offs)
  have link: "vn_status (vn_vnet ?v) = 1" using built_sel(6) [of junk n va s] by (simp add: identity_def)
  define w where "w = upd_vdev (\<lambda>d. d\<lparr>vd_status := 4\<rparr>) ((upd_vdev (virtio_set_started True) ?v)\<lparr>vn_napi := napi_schedule n\<rparr>)"
  have run: "emu_run am base [reg_write base VIRTIO_MMIO_STATUS 4] ?v = Inr ([4], w)"
    using addr link
    by (simp add: reg_write_def emu_check_simps vnic_handle_mmio_write_def mmio_offs mmio_status_def virtio_set_status_def
        virtio_net_set_status_def virtio_net_started_def VIRTIO_NET_S_LINK_UP_def VIRTIO_CONFIG_S_DRIVER_OK_def
        VIRTIO_CONFIG_S_FEATURES_OK_def Let_def upd_vdev_def w_def)
  have sch: "n_sched (vn_napi w)"
    using assms(1) by (simp add: w_def upd_vdev_def napi_schedule_def napi_schedule_prep_locked_def napi_schedule_locked_def)
  have "vnic_inv w" using built_inv [of junk n va s] by (simp add: w_def upd_vdev_def vnic_inv_def virtio_set_started_def)
  moreover have "vring_addr (vd_vq (vn_vdev w) ! 0) = 0"
    by (simp add: w_def upd_vdev_def virtio_set_started_def vqueue_init_def zero_vqueue_def)
  ultimately show ?thesis using run sch poll_null by blast
qed

text \<open>
  A card that cannot make progress: the normal world offers some receive buffers, but fewer than the 128
  the card waits for, sends nothing, and leaves its memory alone, while a packet waits for it.
\<close>

definition avail_idx :: "nat \<Rightarrow> vnic \<Rightarrow> nat" where
  "avail_idx i v = rd16 (nwmem (vn_nw v)) (vq_avail (vd_vq (vn_vdev v) ! i) + 2)"

definition waiting :: "nat \<Rightarrow> vnic \<Rightarrow> nat" where
  "waiting i v = sub16 (avail_idx i v) (last_avail_idx (vd_vq (vn_vdev v) ! i))"

definition starved :: "nat \<Rightarrow> vnic \<Rightarrow> ('th, 'lp, 'n) rstate \<Rightarrow> bool" where
  "starved dev v st \<longleftrightarrow> quiet (vn_nw v) \<and> vnic_inv v \<and> (\<forall>i < VNIC_QUEUE_MAX. vring_addr (vd_vq (vn_vdev v) ! i) \<noteq> 0) \<and>
     vd_status (vn_vdev v) AND VIRTIO_CONFIG_S_DRIVER_OK \<noteq> 0 \<and>
     waiting 1 v = 0 \<and> 0 < waiting 0 v \<and> waiting 0 v < 128 \<and>
     (case ifs (nd st) dev of None \<Rightarrow> False | Some d \<Rightarrow> trust_status d \<noteq> BSTGW_IF_EXTERNAL \<and> pq_count (egress_queue d) \<noteq> 0 \<and>
        pktq_wf (egress_queue d))"

lemma starved_round:
  assumes "starved dev v st"
  obtains s where "poll_round x qsize stk dev (pkts, v, st) = Inr (False, pkts, v\<lparr>vn_nw := s\<rparr>, st)"
    "starved dev (v\<lparr>vn_nw := s\<rparr>) st"
proof -
  let ?v = "\<lambda>s. v\<lparr>vn_nw := s\<rparr>" and ?s = "sync (vn_nw v)"
  have v: "vnic_inv v" "quiet (vn_nw v)" using assms by (simp_all add: starved_def)
  have q: "get_vq i (?v s) = Inr (vd_vq (vn_vdev v) ! i)" "vq_avail (vd_vq (vn_vdev v) ! i) \<noteq> 0" if "i < VNIC_QUEUE_MAX" for i s
    using v assms that by (auto simp: starved_def get_vq_def vnic_inv_def list_all_length vq_inv_def)
  have q1: "get_vq 1 v = Inr (vd_vq (vn_vdev v) ! 1)" using q(1) [of 1 "vn_nw v"] by (simp add: VNIC_QUEUE_MAX_def)
  have n: "vqueue_num_of_avail_buf (vd_vq (vn_vdev v) ! i) s = Inr (waiting i (?v s), sync s)"
    if "i < VNIC_QUEUE_MAX" "quiet s" for i s
    using q(2) [OF that(1)] that(2) by (simp add: vqueue_num_of_avail_buf_def deref_def Let_def waiting_def avail_idx_def)
  have st: "starved dev (?v ?s) st" "starved dev (?v (sync ?s)) st"
    using assms by (simp_all add: starved_def waiting_def avail_idx_def vnic_inv_def)
  then have w: "waiting 1 v = 0" "waiting 0 (?v ?s) \<noteq> 0" "waiting 0 (?v ?s) < 128" using assms by (auto simp: starved_def)
  have fl: "virtio_net_flush_tx x qsize stk dev v st = Inr (VIRTIO_NO_AVAIL, ?v ?s, st)"
    using assms n [of 1 "vn_nw v"] w(1) v(2)
    unfolding virtio_net_flush_tx_def q1 bind_res_simps by (simp add: starved_def VNIC_QUEUE_MAX_def)
  obtain d where d: "ifs (nd st) dev = Some d" "trust_status d \<noteq> BSTGW_IF_EXTERNAL" "pq_count (egress_queue d) \<noteq> 0"
    "pktq_wf (egress_queue d)" using assms by (auto simp: starved_def split: option.splits)
  have c: "bstgw_pktq_locked_contig_bufs (egress_queue d) \<noteq> 0"
    using d(3,4) by (auto simp: bstgw_pktq_locked_contig_bufs_def bstgw_pktq_locked_is_empty_def pktq_wf_def)
  have up: "vring_addr (vd_vq (vn_vdev v) ! 0) \<noteq> 0" "vring_addr (vd_vq (vn_vdev v) ! 1) \<noteq> 0"
    "vd_status (vn_vdev v) AND VIRTIO_CONFIG_S_DRIVER_OK \<noteq> 0"
    using assms by (simp_all add: starved_def VNIC_QUEUE_MAX_def)
  have "vnic_xmit_handler stk pk (?v ?s) st = Inr (VIRTIO_NAPI_RETRY, ?v (sync ?s), st)" for pk
    using up q(1) [of 0 ?s] q(1) [of 1 ?s] n [of 0 ?s] w v(2)
    by (simp add: vnic_xmit_handler_def virtio_net_receive_def virtio_net_can_receive_def VNIC_QUEUE_MAX_def
        VIRTIO_NET_RX_QUEUE_DEFAULT_SIZE_def)
  then have "router_pktq_tx (vnic_xmit_handler stk) dev (?v ?s) st = Inr (VIRTIO_NAPI_RETRY, ?v (sync ?s), st)"
    using d c by (simp add: router_pktq_tx_def get_dev_def Let_def VIRTIO_NAPI_RETRY_def)
  then have "poll_round x qsize stk dev (pkts, v, st) = Inr (False, pkts, ?v (sync ?s), st)"
    using fl by (simp add: poll_round_def VIRTIO_NO_AVAIL_def)
  then show thesis using st(2) that by blast
qed

lemma starved_loop:
  fixes st :: "('th, 'lp, 'n) rstate"
  assumes "starved dev v st" "pkts < budget"
  shows "poll_loop (poll_round x qsize stk dev) budget (pkts, v, st) = None"
proof (rule ccontr)
  let ?f = "poll_round x qsize stk dev"
  define P where "P = (\<lambda>f (b :: int) (w :: int \<times> vnic \<times> ('th, 'lp, 'n) rstate) (r :: (int \<times> vnic \<times> ('th, 'lp, 'n) rstate) res). f = ?f \<longrightarrow>
    (\<forall>p v st. w = (p, v, st) \<longrightarrow> p < b \<longrightarrow> \<not> starved dev v st))"
  assume "poll_loop ?f budget (pkts, v, st) \<noteq> None"
  then obtain r where r: "poll_loop ?f budget (pkts, v, st) = Some r" by blast
  have "P ?f budget (pkts, v, st) r"
  proof (rule poll_loop.raw_induct [where P = P, OF _ r])
    fix rec f b w r
    assume IH: "\<And>f b w r. rec f b w = Some r \<Longrightarrow> P f b w r"
      and eq: "(case f w of Inl e \<Rightarrow> Some (Inl e)
        | Inr (fin, w') \<Rightarrow> if fin \<or> b \<le> fst w' then Some (Inr w') else rec f b w') = Some r"
    show "P f b w r"
      unfolding P_def
    proof (intro impI allI notI)
      fix p v st
      assume h: "f = ?f" "w = (p, v, st)" "p < b" "starved dev v st"
      obtain s where s: "?f (p, v, st) = Inr (False, p, v\<lparr>vn_nw := s\<rparr>, st)" "starved dev (v\<lparr>vn_nw := s\<rparr>) st"
        by (rule starved_round [OF h(4)])
      then have "rec f b (p, v\<lparr>vn_nw := s\<rparr>, st) = Some r" using eq h by simp
      from IH [OF this] show False using s(2) h by (simp add: P_def)
    qed
  qed
  then show False using assms by (simp add: P_def)
qed

lemma flags_quiet: "quiet s \<Longrightarrow> used_flags_update f q s = Inr s' \<Longrightarrow> quiet s'"
  by (auto simp: used_flags_update_def deref_def Let_def split: if_splits)

lemma flags_keep_idx:
  assumes "quiet s" "used_flags_update f q s = Inr s'" "vq_used q + 2 \<le> a \<or> a + 2 \<le> vq_used q"
  shows "rd16 (nwmem s') a = rd16 (nwmem s) a"
  using assms rd_wr_disjoint [of a 2 "vq_used q" "le_bytes 2 (f (rd16 (nwmem s) (vq_used q)))" "nwmem s"]
  by (auto simp: used_flags_update_def deref_def Let_def rd16_def split: if_splits)

definition rings_apart :: "vnic \<Rightarrow> bool" where
  "rings_apart v \<longleftrightarrow> (\<forall>i < VNIC_QUEUE_MAX. \<forall>j < VNIC_QUEUE_MAX.
     vq_used (vd_vq (vn_vdev v) ! i) \<le> vq_avail (vd_vq (vn_vdev v) ! j) \<or>
     vq_avail (vd_vq (vn_vdev v) ! j) + 4 \<le> vq_used (vd_vq (vn_vdev v) ! i))"

lemma poll_prologue:
  assumes "card_ready v st" "quiet (vn_nw v)" "rings_apart v"
  obtains s where "vnic_poll x qsize stk dev budget v st = poll_loop (poll_round x qsize stk dev) budget (0, v\<lparr>vn_nw := s\<rparr>, st)"
    "quiet s" "\<And>i. i < VNIC_QUEUE_MAX \<Longrightarrow> avail_idx i (v\<lparr>vn_nw := s\<rparr>) = avail_idx i v"
proof -
  let ?q = "\<lambda>i. vd_vq (vn_vdev v) ! i" and ?f = "\<lambda>f. f OR VRING_USED_F_NO_NOTIFY"
  have v: "vnic_inv v" using assms(1) by (simp add: card_ready_def)
  have q: "get_vq i v = Inr (?q i)" "vq_used (?q i) \<noteq> 0" if "i < VNIC_QUEUE_MAX" for i
    using vnic_queues [OF v that] assms(1) that by (auto simp: card_ready_def ring_up_def vq_inv_def)
  obtain s1 where s1: "used_flags_update ?f (?q 0) (vn_nw v) = Inr s1"
    using q(2) [of 0] by (simp add: used_flags_update_def deref_def Let_def VNIC_QUEUE_MAX_def)
  obtain s2 where s2: "used_flags_update ?f (?q 1) s1 = Inr s2"
    using q(2) [of 1] by (simp add: used_flags_update_def deref_def Let_def VNIC_QUEUE_MAX_def)
  have qu: "quiet s1" "quiet s2" using flags_quiet [OF assms(2) s1] flags_quiet [OF _ s2] by simp_all
  have ap: "vq_used (?q i) + 2 \<le> vq_avail (?q j) + 2 \<or> vq_avail (?q j) + 2 + 2 \<le> vq_used (?q i)"
    if "i < VNIC_QUEUE_MAX" "j < VNIC_QUEUE_MAX" for i j using assms(3) that unfolding rings_apart_def by fastforce
  have "rd16 (nwmem s2) (vq_avail (?q j) + 2) = rd16 (nwmem (vn_nw v)) (vq_avail (?q j) + 2)" if "j < VNIC_QUEUE_MAX" for j
    using flags_keep_idx [OF assms(2) s1 ap [OF _ that]] flags_keep_idx [OF qu(1) s2 ap [OF _ that]] by (simp add: VNIC_QUEUE_MAX_def)
  then have "avail_idx i (v\<lparr>vn_nw := s2\<rparr>) = avail_idx i v" if "i < VNIC_QUEUE_MAX" for i
    using that by (simp add: avail_idx_def)
  moreover have "vnic_poll x qsize stk dev budget v st = poll_loop (poll_round x qsize stk dev) budget (0, v\<lparr>vn_nw := s2\<rparr>, st)"
    using s1 s2 q(1) [of 0] q(1) [of 1] by (simp add: vnic_poll_def VNIC_QUEUE_MAX_def)
  ultimately show thesis using that qu(2) by blast
qed

text \<open>
  Claim C30. The poll function does not end while the normal world offers between 1 and 127 receive
  buffers, transmits nothing and leaves its memory alone, and a packet waits in the egress queue: the
  retry code counts as an event, so the worker of the card spins without a budget.
\<close>

theorem starved_poll_spins:
  assumes "card_ready v st" and "starved dev v st" and "rings_apart v" and "0 < budget"
  shows "vnic_poll x qsize stk dev budget v st = None"
proof -
  have "quiet (vn_nw v)" using assms(2) by (simp add: starved_def)
  then obtain s where s: "vnic_poll x qsize stk dev budget v st = poll_loop (poll_round x qsize stk dev) budget (0, v\<lparr>vn_nw := s\<rparr>, st)"
    "quiet s" "\<And>i. i < VNIC_QUEUE_MAX \<Longrightarrow> avail_idx i (v\<lparr>vn_nw := s\<rparr>) = avail_idx i v"
    using poll_prologue [OF assms(1) _ assms(3)] by blast
  have "starved dev (v\<lparr>vn_nw := s\<rparr>) st"
    using assms(2) s(2,3) by (simp add: starved_def waiting_def vnic_inv_def VNIC_QUEUE_MAX_def)
  from starved_loop [OF this assms(4)] s(1) show ?thesis by simp
qed

text \<open>A card with nothing to do in either direction.\<close>

definition idle :: "nat \<Rightarrow> vnic \<Rightarrow> ('th, 'lp, 'n) rstate \<Rightarrow> bool" where
  "idle dev v st \<longleftrightarrow> avail_idx 1 v = last_avail_idx (vd_vq (vn_vdev v) ! 1) \<and> (case ifs (nd st) dev of None \<Rightarrow> False | Some d \<Rightarrow> pq_count (egress_queue d) = 0)"

lemma idx_self: "sub16 (rd16 m a) (rd16 m a) = 0"
  using rd16_less [of m a] by (simp add: sub16_def)

lemma notify_on:
  assumes "ring_up q" "quiet s" "rd16 (nwmem s) (vq_avail q + 2) = last_avail_idx q"
    "vq_used q \<le> vq_avail q \<or> vq_avail q + 4 \<le> vq_used q"
  obtains s' where "vqueue_num_of_avail_buf_and_notify q s = Inr (0, s')" "rd16 (nwmem s') (vq_used q) AND VRING_USED_F_NO_NOTIFY = 0"
proof -
  have p: "vq_avail q \<noteq> 0" "vq_used q \<noteq> 0" using assms(1) by (auto simp: ring_up_def vq_inv_def)
  obtain s1 where s1: "used_flags_update (\<lambda>v. v AND 0xFFFE) q (sync s) = Inr s1"
    using p by (simp add: used_flags_update_def deref_def Let_def)
  have qs: "quiet (sync s)" using assms(2) by simp
  have "vq_used q + 2 \<le> vq_avail q + 2 \<or> vq_avail q + 2 + 2 \<le> vq_used q" using assms(4) by auto
  then have i: "rd16 (nwmem s1) (vq_avail q + 2) = last_avail_idx q"
    using flags_keep_idx [OF qs s1] assms(2,3) by simp
  have "even (w AND (0xFFFE :: nat))" for w by (simp add: even_and_iff)
  then have w: "(w AND 0xFFFE) mod 0x10000 AND 1 = (0 :: nat)" for w
    by (simp add: and_one_eq mod_mod_cancel even_iff_mod_2_eq_zero)
  have "rd16 (nwmem s1) (vq_used q) = (rd16 (nwmem s) (vq_used q) AND 0xFFFE) mod 0x10000"
    using s1 p assms(2) by (auto simp: used_flags_update_def deref_def Let_def rd16_def le_val_le_bytes)
  then have "rd16 (nwmem (sync s1)) (vq_used q) AND VRING_USED_F_NO_NOTIFY = 0"
    using flags_quiet [OF qs s1] w by (simp add: VRING_USED_F_NO_NOTIFY_def)
  then show thesis
    using that p s1 i assms flags_quiet [OF qs s1] idx_self [of "nwmem s" "vq_avail q + 2"]
    by (simp add: vqueue_num_of_avail_buf_and_notify_def vqueue_num_of_avail_buf_def deref_def Let_def)
qed

lemma idle_round:
  assumes "card_ready v st" "quiet (vn_nw v)" "idle dev v st"
  obtains s where "quiet s" "nwmem s = nwmem (vn_nw v)"
    "poll_round x qsize stk dev (pkts, v, st) = bind_res (poll_done 0 (v\<lparr>vn_nw := s\<rparr>)) (\<lambda>v'. Inr (True, pkts, v', st))"
proof -
  let ?q = "vd_vq (vn_vdev v) ! 1"
  have q: "get_vq 1 v = Inr ?q" "vq_avail ?q \<noteq> 0"
    using assms(1) vnic_queues [of v 1] by (auto simp: card_ready_def ring_up_def vq_inv_def VNIC_QUEUE_MAX_def)
  have tx: "router_pktq_tx (vnic_xmit_handler stk) dev w st = Inr (0, w, st)" for w
    using assms(3) by (auto simp: idle_def router_pktq_tx_def get_dev_def bstgw_pktq_locked_contig_bufs_def
        bstgw_pktq_locked_is_empty_def split: option.splits)
  have "vqueue_num_of_avail_buf ?q (vn_nw v) = Inr (0, sync (vn_nw v))"
    using q(2) assms(2,3) idx_self [of "nwmem (vn_nw v)" "vq_avail ?q + 2"]
    by (simp add: vqueue_num_of_avail_buf_def deref_def Let_def idle_def avail_idx_def)
  then have "virtio_net_flush_tx x qsize stk dev v st \<in> {Inr (0, v, st), Inr (VIRTIO_NO_AVAIL, v\<lparr>vn_nw := sync (vn_nw v)\<rparr>, st)}"
    unfolding virtio_net_flush_tx_def q(1) bind_res_simps by simp
  then have "\<exists>s. quiet s \<and> nwmem s = nwmem (vn_nw v) \<and>
      poll_round x qsize stk dev (pkts, v, st) = bind_res (poll_done 0 (v\<lparr>vn_nw := s\<rparr>)) (\<lambda>v'. Inr (True, pkts, v', st))"
    using assms(2) tx
    by (auto simp: poll_round_def VIRTIO_NO_AVAIL_def VIRTIO_NAPI_RETRY_def intro: exI [of _ "vn_nw v"] exI [of _ "sync (vn_nw v)"])
  then show thesis using that by blast
qed

lemma idle_poll_returns:
  assumes "card_ready v st" and "quiet (vn_nw v)" and "rings_apart v" and "idle dev v st" and "n_sched (vn_napi v)"
  shows "\<exists>v'. vnic_poll x qsize stk dev budget v st = Some (Inr (0, v', st)) \<and>
    (if n_missed (vn_napi v) \<and> \<not> n_disable (vn_napi v) then n_sched (vn_napi v')
     else \<not> n_sched (vn_napi v') \<and> rd16 (nwmem (vn_nw v')) (vq_used (vd_vq (vn_vdev v) ! 1)) AND VRING_USED_F_NO_NOTIFY = 0)"
proof -
  let ?q = "vd_vq (vn_vdev v) ! 1" and ?v = "\<lambda>s. v\<lparr>vn_nw := s\<rparr>"
  obtain s where s: "vnic_poll x qsize stk dev budget v st = poll_loop (poll_round x qsize stk dev) budget (0, ?v s, st)"
    "quiet s" "\<And>i. i < VNIC_QUEUE_MAX \<Longrightarrow> avail_idx i (?v s) = avail_idx i v"
    using poll_prologue [OF assms(1-3)] by blast
  have c: "card_ready (?v s) st" "idle dev (?v s) st" "quiet (vn_nw (?v s))"
    using assms(1,4) s(2,3) by (simp_all add: card_ready_def vnic_inv_def idle_def VNIC_QUEUE_MAX_def)
  obtain t where t: "quiet t" "nwmem t = nwmem s"
    "poll_round x qsize stk dev (0, ?v s, st) = bind_res (poll_done 0 (?v t)) (\<lambda>v'. Inr (True, 0, v', st))"
    using idle_round [OF c(1,3,2), of x qsize stk 0] by auto
  have up: "ring_up ?q" "get_vq 1 (v\<lparr>vn_nw := t, vn_napi := m\<rparr>) = Inr ?q" for m
    using assms(1) by (auto simp: card_ready_def vnic_inv_def get_vq_def VNIC_QUEUE_MAX_def)
  have "rd16 (nwmem t) (vq_avail ?q + 2) = last_avail_idx ?q" using c(2) t(2) by (simp add: idle_def avail_idx_def)
  moreover have "vq_used ?q \<le> vq_avail ?q \<or> vq_avail ?q + 4 \<le> vq_used ?q" using assms(3) by (simp add: rings_apart_def VNIC_QUEUE_MAX_def)
  ultimately obtain u where u: "vqueue_num_of_avail_buf_and_notify ?q t = Inr (0, u)"
    "rd16 (nwmem u) (vq_used ?q) AND VRING_USED_F_NO_NOTIFY = 0" using notify_on [OF up(1) t(1)] by blast
  let ?m = "n_missed (vn_napi v) \<and> \<not> n_disable (vn_napi v)"
  define v' where "v' = (if ?m then v\<lparr>vn_nw := t, vn_napi := (vn_napi v)\<lparr>n_missed := False\<rparr>\<rparr>
    else v\<lparr>vn_nw := t, vn_napi := (vn_napi v)\<lparr>n_sched := False\<rparr>, vn_nw := u\<rparr>)"
  have "poll_done 0 (?v t) = Inr v'"
    using up(2) u(1) by (simp add: poll_done_def napi_complete_def napi_complete_done_def Let_def VIRTIO_NO_AVAIL_def v'_def)
  then have "poll_loop (poll_round x qsize stk dev) budget (0, ?v s, st) = Some (Inr (0, v', st))"
    using t(3) by (subst poll_loop.simps) simp
  then show ?thesis using s(1) u(2) assms(5) by (auto simp: v'_def)
qed

text \<open>
  Claim C11. An idle poll ends after one round: with both directions idle and a quiet normal world it
  returns 0 and leaves the router alone. If the card was scheduled again in the meantime it stays
  scheduled; otherwise it is descheduled and the transmit ring asks for notifications again, so
  the normal world's next packet wakes the card.
\<close>

theorem idle_poll_rearms:
  assumes "card_ready v st" and "quiet (vn_nw v)" and "rings_apart v" and "idle dev v st" and "n_sched (vn_napi v)"
  shows "\<exists>v'. vnic_poll x qsize stk dev budget v st = Some (Inr (0, v', st)) \<and>
    (if n_missed (vn_napi v) \<and> \<not> n_disable (vn_napi v) then n_sched (vn_napi v')
     else \<not> n_sched (vn_napi v') \<and> rd16 (nwmem (vn_nw v')) (vq_used (vd_vq (vn_vdev v) ! 1)) AND VRING_USED_F_NO_NOTIFY = 0)"
  using assms by (rule idle_poll_returns)

section \<open>A card with rings\<close>

definition demo_vq :: "nat \<Rightarrow> vqueue" where
  "demo_vq a = (vqueue_init zero_vqueue 0 VNIC_VQ_MAX_SIZE SMALL_PAGE_SIZE (Some Vnic_vq_notify_cb) (Some Vnic_vq_kick_cb))
     \<lparr>vring_addr := a, vq_vring := \<lparr>vr_num = 256, vr_num_default = VNIC_VQ_MAX_SIZE, vr_desc = a, vr_avail = a + 0x1000, vr_used = a + 0x2000\<rparr>\<rparr>"

definition demo_nw :: nwmach where
  "demo_nw = \<lparr>nwmem = (\<lambda>a. if a = 0x11002 then 4 else 0), nwenv = (\<lambda>_. id), nwtick = 0\<rparr>"

definition demo_card :: vnic where
  "demo_card = upd_vdev (\<lambda>d. d\<lparr>vd_status := 15, vd_vq := [demo_vq 0x10000, demo_vq 0x20000]\<rparr>)
     (built zero_vdev (napi_instance_setup\<lparr>n_sched := True\<rparr>) (\<lambda>_. 0) demo_nw)"

definition demo_host :: "(unit, unit, unit) rstate" where
  "demo_host = demo_router\<lparr>nd := demo_net\<lparr>ifs := [7 \<mapsto> demo_dev\<lparr>if_worker_count := 1, workers := [Some 1]\<rparr>]\<rparr>\<rparr>"

definition demo_waiting :: "(unit, unit, unit) rstate" where
  "demo_waiting = demo_router\<lparr>nd := demo_net\<lparr>ifs := [7 \<mapsto> demo_dev\<lparr>egress_queue :=
     \<lparr>stopped = False, next_read = 0, next_write = 1, pq_count = 1, pq_capacity = 4, pkt = [3, 0, 0, 0]\<rparr>\<rparr>]\<rparr>\<rparr>"

lemma demo_card_inv: "vnic_inv demo_card" "\<And>i. i < VNIC_QUEUE_MAX \<Longrightarrow> ring_up (vd_vq (vn_vdev demo_card) ! i)"
proof -
  have q: "ring_up (demo_vq a)" if "0 < a" for a
    using that by (simp add: ring_up_def demo_vq_def vq_inv_def vring_off_def vqueue_init_def SMALL_PAGE_SIZE_def VNIC_VQ_MAX_SIZE_def)
  then have "vq_inv (demo_vq 0x10000)" "vq_inv (demo_vq 0x20000)" by (simp_all add: ring_up_def)
  then show "vnic_inv demo_card"
    using built_inv [of zero_vdev "napi_instance_setup\<lparr>n_sched := True\<rparr>" "\<lambda>_. 0" demo_nw]
    by (simp add: demo_card_def upd_vdev_def vnic_inv_def VNIC_QUEUE_MAX_def)
  show "ring_up (vd_vq (vn_vdev demo_card) ! i)" if "i < VNIC_QUEUE_MAX" for i
    using that q by (auto simp: demo_card_def upd_vdev_def VNIC_QUEUE_MAX_def less_2_cases_iff)
qed

lemma demo_card_ready: "card_ready demo_card st"
  using demo_card_inv by (simp add: card_ready_def) (simp add: demo_card_def upd_vdev_def built_def vnic_build_def vnic_features Let_def)

lemma demo_host_inv: "rinv demo_host" "net_ready 7 demo_host"
proof -
  have "netdev_wf (nd demo_host)"
    by (simp add: netdev_wf_def demo_host_def demo_net_def demo_dev_def zero_ifnet_def MAX_IFNET_IDS_def)
  moreover have "devs_ok (nd demo_host)"
    by (simp add: devs_ok_def dev_ok_def demo_host_def demo_net_def demo_dev_def zero_ifnet_def pktq_wf_def BSTGW_MAX_NETIF_IPS_def)
  moreover have "queued demo_host = []" by (simp add: queued_def dev_queue_def demo_host_def demo_defs pktq_list_def)
  moreover have "pool demo_host = demo_pool" by (simp add: demo_host_def demo_router_def)
  ultimately show "rinv demo_host" using demo_pool_ok by (simp add: rinv_def)
  then show "net_ready 7 demo_host" by (simp add: net_ready_def demo_host_def demo_net_def has_worker_def ifnet_dev_count_def)
qed

lemma demo_rings: "rings_apart demo_card" "quiet (vn_nw demo_card)" "idle 7 demo_card demo_host" "n_sched (vn_napi demo_card)"
  "\<not> n_missed (vn_napi demo_card)"
proof -
  have q: "vd_vq (vn_vdev demo_card) = [demo_vq 0x10000, demo_vq 0x20000]" "vn_nw demo_card = demo_nw"
    "vn_napi demo_card = napi_instance_setup\<lparr>n_sched := True\<rparr>"
    by (simp_all add: demo_card_def upd_vdev_def)
  show "rings_apart demo_card" by (simp add: rings_apart_def VNIC_QUEUE_MAX_def q less_2_cases_iff demo_vq_def)
  show "quiet (vn_nw demo_card)" by (simp add: q demo_nw_def quiet_def)
  show "idle 7 demo_card demo_host"
    by (simp add: idle_def avail_idx_def q demo_vq_def demo_nw_def mem_eval vqueue_init_def demo_host_def demo_defs)
  show "n_sched (vn_napi demo_card)" "\<not> n_missed (vn_napi demo_card)" by (simp_all add: q napi_instance_setup_def)
qed

theorem idle_poll_rearms_witness:
  "\<exists>v'. vnic_poll demo_ext 512 (\<lambda>_. 0) 7 65 demo_card demo_host = Some (Inr (0, v', demo_host)) \<and> \<not> n_sched (vn_napi v')"
  using idle_poll_rearms [OF demo_card_ready demo_rings(2,1,3,4), of demo_ext 512 "\<lambda>_. 0" 65] demo_rings(5) by auto





theorem unready_poll_faults_witness:
  "\<exists>v'. emu_run (\<lambda>va pa n. None) 0x4000 [reg_write 0x4000 VIRTIO_MMIO_STATUS 4] demo_vnic = Inr ([4], v') \<and>
    n_sched (vn_napi v') \<and> vnic_poll demo_ext 512 (\<lambda>_. 0) 7 65 v' demo_host = Some (Inl Null_deref)"
  using unready_poll_faults [of napi_instance_setup "0x4000" "\<lambda>va pa n. None" zero_vdev "\<lambda>_. 0" quiet_nw demo_ext 512 "\<lambda>_. 0" 7 65 demo_host]
  by (simp add: demo_vnic_def napi_instance_setup_def mmio_offs)

theorem starved_poll_spins_witness:
  "vnic_poll demo_ext 512 (\<lambda>_. 0) 7 65 demo_card demo_waiting = None"
proof -
  have q: "vd_vq (vn_vdev demo_card) = [demo_vq 0x10000, demo_vq 0x20000]" "vn_nw demo_card = demo_nw" "vd_status (vn_vdev demo_card) = 15"
    by (simp_all add: demo_card_def upd_vdev_def)
  have "waiting 0 demo_card = 4" "waiting 1 demo_card = 0"
    by (simp_all add: waiting_def avail_idx_def q demo_vq_def demo_nw_def mem_eval vqueue_init_def sub16_def)
  then have "starved 7 demo_card demo_waiting"
    using demo_card_inv demo_rings(2)
    by (simp add: starved_def VIRTIO_CONFIG_S_DRIVER_OK_def q(3) demo_waiting_def demo_defs pktq_wf_def ring_up_def)
  from starved_poll_spins [OF demo_card_ready this demo_rings(1)] show ?thesis by simp
qed


section \<open>Bringing the card up\<close>

text \<open>
  \<open>vnic_init\<close> with its error labels. What the platform answers is a record: the mapping of the register
  region, the interrupt controller, the registration of the trap handler, and the addresses at which the
  device and its NAPI instance lie inside the card. Allocations come from the heap oracle of the state.
  Freeing the card frees the device inside it.
\<close>

record platform =
  rg_size :: nat
  rg_va :: nat
  gic_chip :: bool
  emu_add_region :: int
  net_device_at :: nat
  napi_at :: nat
  va_map :: "nat \<Rightarrow> nat"
  heap_junk :: vdev
  nw_world :: nwmach

definition vnic_init_vmmio :: "platform \<Rightarrow> ('th, 'lp, 'n) rstate \<Rightarrow> tee_result \<times> ('th, 'lp, 'n) rstate" where
  "vnic_init_vmmio pf st =
     (case heap_alloc st of (it, st1) \<Rightarrow>
        if \<not> it \<or> \<not> gic_chip pf then (TEE_ERROR_OUT_OF_MEMORY, st1) else (TEE_SUCCESS, st1))"

definition vnic_net_device :: "'th ifnet \<Rightarrow> 'th ifnet" where
  "vnic_net_device d = d\<lparr>hwaddr := [0xfa, 0xfa, 0xde, 0xad, 0xbe, 0xef], if_name := ''NW'', trust_status := BSTGW_IF_NONSEC,
     rx_handler := Some Generic_rx_handler, xmit_handler := Some Vnic_handler, egress_ntfy_handler := Some Vnic_handler,
     egress_queue := netif_tx_start_queue (egress_queue d)\<rparr>"

definition vnic_weight :: int where "vnic_weight = 65"

text \<open>From the device on: the part of \<open>vnic_init\<close> whose errors leave more behind than freed memory.\<close>

definition vnic_attach :: "platform \<Rightarrow> nat list \<Rightarrow> ('th, 'lp, 'n) rstate \<Rightarrow> (tee_result \<times> vnic option \<times> nat list \<times> ('th, 'lp, 'n) rstate) res" where
  "vnic_attach pf dlst st =
     (let p = net_device_at pf; gone = (\<lambda>s. s\<lparr>nd := (nd s)\<lparr>ifs := (ifs (nd s))(p := None)\<rparr>\<rparr>); (ok, st1) = heap_alloc st in
      case ifnet_dev_init ok of None \<Rightarrow> Inr (TEE_ERROR_OUT_OF_MEMORY, None, dlst, st1)
      | Some d \<Rightarrow>
          bind_res (netif_napi_add p (vnic_net_device d) (napi_at pf) napi_instance_setup Vnic_handler vnic_weight dlst) (\<lambda>(d1, n1, dlst1).
          bind_res (napi_enable n1) (\<lambda>n2.
          let st2 = st1\<lparr>nd := (nd st1)\<lparr>ifs := (ifs (nd st1))(p \<mapsto> d1)\<rparr>\<rparr> in
          bind_res (ifnet_dev_register p (nd st2)) (\<lambda>(nd', r).
          let st3 = st2\<lparr>nd := nd'\<rparr> in
          if r \<noteq> 0 then Inr (TEE_ERROR_GENERIC, None, dlst1, gone st3)
          else if emu_add_region pf \<noteq> 0 then Inr (TEE_ERROR_OUT_OF_MEMORY, None, dlst1, gone st3)
          else bind_res (vnic_build (heap_junk pf) n2 (va_map pf) (nw_world pf)) (\<lambda>v.
            Inr (TEE_SUCCESS, Some v, dlst1, st3))))))"

definition vnic_init :: "platform \<Rightarrow> nat list \<Rightarrow> ('th, 'lp, 'n) rstate \<Rightarrow> (tee_result \<times> vnic option \<times> nat list \<times> ('th, 'lp, 'n) rstate) res" where
  "vnic_init pf dlst st =
     (if rg_size pf = 0 then Inr (TEE_ERROR_SHORT_BUFFER, None, dlst, st)
      else if rg_va pf = 0 then Inr (TEE_ERROR_GENERIC, None, dlst, st)
      else case heap_alloc st of (mem, st1) \<Rightarrow>
        if \<not> mem then Inr (TEE_ERROR_OUT_OF_MEMORY, None, dlst, st1)
        else (case vnic_init_vmmio pf st1 of (res, st2) \<Rightarrow>
          if res \<noteq> TEE_SUCCESS then Inr (res, None, dlst, st2)
          else (case heap_alloc st2 of (net_conf, st3) \<Rightarrow>
            if \<not> net_conf then Inr (TEE_ERROR_OUT_OF_MEMORY, None, dlst, st3)
            else (case heap_alloc st3 of (vqs, st4) \<Rightarrow>
              if \<not> vqs then Inr (TEE_ERROR_OUT_OF_MEMORY, None, dlst, st4)
              else (case heap_alloc st4 of (cv, st5) \<Rightarrow> case heap_alloc st5 of (mtx, st6) \<Rightarrow>
                if \<not> cv \<or> \<not> mtx then Inr (TEE_ERROR_OUT_OF_MEMORY, None, dlst, st6)
                else vnic_attach pf dlst st6)))))"

definition only_clk :: "('th, 'lp, 'n) rstate \<Rightarrow> ('th, 'lp, 'n) rstate \<Rightarrow> bool" where
  "only_clk st st' \<longleftrightarrow> (\<exists>k. st' = st\<lparr>pool := (pool st)\<lparr>clk := k\<rparr>\<rparr>)"

lemma only_clk_refl: "only_clk st st"
  unfolding only_clk_def by (rule exI [of _ "clk (pool st)"]) simp

lemma only_clk_alloc: "only_clk st st1 \<Longrightarrow> heap_alloc st1 = (ok, st2) \<Longrightarrow> only_clk st st2"
  by (auto simp: only_clk_def heap_alloc_def)

lemma only_clk_nd: "only_clk st st' \<Longrightarrow> nd st' = nd st"
  by (auto simp: only_clk_def)

text \<open>The three outcomes: nothing happened, a dangling device, a registered card.\<close>

definition init_outcome :: "platform \<Rightarrow> nat list \<Rightarrow> ('th, 'lp, 'n) rstate \<Rightarrow> tee_result \<times> vnic option \<times> nat list \<times> ('th, 'lp, 'n) rstate \<Rightarrow> bool" where
  "init_outcome pf dlst st = (\<lambda>(res, c, dlst', st').
     case c of
       None \<Rightarrow> res \<noteq> TEE_SUCCESS \<and>
         (only_clk st st' \<and> dlst' = dlst \<or>
          dlst' = napi_at pf # dlst \<and> ifs (nd st') (net_device_at pf) = None \<and>
          (if next_if_idx (nd st) > MAX_IFNET_IDS then netdev_list (nd st') = netdev_list (nd st)
           else hd (netdev_list (nd st')) = net_device_at pf \<and> \<not> netdev_wf (nd st')))
     | Some v \<Rightarrow> res = TEE_SUCCESS \<and> vnic_inv v \<and> \<not> n_disable (vn_napi v) \<and> n_weight (vn_napi v) = 65 \<and> dlst' = napi_at pf # dlst \<and>
         netdev_wf (nd st') \<and> netdev_list (nd st') = net_device_at pf # netdev_list (nd st) \<and>
         ifnet_getbyname (Some ''NW'') (nd st') = Some (net_device_at pf) \<and> next_if_idx (nd st') = next_if_idx (nd st) + 1)"

lemma dangling:
  assumes "netdev_wf n" "netdev_list n = p # ps"
  shows "\<not> netdev_wf (n\<lparr>ifs := (ifs n)(p := None)\<rparr>)"
proof
  assume "netdev_wf (n\<lparr>ifs := (ifs n)(p := None)\<rparr>)"
  from netdev_wf_lookup(2) [OF this, of "length ps"] assms(2) show False by (simp add: nth_append)
qed

lemma attach_outcome:
  fixes st :: "('th, 'lp, 'n) rstate"
  assumes "netdev_wf (nd st)" "net_device_at pf \<notin> set (netdev_list (nd st))" "only_clk st0 st"
  obtains y where "vnic_attach pf dlst st = Inr y" "init_outcome pf dlst st0 y"
proof -
  let ?p = "net_device_at pf"
  obtain ok st1 where h: "heap_alloc st = (ok, st1)" by (cases "heap_alloc st")
  have c: "only_clk st0 st1" "nd st1 = nd st" "nd st = nd st0"
    using only_clk_alloc [OF assms(3) h] only_clk_nd [OF assms(3)] only_clk_nd by fastforce+
  show thesis
  proof (cases ok)
    case False
    then show thesis using that h c by (simp add: vnic_attach_def ifnet_dev_init_def init_outcome_def Let_def)
  next
    case True
    define d0 :: "'th ifnet" where "d0 = vnic_net_device (zero_ifnet\<lparr>egress_queue := netif_tx_stop_queue empty_queue\<rparr>)"
    obtain d1 n1 where na: "netif_napi_add ?p d0 (napi_at pf) napi_instance_setup Vnic_handler vnic_weight dlst = Inr (d1, n1, napi_at pf # dlst)"
      "if_name d1 = ''NW''" "n_disable n1" "\<not> n_sched n1" "n_weight n1 = 65"
      by (simp add: netif_napi_add_def d0_def vnic_net_device_def zero_ifnet_def BSTGW_MAX_NETIF_NAPI_def vnic_weight_def)
    let ?n2 = "n1\<lparr>n_disable := False\<rparr>" and ?nd = "(nd st)\<lparr>ifs := (ifs (nd st))(?p \<mapsto> d1)\<rparr>"
    have en: "napi_enable n1 = Inr ?n2" using na(3,4) by (simp add: napi_enable_def)
    have di: "ifnet_dev_init ok = Some (zero_ifnet\<lparr>egress_queue := netif_tx_stop_queue empty_queue\<rparr>)"
      using True by (simp add: ifnet_dev_init_def)
    note run = vnic_attach_def [of pf dlst st, unfolded Let_def h prod.case di option.case d0_def [symmetric] na(1) bind_res_simps en]
    show thesis
    proof (cases "next_if_idx (nd st) \<le> MAX_IFNET_IDS")
      case False
      then have "ifnet_dev_register ?p ?nd = Inr (?nd, -1)" by (simp add: ifnet_dev_register_def)
      then show thesis using that c False by (simp add: run init_outcome_def)
    next
      case idx: True
      have "rev (netdev_list (nd st)) ! i \<noteq> ?p" if "i < length (netdev_list (nd st))" for i
        using assms(2) nth_mem [of i "rev (netdev_list (nd st))"] that by auto
      then have wf: "netdev_wf ?nd" using assms(1) by (simp add: netdev_wf_def)
      then obtain n' where n': "ifnet_dev_register ?p ?nd = Inr (n', 0)" "netdev_wf n'" "netdev_list n' = ?p # netdev_list (nd st)"
        "next_if_idx n' = next_if_idx (nd st) + 1" "ifs n' = (ifs ?nd)(?p \<mapsto> d1\<lparr>ifnet_idx := next_if_idx (nd st)\<rparr>)"
        using register_wf [of ?nd ?p d1] assms(2) idx by auto
      have nm: "ifnet_getbyname (Some ''NW'') n' = Some ?p"
        using na(2) by (simp add: ifnet_getbyname_def n'(3,5) has_name_def)
      show thesis
        using that c idx n' nm na(5) dangling [OF n'(2,3)] built_inv [of "heap_junk pf" ?n2 "va_map pf" "nw_world pf"]
        by (cases "emu_add_region pf = 0") (simp_all add: run vnic_build_eq init_outcome_def)
    qed
  qed
qed

lemma vmmio_outcome:
  assumes "only_clk st0 st" "vnic_init_vmmio pf st = (res, st')"
  shows "only_clk st0 st'"
  using assms only_clk_alloc [OF assms(1)] by (auto simp: vnic_init_vmmio_def split: prod.splits if_splits)



end
