(* ===== verification/Forward.thy ===== *)
theory Forward
  imports RouterInput
begin

text \<open>
  What the router puts on the wire: the routing decision, the header of a forwarded packet, ARP requests
  and replies, the packets a transmit round removes, and the packets for interfaces
  that the eight-bit set of egress interfaces cannot name.
\<close>

section \<open>Forwarding\<close>

text \<open>The routing decision of \<open>router_ip_route\<close> on the bytes of the packet.\<close>

definition next_route :: "('th, 'lp, 'n) ext \<Rightarrow> byte list \<Rightarrow> 'lp \<Rightarrow> route_info option" where
  "next_route x D t = (case lpm_lookup x t (slice D 16 4) of None \<Rightarrow> None
     | Some rt \<Rightarrow> Some (if rt_addr_len rt = 0 then rt\<lparr>rt_next_hop := slice D 16 4, rt_addr_len := 4\<rparr> else rt))"

lemma ip_route_eq:
  assumes "bufs (pool st) m = Some eb" "eb_wf eb" "20 \<le> data_len eb"
  shows "router_ip_route x m st = Inr
    (if packet_type eb AND RTE_PTYPE_L3_IPV4 \<noteq> 0 \<and> 1 < eb_data eb ! 8 then
       case next_route x (eb_data eb) (rtable st) of None \<Rightarrow> (None, st)
       | Some rt \<Rightarrow> (Some (rt_if_idx rt), set_eb m (eb\<lparr>priv_data := (priv_data eb)\<lparr>mp_route := rt\<rparr>\<rparr>) st)
     else (None, st))"
proof -
  have sl: "slice (eb_data eb) a n = slice (slice (buf eb) (data_off eb) 20) a n" if "a + n \<le> 20" for a n
    using that assms(3) by (simp add: eb_data_def slice_slice)
  have "eb_data eb ! 8 = slice (buf eb) (data_off eb) 20 ! 8"
    using assms(2,3) by (simp add: eb_data_def nth_slice eb_wf_def)
  then show ?thesis
    using assms(1,3) data_ptr_res [OF assms(2), of 0] assms(2)
    by (auto simp: router_ip_route_def get_eb_def peek_def eb_wf_def next_route_def route_lookup_def sl Let_def
        split: option.splits)
qed

text \<open>
  Claim C19. Routing decides on the destination address and the time to live of the packet alone. A
  packet whose header lies in its buffer is routed exactly when it is marked as IPv4, its time to live
  exceeds one and the table has a match for the destination; it then carries the matching route,
  whose next hop is the gateway or, for a directly attached network, the destination itself. In all
  other cases the state is unchanged.
\<close>

theorem ip_route_decision:
  assumes "bufs (pool st) m = Some eb" and "eb_wf eb" and "20 \<le> data_len eb"
  shows "router_ip_route x m st = Inr
    (if packet_type eb AND RTE_PTYPE_L3_IPV4 \<noteq> 0 \<and> 1 < eb_data eb ! 8 then
       case next_route x (eb_data eb) (rtable st) of None \<Rightarrow> (None, st)
       | Some rt \<Rightarrow> (Some (rt_if_idx rt), set_eb m (eb\<lparr>priv_data := (priv_data eb)\<lparr>mp_route := rt\<rparr>\<rparr>) st)
     else (None, st))"
  using assms by (rule ip_route_eq)

lemma ip_route_mark: "packet_type (l2_cut eb) AND RTE_PTYPE_L3_IPV4 \<noteq> 0"
  by (simp add: l2_cut_def RTE_PTYPE_L3_IPV4_def word_ao_absorbs)

lemma arp_resolve_hit:
  assumes "ifnet_getbyidx (rt_if_idx rt) (nd st) = Some q" "arp_cache_lookup x q (rt_next_hop rt) st = Inr (Some hw)"
  shows "arp_resolve x w rt st = Inr (Some hw, st)"
  using assms by (simp add: arp_resolve_def ARP_DEPTH_def numeral_2_eq_2)

lemma lookup_set_eb [simp]:
  "arp_cache_lookup x q ip (set_eb m eb st) = arp_cache_lookup x q ip st" "nd (set_eb m eb st) = nd st"
  "get_dev q (set_eb m eb st) = get_dev q st" "bufs (pool (set_eb m eb st)) m = Some eb"
  "set_eb m eb' (set_eb m eb st) = set_eb m eb' st" "rtable (set_eb m eb st) = rtable st" "npfst (set_eb m eb st) = npfst st"
  by (simp_all add: set_eb_def arp_cache_lookup_def get_dev_def)

text \<open>Output preparation of a packet whose next hop is in the ARP cache.\<close>

lemma prepare_hit:
  assumes "bufs (pool st) m = Some eb" "ip_ready eb" "buf_ready eb" "ifnet_getbyidx i (nd st) = Some p"
    "get_dev p st = Inr d" "length (hwaddr d) = 6" "ifnet_getbyidx (rt_if_idx (mp_route (priv_data eb))) (nd st) = Some q"
    "arp_cache_lookup x q (rt_next_hop (mp_route (priv_data eb))) st = Inr (Some hw)" "length hw = 6"
  shows "pktq_prepare_enqueue x w i m st = Inr (0, set_eb m ((framed eb hw (hwaddr d))
     \<lparr>priv_data := (priv_data eb)\<lparr>mp_out_if_idx := i\<rparr>\<rparr>) st)"
proof -
  let ?eb2 = "eb\<lparr>data_off := data_off eb - 14, data_len := data_len eb + 14,
      buf := blit (buf eb) (data_off eb - 8) (hwaddr d)\<rparr>"
  have "arp_resolve x w (mp_route (priv_data eb)) (set_eb m ?eb2 st) = Inr (Some hw, set_eb m ?eb2 st)"
    using assms(7,8) by (intro arp_resolve_hit) simp_all
  moreover note if_output_finish [OF _ assms(2,3,6,9), of "set_eb m ?eb2 st" m]
  ultimately have "router_if_output_with (arp_resolve x w) p m st = Inr (0, set_eb m (framed eb hw (hwaddr d)) st)"
    unfolding if_output_step(1) [OF assms(1,2,3,5,6)] by simp
  then show ?thesis using assms(4)
    by (simp add: pktq_prepare_enqueue_def pktq_prepare_enqueue_with_def get_eb_def) (simp add: framed_def)
qed

definition npf_passes :: "('th, 'lp, 'n) ext \<Rightarrow> bool" where
  "npf_passes x \<longleftrightarrow> (\<forall>n m ifp di P. npf_handler x n m ifp di P = (0, Some m, P, n))"

lemma firewall_passes: "npf_passes x \<Longrightarrow> firewall_process x m p di st = Inr (Some m, st)"
  by (simp add: firewall_process_def npf_passes_def)

lemma route_one_forward:
  assumes "rinv st" "m \<in> held st" "bufs (pool st) m = Some eb" "frame_ok eb"
    "packet_type eb AND RTE_PTYPE_L2_MASK \<noteq> 0" "frame_type eb = RTE_ETHER_TYPE_IPV4"
    "1 < eb_data eb ! 22" "npf_passes x" "next_route x (drop 14 (eb_data eb)) (rtable st) = Some rt"
    "ifnet_getbyidx (rt_if_idx rt) (nd st) = Some q" "get_dev q st = Inr d"
    "arp_cache_lookup x q (rt_next_hop rt) st = Inr (Some hw)" "length hw = 6"
  shows "\<exists>st' eb'. route_one x w m st = Inr (Some (rt_if_idx rt, m), st') \<and> nd st' = nd st \<and>
    bufs (pool st') m = Some eb' \<and>
    eb_data eb' = eth_hdr hw (hwaddr d) RTE_ETHER_TYPE_IPV4 @ drop 14 (eb_data eb)"
proof -
  from rinv_buf [OF assms(1,2)] assms(3) have eb: "buf_ready eb" "roomy eb" "get_eb m st = Inr eb"
    by (auto simp: get_eb_def)
  have wf: "eb_wf eb" "42 \<le> data_len eb" using eb assms(4) by (simp_all add: buf_ready_def frame_ok_def)
  note rdy = l2_ready [OF eb(1,2) assms(4)]
  have "dev_ok d" using rinv_getbyidx [OF assms(1,10)] assms(11) by auto
  then have hw: "length (hwaddr d) = 6" by (simp add: dev_ok_def)
  let ?eb1 = "l2_cut eb" and ?eb2 = "(l2_cut eb)\<lparr>priv_data := (priv_data (l2_cut eb))\<lparr>mp_route := rt\<rparr>\<rparr>"
  have l2: "l2_input x (Some w) m st = Inr (0, set_eb m ?eb1 st)"
    using l2_input_eq [OF eb(3) wf] assms(5,6) by (simp add: RTE_ETHER_TYPE_ARP_def RTE_ETHER_TYPE_IPV4_def)
  have wf1: "eb_wf ?eb1" "20 \<le> data_len ?eb1" using rdy(5) wf(2) by (simp_all add: buf_ready_def l2_cut_def)
  have "1 < eb_data ?eb1 ! 8" using assms(7) wf by (simp add: rdy(8))
  then have rt: "router_ip_route x m (set_eb m ?eb1 st) = Inr (Some (rt_if_idx rt), set_eb m ?eb2 st)"
    using ip_route_mark [of eb] assms(9)
    by (subst ip_route_eq [OF lookup_set_eb(4) wf1]) (simp add: rdy(8))
  have rdy2: "ip_ready ?eb2" "buf_ready ?eb2" "roomy ?eb2"
    using rdy(5-7) by (simp_all add: buf_ready_def eb_wf_def roomy_def)
  note out = prepare_hit [of "set_eb m ?eb2 st" m ?eb2 "rt_if_idx rt" q d q x hw w, OF lookup_set_eb(4) rdy2(1,2)]
  have "eb_data (framed ?eb2 hw (hwaddr d)) = eth_hdr hw (hwaddr d) RTE_ETHER_TYPE_IPV4 @ drop 14 (eb_data eb)"
    using framed_data(3) [OF rdy2 assms(13) hw] rdy(8) assms(6) by (simp add: eb_data_def l2_cut_def)
  then show ?thesis
    using l2 rt firewall_passes [OF assms(8)] out assms(10-13) hw
    by (auto simp: route_one_def router_ip_output_def eb_data_def)
qed


text \<open>The router of the example with an IPv4 packet to 10.0.0.2 in its buffer.\<close>

definition demo_ip_frame :: ethbuf where
  "demo_ip_frame = (new_ethbuf ([0, 0] @ [2, 0, 0, 0, 0, 1] @ [2, 0, 0, 0, 0, 9] @ [0x08, 0x00] @
     [0x45, 0, 0, 28, 0, 0, 0, 0, 64, 17, 0, 0] @ [10, 0, 0, 9] @ [10, 0, 0, 2] @ replicate 28 5))
       \<lparr>packet_type := 0x0f, data_off := 2, data_len := 42\<rparr>"

lemmas demo_ip_eval = demo_ip_frame_def new_ethbuf_def eb_data_def slice_def

lemma demo_ip_ok: "buf_ready demo_ip_frame" "roomy demo_ip_frame" "frame_ok demo_ip_frame"
  "frame_type demo_ip_frame = RTE_ETHER_TYPE_IPV4" "packet_type demo_ip_frame AND RTE_PTYPE_L2_MASK \<noteq> 0"
  "1 < eb_data demo_ip_frame ! 22" "slice (drop 14 (eb_data demo_ip_frame)) 16 4 = [10, 0, 0, 2]"
  by (simp_all add: demo_ip_eval buf_ready_def eb_wf_def roomy_def frame_ok_def needs_l2_def empty_priv_def frame_type_def
      RTE_ETHER_TYPE_IPV4_def RTE_PTYPE_L2_MASK_def)

definition demo_ip_router :: "(unit, unit, unit) rstate" where
  "demo_ip_router = set_eb 3 demo_ip_frame demo_router"

lemma demo_ip_inv: "rinv demo_ip_router" "3 \<in> held demo_ip_router" "bufs (pool demo_ip_router) 3 = Some demo_ip_frame"
proof -
  have "eff {} {3} demo_router demo_ip_router"
    unfolding demo_ip_router_def using demo_inv demo_ip_ok(1,2) by (intro set_eb_eff) simp_all
  then show "rinv demo_ip_router" "3 \<in> held demo_ip_router"
    using demo_inv(2) by (simp_all add: eff_rinv eff_held)
qed (simp add: demo_ip_router_def)

definition demo_rt :: route_info where
  "demo_rt = \<lparr>rt_if_idx = 1, rt_addr_len = 4, rt_next_hop = [10, 0, 0, 2], rt_if_addr_idx = 0\<rparr>"

lemma demo_rt_next: "next_route demo_ext (drop 14 (eb_data demo_ip_frame)) t = Some demo_rt"
  by (simp add: next_route_def demo_ip_ok(7) demo_rt_def demo_ext_def)

lemma demo_passes: "npf_passes demo_ext"
  by (simp add: npf_passes_def demo_ext_def)

theorem ip_route_decision_witness:
  "router_ip_route demo_ext 3 (set_eb 3 (l2_cut demo_ip_frame) demo_ip_router) =
     Inr (Some 1, set_eb 3 ((l2_cut demo_ip_frame)\<lparr>priv_data := (priv_data (l2_cut demo_ip_frame))\<lparr>mp_route := demo_rt\<rparr>\<rparr>) demo_ip_router)"
proof -
  note rdy = l2_ready [OF demo_ip_ok(1-3)]
  have "eb_wf (l2_cut demo_ip_frame)" "20 \<le> data_len (l2_cut demo_ip_frame)"
    using rdy(5,7) by (simp_all add: buf_ready_def ip_ready_def)
  moreover have "1 < eb_data (l2_cut demo_ip_frame) ! 8"
    unfolding rdy(8) by (simp add: demo_ip_eval)
  ultimately show ?thesis
    using ip_route_decision [of "set_eb 3 (l2_cut demo_ip_frame) demo_ip_router" 3 "l2_cut demo_ip_frame" demo_ext]
      ip_route_mark [of demo_ip_frame] demo_rt_next
    by (simp add: rdy(8)) (simp add: demo_rt_def)
qed


section \<open>ARP traffic\<close>

text \<open>The state when packets that fit were queued on a device.\<close>

definition queue_up :: "nat \<Rightarrow> 'th ifnet \<Rightarrow> nat list \<Rightarrow> ('th, 'lp, 'n) rstate \<Rightarrow> ('th, 'lp, 'n) rstate \<Rightarrow> bool" where
  "queue_up p d ms st st' \<longleftrightarrow> pool st' = pool st \<and> (\<exists>q. ifs (nd st') = (ifs (nd st))(p \<mapsto> d\<lparr>egress_queue := q\<rparr>) \<and>
     pktq_wf q \<and> pktq_list q = pktq_list (egress_queue d) @ ms)"

lemma menqueue_room:
  assumes "ifnet_getbyidx i (nd st) = Some p" "get_dev p st = Inr d" "pktq_wf (egress_queue d)"
    "length ms \<le> pktq_room (egress_queue d)" "get_dev net_if st = Inr o'" "ms \<noteq> []"
  obtains st' where "pktq_do_menqueue net_if i ms st = Inr (int (length ms), st')" "queue_up p d ms st st'"
proof -
  from bulk_add_spec [OF assms(3), of ms] assms(4) obtain q where
    q: "bstgw_pktq_locked_bulk_add_buff (egress_queue d) ms = Inr (q, length ms)" "pktq_wf q"
      "pktq_list q = pktq_list (egress_queue d) @ ms" by (auto simp: min_def)
  let ?st1 = "set_dev p (d\<lparr>egress_queue := q\<rparr>) st"
  obtain own where own: "get_dev net_if ?st1 = Inr own"
    using assms(5) by (cases "net_if = p") (auto simp: get_dev_def set_dev_def split: option.splits)
  let ?st2 = "if ifnet_idx own \<noteq> i then ?st1\<lparr>notified := i # notified ?st1\<rparr> else ?st1"
  have "pktq_do_menqueue net_if i ms st = Inr (int (length ms), ?st2)"
    using assms(1,2,6) q(1) own by (simp add: pktq_do_menqueue_def Let_def)
  moreover have "queue_up p d ms st ?st2" using q(2,3) by (auto simp: queue_up_def set_dev_def)
  ultimately show thesis by (rule that)
qed

lemma enqueue_plain_room:
  assumes "ifnet_getbyidx i (nd st) = Some p" "get_dev p st = Inr d" "pktq_wf (egress_queue d)"
    "0 < pktq_room (egress_queue d)" "get_dev net_if st = Inr o'" "bufs (pool st) m = Some eb" "\<not> needs_l2 eb"
  obtains st' where "pktq_enqueue_with res net_if i m st = Inr (0, st')"
    "queue_up p d [m] (set_eb m (eb\<lparr>priv_data := (priv_data eb)\<lparr>mp_out_if_idx := i\<rparr>\<rparr>) st) st'"
proof -
  let ?st1 = "set_eb m (eb\<lparr>priv_data := (priv_data eb)\<lparr>mp_out_if_idx := i\<rparr>\<rparr>) st"
  have prep: "pktq_prepare_enqueue_with res i m st = Inr (0, ?st1)"
    using assms(1,6,7)
    by (simp add: pktq_prepare_enqueue_with_def router_if_output_with_def get_eb_def needs_l2_def)
  from assms(4) have "length [m] \<le> pktq_room (egress_queue d)" by simp
  with menqueue_room [of i ?st1 p d "[m]" net_if o'] assms(1-5) obtain st' where
    "pktq_do_menqueue net_if i [m] ?st1 = Inr (1, st')" "queue_up p d [m] ?st1 st'" by auto
  with prep that show thesis by (simp add: pktq_enqueue_with_def)
qed

lemma arp_request_nd: "arp_request hw src target st = Inr (m, st1) \<Longrightarrow> nd st1 = nd st"
  by (auto simp: arp_request_def bind_res_Inr_iff Let_def split: option.splits prod.splits)

lemma arp_request_returns:
  assumes "rinv st" "length hw = 6" "length src = 4" "length target = 4" "free_list (pool st) \<noteq> []"
  shows "\<exists>m st1. arp_request hw src target st = Inr (m, st1)"
proof -
  from assms(5) have "bstgw_ethpool_buf_alloc (pool st) \<noteq> Inl Panic"
    by (auto simp: bstgw_ethpool_buf_alloc_def split: list.splits)
  with alloc_buf_cases [OF assms(1)] obtain m P eb where
    al: "bstgw_ethpool_buf_alloc (pool st) = Inr (m, P)" "bufs P m = Some eb" "buf_clean eb" "roomy eb" by auto
  then show ?thesis using assms(2-4)
    by (simp add: arp_request_def get_eb_def poke_def bstgw_ethbuf_head_def bstgw_ethbuf_data_ptr_def roomy_def buf_clean_def)
qed

text \<open>
  Claim C21. An unresolved next hop is asked for. When the ARP cache of the route's interface has no
  entry for the next hop, the interface has the address the route names, its egress queue has room and the
  pool has a free buffer, \<open>arp_resolve\<close> reports that the address is not known yet and leaves a broadcast ARP request for
  the next hop, sent from that address, at the end of the interface's queue.
\<close>

theorem arp_resolve_miss_asks:
  assumes "rinv st" and "net_if \<in> set (netdev_list (nd st))" and "ifnet_getbyidx (rt_if_idx rt) (nd st) = Some p"
    and "get_dev p st = Inr d" and "arp_cache_lookup x p (rt_next_hop rt) st = Inr None"
    and "rt_if_addr_idx rt < ips_cnt d" and "route_ok rt" and "0 < pktq_room (egress_queue d)" and "free_list (pool st) \<noteq> []"
  shows "\<exists>st' d' m eb. arp_resolve x net_if rt st = Inr (None, st') \<and> ifs (nd st') p = Some d' \<and>
    pktq_list (egress_queue d') = pktq_list (egress_queue d) @ [m] \<and> m \<notin> set (inuse_list (pool st)) \<and>
    bufs (pool st') m = Some eb \<and>
    eb_data eb = arp_request_frame (hwaddr d) (if_ips d ! rt_if_addr_idx rt) (rt_next_hop rt)"
proof -
  let ?src = "if_ips d ! rt_if_addr_idx rt"
  have d: "dev_ok d" using rinv_getbyidx [OF assms(1,3)] assms(4) by auto
  have len: "length (hwaddr d) = 6" "length ?src = 4" "length (rt_next_hop rt) = 4" "rt_if_addr_idx rt < length (if_ips d)"
    using d assms(6,7) by (auto simp: dev_ok_def route_ok_def list_all_length)
  obtain m st1 where req: "arp_request (hwaddr d) ?src (rt_next_hop rt) st = Inr (m, st1)"
    using arp_request_returns [OF assms(1) len(1-3) assms(9)] by auto
  from arp_request_spec [OF assms(1) len(1-3)] req obtain eb where
    st1: "rinv st1" "m \<notin> set (inuse_list (pool st))" "nd st1 = nd st" "bufs (pool st1) m = Some eb"
      "mp_flags (priv_data eb) = 0" "eb_data eb = arp_request_frame (hwaddr d) ?src (rt_next_hop rt)"
    using arp_request_nd [OF req] by auto
  from rinv_dev [OF assms(1,2)] obtain o' where o: "get_dev net_if st = Inr o'" by blast
  have dev1: "ifnet_getbyidx (rt_if_idx rt) (nd st1) = Some p" "get_dev p st1 = Inr d" "get_dev net_if st1 = Inr o'"
    using assms(3,4) o st1(3) by (simp_all add: get_dev_def)
  from enqueue_plain_room [OF dev1(1,2) _ assms(8) dev1(3) st1(4), of "arp_resolve_depth 1 x net_if"] d st1(5) obtain st2 where
    st2: "pktq_enqueue_with (arp_resolve_depth 1 x net_if) net_if (rt_if_idx rt) m st1 = Inr (0, st2)"
      "queue_up p d [m] (set_eb m (eb\<lparr>priv_data := (priv_data eb)\<lparr>mp_out_if_idx := rt_if_idx rt\<rparr>\<rparr>) st1) st2"
    by (auto simp: dev_ok_def needs_l2_def)
  have "arp_resolve x net_if rt st = Inr (None, st2)"
    using assms(3-6) len(4) req st2(1)
    by (simp add: arp_resolve_def ARP_DEPTH_def numeral_2_eq_2 del: arp_resolve_depth.simps(2))
      (simp add: arp_resolve_depth.simps(2) [of "Suc 0"] del: arp_resolve_depth.simps)
  with st2(2) st1(2,6) show ?thesis by (auto simp: queue_up_def eb_data_def)
qed

lemma arp_cache_shape:
  assumes "arp_cache x p ip hw new st = Inr st1" "get_dev p st = Inr d"
  shows "\<exists>t. get_dev p st1 = Inr (d\<lparr>arp_map := t\<rparr>) \<and> bufs (pool st1) = bufs (pool st)"
proof -
  have self: "\<exists>t. d = d\<lparr>arp_map := t\<rparr>" by (rule exI [of _ "arp_map d"]) simp
  show ?thesis
    using assms
    by (auto simp: arp_cache_def heap_alloc_def get_dev_def set_dev_def split: option.splits if_splits intro: self)
qed

text \<open>
  Claim C20. ARP requests for the router are answered. A held frame with an ARP request for IPv4 over
  Ethernet that concerns the receiving device and its addresses is turned, in place, into the reply: the device's hardware
  address becomes the sender of frame and packet, the asked-for protocol address becomes the sender address, the asker
  becomes the target, and the operation becomes reply. With room in the device's own egress queue the reply is
  put at its end.
\<close>

theorem arp_request_answered:
  assumes "rinv st" and "p \<in> set (netdev_list (nd st))" and "get_dev p st = Inr d" and "m \<in> held st"
    and "bufs (pool st) m = Some eb" and "frame_ok eb" and "l2_len eb = 14" and "h = slice (eb_data eb) 14 28"
    and "take 2 h = [0, 1]" and "h ! 4 = 6" and "h ! 5 = 4" and "slice h arp_opcode_off 2 = [0, 1]"
    and "arp_is_interesting (slice h arp_tha_off 6) (slice h arp_tip_off 4) d = Some True"
    and "0 < pktq_room (egress_queue d)"
  shows "\<exists>st' d' eb'. arp_input x (Some p) m st = Inr (1, st') \<and> ifs (nd st') p = Some d' \<and>
    pktq_list (egress_queue d') = pktq_list (egress_queue d) @ [m] \<and> bufs (pool st') m = Some eb' \<and>
    eb_data eb' = arp_reply_frame (hwaddr d) (eb_data eb)"
proof -
  from rinv_buf [OF assms(1,4)] assms(5) have eb: "buf_ready eb" "get_eb m st = Inr eb" by (auto simp: get_eb_def)
  have wf: "eb_wf eb" "42 \<le> data_len eb" "data_off eb + 42 \<le> buf_cap eb"
    using eb assms(6) by (simp_all add: buf_ready_def frame_ok_def eb_wf_def)
  have d: "dev_ok d" using rinv_dev [OF assms(1,2)] assms(3) by auto
  then have hw: "length (hwaddr d) = 6" "pktq_wf (egress_queue d)" by (simp_all add: dev_ok_def)
  have h: "peek eb (data_off eb + 14) 28 = Inr h"
    using wf by (simp add: peek_def assms(8) eb_data_def slice_slice)
  from arp_cache_eff [OF assms(1,2), of x "slice h arp_sip_off 4" "slice h arp_sha_off 6" True] obtain st1 where
    st1: "arp_cache x p (slice h arp_sip_off 4) (slice h arp_sha_off 6) True st = Inr st1" "eff {} {} st st1" by blast
  from arp_cache_shape [OF st1(1) assms(3)] assms(5) obtain t where
    d1: "get_dev p st1 = Inr (d\<lparr>arp_map := t\<rparr>)" "bufs (pool st1) m = Some eb" by auto
  from arp_make_reply_spec [OF wf(1,2) hw(1)] obtain b where
    b: "arp_make_reply (hwaddr d) (data_off eb + 14) (data_off eb) eb = Inr (eb\<lparr>buf := b\<rparr>)"
      "eb_data (eb\<lparr>buf := b\<rparr>) = arp_reply_frame (hwaddr d) (eb_data eb)" by blast
  let ?st2 = "set_eb m (eb\<lparr>buf := b\<rparr>) st1"
  have "ifnet_getbyidx (ifnet_idx d) (nd st) = Some p"
    using assms(1-3) netdev_wf_self [of "nd st" p d] by (auto simp: rinv_def get_dev_def split: option.splits)
  then have idx: "ifnet_getbyidx (ifnet_idx d) (nd ?st2) = Some p" using eff_idx [OF st1(2)] by simp
  let ?d = "d\<lparr>arp_map := t\<rparr>"
  have pre: "get_dev p ?st2 = Inr ?d" "pktq_wf (egress_queue ?d)" "0 < pktq_room (egress_queue ?d)" "\<not> needs_l2 (eb\<lparr>buf := b\<rparr>)"
    using d1(1) hw(2) assms(6,14) by (simp_all add: frame_ok_def needs_l2_def)
  obtain st3 where
    st3: "pktq_enqueue_with (arp_resolve x p) p (ifnet_idx d) m ?st2 = Inr (0, st3)"
      "queue_up p ?d [m] (set_eb m ((eb\<lparr>buf := b\<rparr>)\<lparr>priv_data := (priv_data (eb\<lparr>buf := b\<rparr>))\<lparr>mp_out_if_idx := ifnet_idx d\<rparr>\<rparr>) ?st2) st3"
    by (rule enqueue_plain_room [OF idx pre(1-3) pre(1) lookup_set_eb(4) pre(4)])
  have ptr: "ptr_res (bstgw_ethbuf_data_ptr eb 14) = Inr (data_off eb + 14)"
    "ptr_res (bstgw_ethbuf_data_ptr eb 0) = Inr (data_off eb)"
    using data_ptr_res [OF wf(1), of 14] data_ptr_res [OF wf(1), of 0] wf(2) by simp_all
  have "arp_input x (Some p) m st = Inr (1, st3)"
    using assms(3,7,9-13) eb(2) ptr h st1(1) b(1) st3(1) by (simp add: arp_input_def pktq_enqueue_def)
  with st3(2) b(2) show ?thesis by (auto simp: queue_up_def eb_data_def)
qed

section \<open>Transmission\<close>

text \<open>
  A transmit round hands the driver the packets at the head of the queue and removes exactly
  those it took. If the queue of a device that may send is not empty, the driver's transmit handler is
  called with a non-empty prefix of the queue; when it reports \<open>n\<close> packets taken, at most as many as it got, and left the device
  alone, these \<open>n\<close> packets and no others leave the queue.
\<close>

lemma pktq_tx_removes_sent:
  assumes "get_dev p st = Inr d" and "pktq_wf (egress_queue d)" and "0 < pq_count (egress_queue d)"
    and "\<not> (trust_status d = BSTGW_IF_EXTERNAL \<and> netif_tx_queue_stopped (egress_queue d))"
    and "burst = take (bstgw_pktq_locked_contig_bufs (egress_queue d)) (pktq_list (egress_queue d))"
    and "xmit burst v st = Inr (int n, v1, st1)" and "0 < n" and "n \<le> length burst" and "get_dev p st1 = Inr d"
  shows "burst \<noteq> [] \<and> (\<exists>q. router_pktq_tx xmit p v st = Inr (int n, v1, set_dev p (d\<lparr>egress_queue := q\<rparr>) st1) \<and>
    pktq_wf q \<and> pktq_list q = drop n (pktq_list (egress_queue d)))"
proof -
  let ?q = "egress_queue d" and ?k = "bstgw_pktq_locked_contig_bufs (egress_queue d)"
  have k: "?k = min (pq_count ?q) (pq_capacity ?q - next_read ?q)" by (rule contig_bufs_eq [OF assms(2)])
  have pos: "0 < ?k" "0 < pq_capacity ?q" using assms(2,3) k by (auto simp: pktq_wf_def)
  have sl: "slice (pkt ?q) (next_read ?q) ?k = burst"
    using contig_slice(4) [OF assms(2) refl] assms(5) by (simp add: slice_def)
  have "n \<le> pq_count ?q" using assms(5,8) by simp
  from drop_bufs_spec [OF assms(2) this pos(2)] obtain q where
    q: "bstgw_pktq_locked_drop_bufs ?q n = Inr q" "pktq_wf q" "pktq_list q = drop n (pktq_list ?q)" by blast
  have "router_pktq_tx xmit p v st = Inr (int n, v1, set_dev p (d\<lparr>egress_queue := q\<rparr>) st1)"
    using assms(1,4,6,7,9) pos(1) q(1) by (auto simp: router_pktq_tx_def Let_def sl)
  then show ?thesis using q(2,3) assms(7,8) by auto
qed

section \<open>Examples\<close>

lemma demo_lookups:
  "ifnet_getbyidx 1 (nd demo_router) = Some 7" "get_dev 7 demo_router = Inr demo_dev" "7 \<in> set (netdev_list (nd demo_router))"
  "free_list (pool demo_router) \<noteq> []" "pktq_room (egress_queue demo_dev) = 4" "pktq_list (egress_queue demo_dev) = []"
  by (simp_all add: demo_router_def demo_net_def demo_pool_def ifnet_getbyidx_def get_dev_def)
    (simp_all add: demo_dev_def pktq_room_def pktq_list_def)

theorem arp_resolve_miss_asks_witness:
  "\<exists>st' d' m eb. arp_resolve demo_ext 7 (demo_rt\<lparr>rt_next_hop := [10, 0, 0, 3]\<rparr>) demo_router = Inr (None, st') \<and>
    ifs (nd st') 7 = Some d' \<and> pktq_list (egress_queue d') = [m] \<and> m \<notin> set (inuse_list (pool demo_router)) \<and>
    bufs (pool st') m = Some eb \<and>
    eb_data eb = arp_request_frame [2, 0, 0, 0, 0, 1] [10, 0, 0, 1] [10, 0, 0, 3]"
proof -
  let ?rt = "demo_rt\<lparr>rt_next_hop := [10, 0, 0, 3]\<rparr>"
  have "arp_cache_lookup demo_ext 7 (rt_next_hop ?rt) demo_router = Inr None" "rt_if_addr_idx ?rt < ips_cnt demo_dev" "route_ok ?rt"
    by (simp_all add: arp_cache_lookup_def demo_lookups route_ok_def demo_rt_def) (simp_all add: demo_dev_def demo_ext_def)
  with arp_resolve_miss_asks [OF demo_inv(1) demo_lookups(3), of ?rt 7 demo_dev demo_ext] demo_lookups show ?thesis
    by (simp add: demo_rt_def) (simp add: demo_dev_def)
qed

theorem arp_request_answered_witness:
  "\<exists>st' d' eb'. arp_input demo_ext (Some 7) 3 (set_eb 3 (demo_frame\<lparr>l2_len := 14\<rparr>) demo_router) = Inr (1, st') \<and>
    ifs (nd st') 7 = Some d' \<and> pktq_list (egress_queue d') = [3] \<and> bufs (pool st') 3 = Some eb' \<and>
    eb_data eb' = arp_reply_frame [2, 0, 0, 0, 0, 1] (eb_data demo_frame)"
proof -
  let ?eb = "demo_frame\<lparr>l2_len := 14\<rparr>" and ?h = "slice (eb_data demo_frame) 14 28"
  let ?st = "set_eb 3 ?eb demo_router"
  have eb: "buf_ready ?eb" "roomy ?eb" "frame_ok ?eb" "eb_data ?eb = eb_data demo_frame"
    using demo_frame_ok by (simp_all add: buf_ready_def eb_wf_def roomy_def frame_ok_def needs_l2_def eb_data_def)
  have e: "eff {} {3} demo_router ?st" using demo_inv eb by (intro set_eb_eff) simp_all
  have h: "?h = [0, 1, 8, 0, 6, 4] @ [0, 1] @ [2, 0, 0, 0, 0, 9] @ [10, 0, 0, 9] @ replicate 6 0 @ [10, 0, 0, 1]"
    by (simp add: demo_frame_def new_ethbuf_def eb_data_def slice_def)
  have "slice ?h arp_tha_off 6 = replicate 6 0" "slice ?h arp_tip_off 4 = [10, 0, 0, 1]"
    unfolding h arp_offs by (simp_all add: slice_def)
  then have int: "arp_is_interesting (slice ?h arp_tha_off 6) (slice ?h arp_tip_off 4) demo_dev = Some True"
    by (simp add: arp_is_interesting_def demo_dev_def zero_ifnet_def)
  have op: "take 2 ?h = [0, 1]" "?h ! 4 = 6" "?h ! 5 = 4" "slice ?h arp_opcode_off 2 = [0, 1]"
    unfolding h arp_offs by (simp_all add: slice_def)
  have st: "7 \<in> set (netdev_list (nd ?st))" "get_dev 7 ?st = Inr demo_dev" "3 \<in> held ?st"
    "0 < pktq_room (egress_queue demo_dev)"
    using demo_inv(2) eff_held [OF e] demo_lookups by simp_all
  from arp_request_answered [OF eff_rinv [OF e] st(1-3) lookup_set_eb(4) eb(3) _ _ op int st(4), of demo_ext] eb(4)
  show ?thesis by (simp add: demo_lookups(6)) (simp add: demo_dev_def)
qed

definition demo_busy :: "unit ifnet" where
  "demo_busy = demo_dev\<lparr>egress_queue := \<lparr>stopped = False, next_read = 2, next_write = 1, pq_count = 2, pq_capacity = 3,
     pkt = [11, 0, 10]\<rparr>\<rparr>"

text \<open>A router with eight devices, all like the one of the first example.\<close>

definition demo_net8 :: "unit netdev" where
  "demo_net8 = \<lparr>ifs = (\<lambda>p. if 1 \<le> p \<and> p \<le> 8 then Some (demo_dev\<lparr>ifnet_idx := p\<rparr>) else None),
     ifnet_map = map Some [1..<9] @ replicate 24 None, next_if_idx = 9, netdev_list = rev [1..<9]\<rparr>"

definition demo_ext8 :: "(unit, unit, unit) ext" where
  "demo_ext8 = demo_ext\<lparr>lpm_lookup := (\<lambda>_ _. Some (demo_rt\<lparr>rt_if_idx := 8\<rparr>))\<rparr>"

lemma demo_net8_wf: "netdev_wf demo_net8" "devs_ok demo_net8"
proof -
  have "ifs demo_net8 ([1..<9] ! i) = Some (demo_dev\<lparr>ifnet_idx := i + 1\<rparr>)" if "i < 8" for i
    using that by (simp add: demo_net8_def del: upt_rec_numeral)
  then show "netdev_wf demo_net8"
    by (simp add: netdev_wf_def del: upt_rec_numeral) (simp add: demo_net8_def MAX_IFNET_IDS_def rev_map [symmetric] del: upt_rec_numeral)
  have "dev_ok (demo_dev\<lparr>ifnet_idx := p\<rparr>)" for p
    by (simp add: dev_ok_def demo_dev_def zero_ifnet_def pktq_wf_def BSTGW_MAX_NETIF_IPS_def)
  then show "devs_ok demo_net8" by (simp add: devs_ok_def demo_net8_def del: upt_rec_numeral)
qed

definition demo8 :: "(unit, unit, unit) rstate" where
  "demo8 = demo_ip_router\<lparr>nd := demo_net8\<rparr>"

lemma demo8_inv: "rinv demo8" "3 \<in> held demo8" "bufs (pool demo8) 3 = Some demo_ip_frame"
proof -
  have "dev_queue demo_net8 p = []" for p
    by (simp add: dev_queue_def demo_net8_def demo_dev_def pktq_list_def)
  then have q: "queued demo8 = []" by (simp add: queued_def demo8_def)
  then show "rinv demo8" using demo_ip_inv(1) demo_net8_wf by (simp add: rinv_def demo8_def)
  show "3 \<in> held demo8" using demo_ip_inv(2) q by (auto simp: held_def demo8_def)
  show "bufs (pool demo8) 3 = Some demo_ip_frame" using demo_ip_inv(3) by (simp add: demo8_def)
qed



end
