(* ===== verification/Cstring.thy ===== *)
theory Cstring
  imports Prelude
begin

text \<open>
  The string functions the router's configuration needs, from the C library in the sources
  (\<open>external/newlib/src\<close>). A pointer to characters is the rest of its block from that position on, so a read
  behind the block is a fault; \<open>NUL\<close> is the terminator. \<open>long\<close> has 32 bits. The functions are compared with
  what they are to compute: the clamped value of a numeral, the four numbers of a dotted quad, the fields
  of a line.
\<close>

unbundle bit_operations_syntax

section \<open>Characters\<close>

abbreviation NUL :: char where "NUL \<equiv> CHR 0x00"

definition code :: "char \<Rightarrow> nat" where
  "code c = of_char c"

definition isspace :: "char \<Rightarrow> bool" where
  "isspace c \<longleftrightarrow> code c = 32 \<or> 9 \<le> code c \<and> code c \<le> 13"

definition tolower :: "char \<Rightarrow> int" where
  "tolower c = (if 65 \<le> code c \<and> code c \<le> 90 then int (code c) + 32 else int (code c))"

definition dec_digit :: "char \<Rightarrow> nat option" where
  "dec_digit c = (if 48 \<le> code c \<and> code c \<le> 57 then Some (code c - 48) else None)"

definition digit_of :: "char \<Rightarrow> nat option" where
  "digit_of c = (let k = code c in if 48 \<le> k \<and> k \<le> 57 then Some (k - 48) else if 65 \<le> k \<and> k \<le> 90 then Some (k - 55)
     else if 97 \<le> k \<and> k \<le> 122 then Some (k - 87) else None)"

lemma code_chars [simp]: "code NUL = 0" "code (CHR ''-'') = 45" "code (CHR ''+'') = 43" "code (CHR ''0'') = 48" "code (CHR ''x'') = 120"
  "code (CHR ''X'') = 88" "code (CHR ''.'') = 46" "code (CHR '':'') = 58"
  by (simp_all add: code_def)

lemma code_inject: "code c = code d \<longleftrightarrow> c = d"
  by (simp add: code_def)

section \<open>strtol\<close>

definition LONG_MAX :: nat where "LONG_MAX = 2 ^ 31 - 1"
definition LONG_MIN_ABS :: nat where "LONG_MIN_ABS = 2 ^ 31"

fun skip_space :: "string \<Rightarrow> (char \<times> string) res" where
  "skip_space [] = Inl Out_of_bounds"
| "skip_space (c # s) = (if isspace c then skip_space s else Inr (c, s))"

definition next_char :: "string \<Rightarrow> (char \<times> string) res" where
  "next_char s = (case s of [] \<Rightarrow> Inl Out_of_bounds | c # s' \<Rightarrow> Inr (c, s'))"

text \<open>
  The digits. \<open>acc\<close> is an unsigned long; \<open>any\<close> is negative after an overflow. The result has the rest of the string behind
  the character that ended the loop.
\<close>

fun strtol_loop :: "nat \<Rightarrow> nat \<Rightarrow> nat \<Rightarrow> char \<Rightarrow> string \<Rightarrow> nat \<Rightarrow> int \<Rightarrow> (nat \<times> int \<times> string) res" where
  "strtol_loop base cutoff cutlim c s acc any =
     (case digit_of c of None \<Rightarrow> Inr (acc, any, s)
      | Some d \<Rightarrow>
          if d \<ge> base then Inr (acc, any, s)
          else (case s of [] \<Rightarrow> Inl Out_of_bounds
            | c' # s' \<Rightarrow>
                if any < 0 \<or> acc > cutoff \<or> acc = cutoff \<and> d > cutlim
                then strtol_loop base cutoff cutlim c' s' acc (-1)
                else strtol_loop base cutoff cutlim c' s' ((acc * base + d) mod 2 ^ 32) 1))"

declare strtol_loop.simps [simp del]

definition to_long :: "nat \<Rightarrow> int" where
  "to_long acc = (if acc < 2 ^ 31 then int acc else int acc - 2 ^ 32)"

text \<open>The value and, as an offset, what is stored through \<open>endptr\<close>; nothing is stored for an invalid base.\<close>

definition strtol :: "string \<Rightarrow> int \<Rightarrow> (int \<times> nat option) res" where
  "strtol nptr base0 =
     (if base0 < 0 \<or> base0 = 1 \<or> base0 > 36 then Inr (0, None)
      else
        bind_res (skip_space nptr) (\<lambda>(c0, s0).
        bind_res (if c0 = CHR ''-'' \<or> c0 = CHR ''+'' then next_char s0 else Inr (c0, s0)) (\<lambda>(c1, s1).
        bind_res (if (base0 = 0 \<or> base0 = 16) \<and> c1 = CHR ''0'' then bind_res (next_char s1) (\<lambda>(x, s2). Inr (x = CHR ''x'' \<or> x = CHR ''X'', s2))
                  else Inr (False, s1)) (\<lambda>(hex, s2).
        bind_res (if hex then next_char s2 else Inr (c1, s1)) (\<lambda>(c, s).
        let neg = (c0 = CHR ''-'');
            base = (if hex then 16 else if base0 = 0 then (if c = CHR ''0'' then 8 else 10) else nat base0);
            limit = (if neg then LONG_MIN_ABS else LONG_MAX) in
        bind_res (strtol_loop base (limit div base) (limit mod base) c s 0 0) (\<lambda>(acc, any, rest).
          let acc' = (if any < 0 then (if neg then LONG_MIN_ABS else LONG_MAX) else if neg then (2 ^ 32 - acc) mod 2 ^ 32 else acc) in
          Inr (to_long acc', Some (if any \<noteq> 0 then length nptr - length rest - 1 else 0))))))))"

definition atoi :: "string \<Rightarrow> int res" where
  "atoi s = bind_res (strtol s 10) (\<lambda>(v, _). Inr v)"

text \<open>The number a list of digits denotes, and the range of \<open>long\<close>.\<close>

definition number :: "nat \<Rightarrow> nat \<Rightarrow> nat list \<Rightarrow> nat" where
  "number base = foldl (\<lambda>a d. a * base + d)"

definition digits :: "nat \<Rightarrow> string \<Rightarrow> nat list \<Rightarrow> bool" where
  "digits base cs ds \<longleftrightarrow> map digit_of cs = map Some ds \<and> list_all (\<lambda>d. d < base) ds"

definition no_digit :: "nat \<Rightarrow> char \<Rightarrow> bool" where
  "no_digit base c \<longleftrightarrow> (case digit_of c of None \<Rightarrow> True | Some d \<Rightarrow> base \<le> d)"

definition clamp :: "int \<Rightarrow> int" where
  "clamp x = max (- (2 ^ 31)) (min (2 ^ 31 - 1) x)"

lemma number_simps [simp]: "number b a [] = a" "number b a (d # ds) = number b (a * b + d) ds"
  by (simp_all add: number_def)

lemma number_ge: "1 \<le> b \<Longrightarrow> a \<le> number b a ds"
proof (induction ds arbitrary: a)
  case (Cons d ds)
  have "a \<le> a * b + d" using Cons.prems by (metis le_add1 mult.right_neutral mult_le_mono2 order_trans)
  then show ?case using Cons.IH [OF Cons.prems, of "a * b + d"] by simp
qed simp

lemma cutoff_iff:
  assumes "d < (b :: nat)"
  shows "(acc > L div b \<or> acc = L div b \<and> d > L mod b) \<longleftrightarrow> L < acc * b + d"
proof -
  have L: "L = L div b * b + L mod b" by simp
  have m: "L mod b < b" using assms by simp
  consider "acc < L div b" | "acc = L div b" | "acc > L div b" by linarith
  then show ?thesis
  proof cases
    case 1
    then have "(acc + 1) * b \<le> L div b * b" by (intro mult_le_mono1) simp
    then have "acc * b + b \<le> L div b * b" by simp
    then show ?thesis using 1 L assms by linarith
  next
    case 2
    then show ?thesis using L by (metis add_less_cancel_left less_irrefl)
  next
    case 3
    then have "(L div b + 1) * b \<le> acc * b" by (intro mult_le_mono1) simp
    then have "L div b * b + b \<le> acc * b" by simp
    then show ?thesis using 3 L m by linarith
  qed
qed

lemma strtol_loop_step:
  assumes "digit_of c = Some d" "d < base"
  shows "strtol_loop base cutoff cutlim c (c' # s') acc any =
    (if any < 0 \<or> acc > cutoff \<or> acc = cutoff \<and> d > cutlim then strtol_loop base cutoff cutlim c' s' acc (-1)
     else strtol_loop base cutoff cutlim c' s' ((acc * base + d) mod 2 ^ 32) 1)"
  using assms by (subst strtol_loop.simps) simp

lemma strtol_loop_over:
  assumes "digits base cs ds" "no_digit base c0" "c # s = cs @ c0 # rest"
  shows "strtol_loop base cutoff cutlim c s acc (-1) = Inr (acc, -1, rest)"
  using assms
proof (induction cs arbitrary: c s ds)
  case Nil
  then show ?case by (auto simp: strtol_loop.simps no_digit_def split: option.splits)
next
  case (Cons c1 cs)
  from Cons.prems(1) obtain d ds' where ds: "ds = d # ds'" "digit_of c1 = Some d" "d < base" "digits base cs ds'"
    by (auto simp: digits_def Cons_eq_map_conv)
  obtain c' s' where s: "s = c' # s'" "c' # s' = cs @ c0 # rest" using Cons.prems(3) by (cases cs) auto
  have "strtol_loop base cutoff cutlim c' s' acc (-1) = Inr (acc, -1, rest)"
    by (rule Cons.IH [OF ds(4) Cons.prems(2) s(2)])
  moreover have "c = c1" using Cons.prems(3) by simp
  ultimately show ?case unfolding s(1) by (simp add: strtol_loop_step [OF ds(2,3)])
qed

lemma strtol_loop_value:
  assumes "digits base cs ds" "no_digit base c0" "c # s = cs @ c0 # rest" "1 \<le> base" "L < 2 ^ 32" "acc \<le> L" "0 \<le> any"
  shows "\<exists>acc'. strtol_loop base (L div base) (L mod base) c s acc any =
    Inr (if number base acc ds \<le> L then (number base acc ds, if ds = [] then any else 1, rest) else (acc', -1, rest))"
  using assms
proof (induction cs arbitrary: c s ds acc any)
  case Nil
  then show ?case by (auto simp: strtol_loop.simps no_digit_def digits_def split: option.splits)
next
  case (Cons c1 cs)
  from Cons.prems(1) obtain d ds' where ds: "ds = d # ds'" "digit_of c1 = Some d" "d < base" "digits base cs ds'"
    by (auto simp: digits_def Cons_eq_map_conv)
  obtain c' s' where s: "s = c' # s'" "c' # s' = cs @ c0 # rest" using Cons.prems(3) by (cases cs) auto
  let ?a = "acc * base + d"
  have step: "strtol_loop base (L div base) (L mod base) c s acc any =
    (if L < ?a then strtol_loop base (L div base) (L mod base) c' s' acc (-1)
     else strtol_loop base (L div base) (L mod base) c' s' (?a mod 2 ^ 32) 1)"
    using Cons.prems(3,7) s(1) cutoff_iff [OF ds(3), of L acc] strtol_loop_step [OF ds(2,3), of "L div base" "L mod base" c' s' acc any] by simp
  show ?case
  proof (cases "L < ?a")
    case True
    moreover have "?a \<le> number base ?a ds'" by (rule number_ge [OF Cons.prems(4)])
    ultimately have "\<not> number base acc ds \<le> L" by (simp add: ds(1))
    then show ?thesis using True step strtol_loop_over [OF ds(4) Cons.prems(2) s(2)] by simp
  next
    case False
    then have m: "?a mod 2 ^ 32 = ?a" "?a \<le> L" using Cons.prems(5) by simp_all
    from Cons.IH [OF ds(4) Cons.prems(2) s(2) Cons.prems(4,5) m(2), of 1]
    show ?thesis using False step m(1) by (auto simp: ds(1) split: if_splits)
  qed
qed

lemma digit_no_space: "digit_of c = Some d \<Longrightarrow> \<not> isspace c \<and> c \<noteq> CHR ''-'' \<and> c \<noteq> CHR ''+''"
  by (auto simp: digit_of_def isspace_def Let_def split: if_splits)

lemma skip_space_spec: "list_all isspace ws \<Longrightarrow> \<not> isspace c \<Longrightarrow> skip_space (ws @ c # s) = Inr (c, s)"
  by (induction ws) auto

lemma to_long_neg: "k \<le> 2 ^ 31 \<Longrightarrow> to_long ((2 ^ 32 - k) mod 2 ^ 32) = - int k"
  by (cases "k = 0") (auto simp: to_long_def of_nat_diff)

text \<open>
  \<open>strtol\<close> on a numeral: blanks, an optional sign, digits of the base, and a character that is none.
  It returns the value of the numeral, or the nearest value of \<open>long\<close> when that is out of range, and stores
  the position behind the digits. Neither the overflow test by quotient and remainder nor the negation
  modulo \<open>2 ^ 32\<close> shows in the result.
\<close>

lemma strtol_value:
  assumes "list_all isspace ws" and "sign \<in> {'''', ''-'', ''+''}" and "2 \<le> base" and "base \<le> 36"
    and "digits base cs ds" and "ds \<noteq> []" and "no_digit base c0" and "\<not> (base = 16 \<and> cs = ''0'' \<and> c0 \<in> {CHR ''x'', CHR ''X''})"
  shows "strtol (ws @ sign @ cs @ c0 # rest) (int base) =
    Inr (clamp ((if sign = ''-'' then -1 else 1) * int (number base 0 ds)), Some (length ws + length sign + length cs))"
proof -
  obtain c1 cs' where cs: "cs = c1 # cs'" using assms(5,6) by (cases cs) (auto simp: digits_def)
  obtain d ds' where d: "ds = d # ds'" "digit_of c1 = Some d" using assms(5) cs by (auto simp: digits_def Cons_eq_map_conv)
  note c1 = digit_no_space [OF d(2)]
  let ?nptr = "ws @ sign @ cs @ c0 # rest" and ?s = "cs' @ c0 # rest"
  let ?c0 = "if sign = [] then c1 else hd sign"
  have sk: "skip_space ?nptr = Inr (?c0, if sign = [] then ?s else cs @ c0 # rest)"
    using assms(1,2) c1 skip_space_spec [OF assms(1), of c1 ?s] skip_space_spec [OF assms(1), of "CHR ''-''" "cs @ c0 # rest"]
      skip_space_spec [OF assms(1), of "CHR ''+''" "cs @ c0 # rest"]
    by (auto simp: cs isspace_def)
  have hd: "(if ?c0 = CHR ''-'' \<or> ?c0 = CHR ''+'' then next_char (if sign = [] then ?s else cs @ c0 # rest)
      else Inr (?c0, if sign = [] then ?s else cs @ c0 # rest)) = Inr (c1, ?s)"
    using assms(2) c1 by (auto simp: cs next_char_def)
  have hex: "(if (int base = 0 \<or> int base = 16) \<and> c1 = CHR ''0'' then bind_res (next_char ?s) (\<lambda>(x, s2). Inr (x = CHR ''x'' \<or> x = CHR ''X'', s2))
      else Inr (False, ?s)) = Inr (False, if (int base = 0 \<or> int base = 16) \<and> c1 = CHR ''0'' then tl ?s else ?s)"
    using assms(3,5,8) by (cases cs') (auto simp: cs next_char_def digits_def Cons_eq_map_conv digit_of_def Let_def split: if_splits)
  define neg where "neg \<longleftrightarrow> sign = ''-''"
  define L where "L = (if neg then LONG_MIN_ABS else LONG_MAX)"
  have n: "(?c0 = CHR ''-'') = neg" using assms(2) c1 by (auto simp: neg_def)
  have L: "L < 2 ^ 32" "int L = (if neg then 2 ^ 31 else 2 ^ 31 - 1)" by (simp_all add: L_def LONG_MIN_ABS_def LONG_MAX_def)
  let ?v = "number base 0 ds"
  obtain acc' where loop: "strtol_loop base (L div base) (L mod base) c1 ?s 0 0 = Inr (if ?v \<le> L then (?v, 1, rest) else (acc', -1, rest))"
    using strtol_loop_value [OF assms(5,7), of c1 ?s rest L 0 0] L(1) assms(3,6) by (auto simp: cs split: if_splits)
  have len: "length ?nptr - length rest - 1 = length ws + length sign + length cs" by simp
  have val: "to_long (if ?v \<le> L then (if neg then (2 ^ 32 - ?v) mod 2 ^ 32 else ?v) else L) = clamp ((if neg then -1 else 1) * int ?v)"
    using L to_long_neg [of ?v] by (cases neg) (auto simp: to_long_def clamp_def)
  have base: "nat (int base) = base" "\<not> (int base < 0 \<or> int base = 1 \<or> 36 < int base)" "int base \<noteq> 0" using assms(3,4) by auto
  have "strtol ?nptr (int base) = bind_res (strtol_loop base (L div base) (L mod base) c1 ?s 0 0) (\<lambda>(acc, any, rest').
      Inr (to_long (if any < 0 then L else if neg then (2 ^ 32 - acc) mod 2 ^ 32 else acc),
        Some (if any \<noteq> 0 then length ?nptr - length rest' - 1 else 0)))"
    unfolding strtol_def sk bind_res_simps prod.case
    unfolding hd bind_res_simps prod.case
    unfolding hex bind_res_simps prod.case
    unfolding Let_def n L_def [symmetric]
    by (simp only: base if_False if_True bind_res_simps prod.case)
  also have "\<dots> = Inr (to_long (if ?v \<le> L then (if neg then (2 ^ 32 - ?v) mod 2 ^ 32 else ?v) else L), Some (length ws + length sign + length cs))"
    unfolding loop bind_res_simps len [symmetric] by (cases "?v \<le> L") simp_all
  finally show ?thesis unfolding val unfolding neg_def .
qed

section \<open>inet\_pton\<close>

text \<open>
  The dotted quad: \<open>tmp\<close> is the array of four bytes, of which only the first is initialised, \<open>tp\<close> the index of the current
  one. \<open>None\<close> is the return value 0.
\<close>

fun pton4_loop :: "string \<Rightarrow> byte list \<Rightarrow> nat \<Rightarrow> bool \<Rightarrow> nat \<Rightarrow> byte list option res" where
  "pton4_loop [] tmp tp saw_digit octets = Inl Out_of_bounds"
| "pton4_loop (ch # src) tmp tp saw_digit octets =
     (if ch = NUL then Inr (if octets < 4 then None else Some tmp)
      else case dec_digit ch of
        Some d \<Rightarrow>
          if tp \<ge> length tmp then Inl Out_of_bounds
          else
            let new = unat (tmp ! tp) * 10 + d; tmp' = tmp[tp := of_nat new] in
            if new > 255 then Inr None
            else if saw_digit then pton4_loop src tmp' tp True octets
            else if octets + 1 > 4 then Inr None
            else pton4_loop src tmp' tp True (octets + 1)
      | None \<Rightarrow>
          if ch = CHR ''.'' \<and> saw_digit then
            (if octets = 4 then Inr None
             else if tp + 1 \<ge> length tmp then Inl Out_of_bounds
             else pton4_loop src (tmp[tp + 1 := 0]) (tp + 1) False octets)
          else Inr None)"

definition inet_pton4 :: "byte list \<Rightarrow> string \<Rightarrow> byte list \<Rightarrow> (int \<times> byte list) res" where
  "inet_pton4 junk src dst =
     bind_res (pton4_loop src (0 # junk) 0 False 0) (\<lambda>r. case r of None \<Rightarrow> Inr (0, dst) | Some tmp \<Rightarrow> Inr (1, tmp))"

definition xdigit :: "char \<Rightarrow> nat option" where
  "xdigit c = (case digit_of c of None \<Rightarrow> None | Some d \<Rightarrow> if d < 16 then Some d else None)"

record pton6 =
  p6_tmp :: "byte list"
  p6_tp :: nat
  p6_colonp :: "nat option"
  p6_saw :: bool
  p6_val :: nat

definition pton6_put :: "pton6 \<Rightarrow> pton6 res" where
  "pton6_put p = (let tp = p6_tp p in if tp + 1 \<ge> length (p6_tmp p) then Inl Out_of_bounds
     else Inr (p\<lparr>p6_tmp := (p6_tmp p)[tp := of_nat (p6_val p div 256), tp + 1 := of_nat (p6_val p)], p6_tp := tp + 2\<rparr>))"

fun pton6_loop :: "byte list \<Rightarrow> string \<Rightarrow> string \<Rightarrow> pton6 \<Rightarrow> pton6 option res" where
  "pton6_loop junk [] curtok p = Inl Out_of_bounds"
| "pton6_loop junk (ch # src) curtok p =
     (if ch = NUL then Inr (Some p)
      else case xdigit ch of
        Some d \<Rightarrow>
          let val = (16 * p6_val p) mod 2 ^ 32 + d in
          if val > 0xffff then Inr None else pton6_loop junk src curtok (p\<lparr>p6_val := val, p6_saw := True\<rparr>)
      | None \<Rightarrow>
          if ch = CHR '':'' then
            (if \<not> p6_saw p then
               (if p6_colonp p \<noteq> None then Inr None else pton6_loop junk src src (p\<lparr>p6_colonp := Some (p6_tp p)\<rparr>))
             else if p6_tp p + 2 > 16 then Inr None
             else bind_res (pton6_put p) (\<lambda>p'. pton6_loop junk src src (p'\<lparr>p6_saw := False, p6_val := 0\<rparr>)))
          else if ch = CHR ''.'' \<and> p6_tp p + 4 \<le> 16 then
            bind_res (inet_pton4 junk curtok (slice (p6_tmp p) (p6_tp p) 4)) (\<lambda>(r, q).
              if r > 0 then Inr (Some (p\<lparr>p6_tmp := blit (p6_tmp p) (p6_tp p) q, p6_tp := p6_tp p + 4, p6_saw := False\<rparr>)) else Inr None)
          else Inr None)"

text \<open>The shift behind \<open>::\<close>, from the last byte on.\<close>

fun shift_loop :: "nat \<Rightarrow> nat \<Rightarrow> nat \<Rightarrow> byte list \<Rightarrow> byte list res" where
  "shift_loop colonp n 0 tmp = Inr tmp"
| "shift_loop colonp n (Suc k) tmp =
     (let i = n - k in
      if 16 < i \<or> colonp + n < i \<or> length tmp \<le> 16 - i \<or> length tmp \<le> colonp + n - i then Inl Out_of_bounds
      else shift_loop colonp n k ((tmp[16 - i := tmp ! (colonp + n - i)])[colonp + n - i := 0]))"

definition pton6_finish :: "pton6 \<Rightarrow> byte list option res" where
  "pton6_finish p =
     (if p6_saw p \<and> p6_tp p + 2 > 16 then Inr None
      else bind_res (if p6_saw p then pton6_put p else Inr p) (\<lambda>p1.
        case p6_colonp p1 of
          None \<Rightarrow> Inr (if p6_tp p1 \<noteq> 16 then None else Some (p6_tmp p1))
        | Some colonp \<Rightarrow>
            let n = p6_tp p1 - colonp in
            bind_res (shift_loop colonp n n (p6_tmp p1)) (\<lambda>tmp. Inr (Some tmp))))"

definition inet_pton6 :: "byte list \<Rightarrow> string \<Rightarrow> byte list \<Rightarrow> (int \<times> byte list) res" where
  "inet_pton6 junk src dst =
     bind_res (next_char src) (\<lambda>(c, s).
     bind_res (if c = CHR '':'' then bind_res (next_char s) (\<lambda>(c', _). Inr (c' = CHR '':'', s)) else Inr (True, src)) (\<lambda>(ok, s1).
     if \<not> ok then Inr (0, dst)
     else bind_res (pton6_loop junk s1 s1 \<lparr>p6_tmp = replicate 16 0, p6_tp = 0, p6_colonp = None, p6_saw = False, p6_val = 0\<rparr>) (\<lambda>r.
       case r of None \<Rightarrow> Inr (0, dst)
       | Some p \<Rightarrow> bind_res (pton6_finish p) (\<lambda>t. case t of None \<Rightarrow> Inr (0, dst) | Some tmp \<Rightarrow> Inr (1, tmp)))))"

definition AF_INET :: int where "AF_INET = 2"
definition AF_INET6 :: int where "AF_INET6 = 10"

definition inet_pton :: "byte list \<Rightarrow> int \<Rightarrow> string \<Rightarrow> byte list \<Rightarrow> (int \<times> byte list) res" where
  "inet_pton junk af src dst = (if af = AF_INET then inet_pton4 junk src dst else if af = AF_INET6 then inet_pton6 junk src dst
     else Inr (-1, dst))"

text \<open>What a dotted quad is: four fields of decimal digits, each at most 255.\<close>

fun split_at :: "char \<Rightarrow> string \<Rightarrow> string list" where
  "split_at d [] = [[]]"
| "split_at d (c # s) = (if c = d then [] # split_at d s else (case split_at d s of p # ps \<Rightarrow> (c # p) # ps | [] \<Rightarrow> [[c]]))"

definition octet :: "string \<Rightarrow> nat option" where
  "octet p = (if p \<noteq> [] \<and> list_all (\<lambda>c. dec_digit c \<noteq> None) p \<and> number 10 0 (map (the \<circ> dec_digit) p) \<le> 255
     then Some (number 10 0 (map (the \<circ> dec_digit) p)) else None)"

definition dotted_quad :: "string \<Rightarrow> byte list option" where
  "dotted_quad s = (let ps = split_at (CHR ''.'') s in
     if length ps = 4 \<and> list_all (\<lambda>p. octet p \<noteq> None) ps then Some (map (\<lambda>p. of_nat (the (octet p))) ps) else None)"

lemma unat_byte: "unat (b :: byte) \<le> 255"
proof -
  have "unat b < 2 ^ LENGTH(8)" by (rule unsigned_less)
  then show ?thesis by simp
qed

lemma split_at_ne: "split_at d s \<noteq> []"
  by (induction s) (auto split: list.splits)

lemma dec_digit_dot: "dec_digit (CHR ''.'') = None"
  by (simp add: dec_digit_def)

definition dec_from :: "nat \<Rightarrow> string \<Rightarrow> nat" where
  "dec_from v p = number 10 v (map (the \<circ> dec_digit) p)"

definition quad_from :: "byte list \<Rightarrow> nat \<Rightarrow> bool \<Rightarrow> string \<Rightarrow> byte list option" where
  "quad_from done v saw s = (case split_at (CHR ''.'') s of [] \<Rightarrow> None | p # ps \<Rightarrow>
     if (saw \<or> p \<noteq> []) \<and> list_all (\<lambda>c. dec_digit c \<noteq> None) p \<and> dec_from v p \<le> 255 \<and>
        list_all (\<lambda>p. octet p \<noteq> None) ps \<and> length done + 1 + length ps = 4
     then Some (done @ of_nat (dec_from v p) # map (\<lambda>p. of_nat (the (octet p))) ps) else None)"

lemma quad_from_digit:
  assumes "dec_digit c = Some d"
  shows "quad_from done v saw (c # s) = (if v * 10 + d > 255 then None else quad_from done (v * 10 + d) True s)"
proof -
  obtain p ps where p: "split_at (CHR ''.'') s = p # ps" using split_at_ne by (metis list.exhaust)
  have "c \<noteq> CHR ''.''" using assms dec_digit_dot by auto
  moreover have "v * 10 + d \<le> dec_from (v * 10 + d) p" unfolding dec_from_def by (rule number_ge) simp
  moreover have "dec_from v (c # p) = dec_from (v * 10 + d) p" using assms by (simp add: dec_from_def)
  ultimately show ?thesis using p assms by (auto simp: quad_from_def)
qed

lemma quad_from_dot:
  "quad_from done v saw (CHR ''.'' # s) = (if saw \<and> v \<le> 255 \<and> length done < 3 then quad_from (done @ [of_nat v]) 0 False s else None)"
proof -
  obtain p ps where p: "split_at (CHR ''.'') s = p # ps" using split_at_ne by (metis list.exhaust)
  have "length done + 1 + length (p # ps) = 4 \<longleftrightarrow> length (done @ [of_nat v :: byte]) + 1 + length ps = 4" by simp
  then show ?thesis using p by (auto simp: quad_from_def octet_def dec_from_def)
qed

lemma quad_from_other:
  assumes "dec_digit c = None" "c \<noteq> CHR ''.''"
  shows "quad_from done v saw (c # s) = None"
  using assms split_at_ne [of "CHR ''.''" s] by (auto simp: quad_from_def split: list.splits)

lemma pton4_loop_quad:
  assumes "NUL \<notin> set s" "length tmp = 4" "tp \<le> 3" "saw \<or> unat (tmp ! tp) = 0"
  shows "pton4_loop (s @ NUL # rest) tmp tp saw (tp + of_bool saw) = Inr (quad_from (take tp tmp) (unat (tmp ! tp)) saw s)"
  using assms
proof (induction s arbitrary: tmp tp saw)
  case Nil
  have "unat (tmp ! tp) \<le> 255" by (rule unat_byte)
  moreover have "tp = 3 \<Longrightarrow> take 3 tmp @ [tmp ! 3] = tmp" using Nil.prems(2) take_Suc_conv_app_nth [of 3 tmp] by simp
  ultimately show ?case using Nil.prems by (auto simp: quad_from_def dec_from_def min_def)
next
  case (Cons c s)
  have c: "c \<noteq> NUL" "NUL \<notin> set s" using Cons.prems(1) by auto
  let ?v = "unat (tmp ! tp)"
  show ?case
  proof (cases "dec_digit c")
    case (Some d)
    let ?n = "?v * 10 + d"
    have u: "unat (of_nat ?n :: byte) = ?n" if "?n \<le> 255" using that by (simp only: unat_of_nat) simp
    have IH: "pton4_loop (s @ NUL # rest) (tmp[tp := of_nat ?n]) tp True (tp + 1) = Inr (quad_from (take tp tmp) ?n True s)" if "?n \<le> 255"
      using Cons.IH [OF c(2), of "tmp[tp := of_nat ?n]" tp True] Cons.prems(2,3) u [OF that] by (simp del: of_nat_add of_nat_mult)
    show ?thesis
      using Some c IH Cons.prems(2,3) by (auto simp: quad_from_digit [OF Some] Let_def not_le)
  next
    case None
    show ?thesis
    proof (cases "c = CHR ''.'' \<and> saw")
      case True
      have v: "?v \<le> 255" by (rule unat_byte)
      have IH: "pton4_loop (s @ NUL # rest) (tmp[tp + 1 := 0]) (tp + 1) False (tp + 1) =
          Inr (quad_from (take (tp + 1) (tmp[tp + 1 := 0])) 0 False s)" if "tp < 3"
        using Cons.IH [OF c(2), of "tmp[tp + 1 := 0]" "tp + 1" False] Cons.prems(2) that by simp
      have "take (tp + 1) (tmp[tp + 1 := 0]) = take tp tmp @ [tmp ! tp]" if "tp < 3"
        using that Cons.prems(2) by (simp add: take_Suc_conv_app_nth)
      then show ?thesis using True None c v IH Cons.prems(2,3) by (auto simp: quad_from_dot)
    next
      case False
      then have "quad_from (take tp tmp) ?v saw (c # s) = None"
        using quad_from_other [OF None] quad_from_dot by (cases "c = CHR ''.''") auto
      moreover have "pton4_loop ((c # s) @ NUL # rest) tmp tp saw (tp + of_bool saw) = Inr None" using False None c(1) by auto
      ultimately show ?thesis by simp
    qed
  qed
qed

lemma quad_from_start: "quad_from [] 0 False s = dotted_quad s"
proof -
  obtain p ps where p: "split_at (CHR ''.'') s = p # ps" using split_at_ne by (metis list.exhaust)
  then show ?thesis by (auto simp: quad_from_def dotted_quad_def dec_from_def octet_def Let_def)
qed

lemma pton4_ref:
  assumes "NUL \<notin> set s" and "length junk = 3"
  shows "inet_pton junk AF_INET (s @ NUL # rest) dst =
    Inr (case dotted_quad s of None \<Rightarrow> (0, dst) | Some q \<Rightarrow> (1, q))"
  using pton4_loop_quad [of s "0 # junk" 0 False rest] assms
  by (simp add: inet_pton_def inet_pton4_def quad_from_start split: option.splits)

text \<open>
  Claim C33. \<open>inet_pton\<close> for an IPv4 address accepts exactly the dotted quads: four fields of decimal digits, none
  above 255. It stores their values, leaves the destination alone otherwise, and stays inside its array of four
  bytes for every terminated string.
\<close>

theorem inet_pton4_exact:
  assumes "NUL \<notin> set s" and "length junk = 3"
  shows "inet_pton junk AF_INET (s @ NUL # rest) dst =
    Inr (case dotted_quad s of None \<Rightarrow> (0, dst) | Some q \<Rightarrow> (1, q))"
  using assms by (rule pton4_ref)

theorem inet_pton4_exact_witness:
  "inet_pton [7, 7, 7] AF_INET (''192.168.178.11'' @ [NUL]) [0, 0, 0, 0] = Inr (1, [192, 168, 178, 11]) \<and>
   dotted_quad ''192.168.178.256'' = None"
  using inet_pton4_exact [of "''192.168.178.11''" "[7, 7, 7]" "[]" "[0, 0, 0, 0]"]
  by (simp add: dotted_quad_def octet_def dec_digit_def code_def)

text \<open>The IPv6 parser: its array has sixteen bytes, and it stays inside it.\<close>

definition p6_ok :: "pton6 \<Rightarrow> bool" where
  "p6_ok p \<longleftrightarrow> length (p6_tmp p) = 16 \<and> p6_tp p \<le> 16 \<and> even (p6_tp p) \<and> p6_val p \<le> 0xffff \<and>
     (\<forall>k. p6_colonp p = Some k \<longrightarrow> k \<le> p6_tp p)"

lemma put_ok:
  assumes "p6_ok p" "p6_tp p + 2 \<le> 16"
  obtains p' where "pton6_put p = Inr p'" "p6_ok p'"
proof -
  let ?p = "p\<lparr>p6_tmp := (p6_tmp p)[p6_tp p := of_nat (p6_val p div 256), p6_tp p + 1 := of_nat (p6_val p)], p6_tp := p6_tp p + 2\<rparr>"
  have "pton6_put p = Inr ?p" using assms by (simp add: pton6_put_def p6_ok_def Let_def)
  moreover have "p6_ok ?p" using assms by (auto simp: p6_ok_def)
  ultimately show thesis by (rule that)
qed

lemma pton4_returns:
  assumes "NUL \<in> set s" "length junk = 3"
  obtains r q where "inet_pton4 junk s dst = Inr (r, q)" "r > 0 \<Longrightarrow> length q = 4"
proof -
  obtain u rest where s: "s = u @ NUL # rest" "NUL \<notin> set u" using split_list_first [OF assms(1)] by blast
  have "length q = 4" if "dotted_quad u = Some q" for q
    using that by (auto simp: dotted_quad_def Let_def split: if_splits)
  then show thesis
    using that pton4_loop_quad [OF s(2), of "0 # junk" 0 False rest] assms(2)
    by (cases "dotted_quad u") (auto simp: inet_pton4_def quad_from_start s(1))
qed

lemma pton6_loop_ok:
  assumes "NUL \<in> set s" "NUL \<in> set cur" "p6_ok p" "length junk = 3"
  shows "\<exists>r. pton6_loop junk s cur p = Inr r \<and> (\<forall>p'. r = Some p' \<longrightarrow> p6_ok p')"
  using assms
proof (induction s arbitrary: cur p)
  case (Cons c s)
  show ?case
  proof (cases "c = NUL")
    case True
    then show ?thesis using Cons.prems by simp
  next
    case False
    then have s: "NUL \<in> set s" using Cons.prems(1) by auto
    note IH = Cons.IH [OF s _ _ Cons.prems(4)]
    have ok: "p6_ok (p\<lparr>p6_val := k, p6_saw := True\<rparr>)" "p6_ok (p\<lparr>p6_colonp := Some (p6_tp p)\<rparr>)" if "k \<le> 0xffff" for k
      using Cons.prems(3) that by (simp_all add: p6_ok_def)
    obtain r q where r: "inet_pton4 junk cur (slice (p6_tmp p) (p6_tp p) 4) = Inr (r, q)" "r > 0 \<Longrightarrow> length q = 4"
      using pton4_returns [OF Cons.prems(2,4)] by blast
    have put: "\<exists>r. bind_res (pton6_put p) (\<lambda>p'. pton6_loop junk s s (p'\<lparr>p6_saw := False, p6_val := 0\<rparr>)) = Inr r \<and> (\<forall>p'. r = Some p' \<longrightarrow> p6_ok p')"
      if le: "p6_tp p + 2 \<le> 16"
    proof -
      obtain p' where p': "pton6_put p = Inr p'" "p6_ok p'" by (rule put_ok [OF Cons.prems(3) le])
      have "p6_ok (p'\<lparr>p6_saw := False, p6_val := 0\<rparr>)" using p'(2) by (simp add: p6_ok_def)
      from IH [OF s this] show ?thesis by (simp add: p'(1))
    qed
    have quad: "p6_ok (p\<lparr>p6_tmp := blit (p6_tmp p) (p6_tp p) q, p6_tp := p6_tp p + 4, p6_saw := False\<rparr>)"
      if "r > 0" "p6_tp p + 4 \<le> 16"
      using Cons.prems(3) r(2) that by (auto simp: p6_ok_def)
    show ?thesis
    proof (cases "xdigit c")
      case (Some d)
      then show ?thesis using False IH [OF Cons.prems(2) ok(1)] by (auto simp: Let_def not_less)
    next
      case None
      then show ?thesis using False IH [OF s ok(2)] put r quad by (auto simp: not_less)
    qed
  qed
qed simp

lemma shift_loop_ok:
  assumes "length tmp = 16" "colonp + n \<le> 16" "k \<le> n"
  shows "\<exists>t. shift_loop colonp n k tmp = Inr t \<and> length t = 16"
  using assms
proof (induction k arbitrary: tmp)
  case (Suc k)
  then show ?case using Suc.IH [of "(tmp[16 - (n - k) := tmp ! (colonp + n - (n - k))])[colonp + n - (n - k) := 0]"] by (auto simp: Let_def)
qed simp

lemma finish_ok:
  assumes "p6_ok p"
  shows "\<exists>r. pton6_finish p = Inr r \<and> (\<forall>t. r = Some t \<longrightarrow> length t = 16)"
proof -
  have fin: "\<exists>r. (case p6_colonp p1 of None \<Rightarrow> Inr (if p6_tp p1 \<noteq> 16 then None else Some (p6_tmp p1))
        | Some colonp \<Rightarrow> let n = p6_tp p1 - colonp in bind_res (shift_loop colonp n n (p6_tmp p1)) (\<lambda>tmp. Inr (Some tmp))) = Inr r \<and>
      (\<forall>t. r = Some t \<longrightarrow> length t = 16)" if "p6_ok p1" for p1
  proof (cases "p6_colonp p1")
    case None
    then show ?thesis using that by (auto simp: p6_ok_def)
  next
    case (Some k)
    then have "length (p6_tmp p1) = 16" "k + (p6_tp p1 - k) \<le> 16" using that by (auto simp: p6_ok_def)
    from shift_loop_ok [OF this order_refl] show ?thesis using Some by (auto simp: Let_def)
  qed
  show ?thesis
  proof (cases "p6_saw p")
    case True
    show ?thesis
    proof (cases "p6_tp p + 2 > 16")
      case False
      then obtain p' where "pton6_put p = Inr p'" "p6_ok p'" using put_ok [OF assms] by (auto simp: not_less)
      then show ?thesis using True False fin by (simp add: pton6_finish_def)
    qed (simp add: pton6_finish_def True)
  next
    case False
    then show ?thesis using fin [OF assms] by (simp add: pton6_finish_def)
  qed
qed

text \<open>
  Claim C34. For every terminated string and every address family \<open>inet_pton\<close> stays inside the string and inside its
  local arrays. The destination is written only when the result is 1, and then with an address of
  4 or 16 bytes; the result -1 is for an unknown family only, an invalid address gives 0.
\<close>

theorem inet_pton_safe:
  assumes "NUL \<in> set src" and "length junk = 3"
  shows "\<exists>r d. inet_pton junk af src dst = Inr (r, d) \<and> r \<in> {-1, 0, 1} \<and> (r = -1 \<longleftrightarrow> af \<notin> {AF_INET, AF_INET6}) \<and>
    (if r = 1 then length d = (if af = AF_INET then 4 else 16) else d = dst)"
proof -
  have four: "\<exists>r d. inet_pton4 junk src dst = Inr (r, d) \<and> r \<in> {0, 1} \<and> (if r = 1 then length d = 4 else d = dst)"
  proof -
    obtain r d where r: "inet_pton4 junk src dst = Inr (r, d)" "r > 0 \<Longrightarrow> length d = 4" using pton4_returns [OF assms] by blast
    then have "r = 0 \<and> d = dst \<or> r = 1" by (auto simp: inet_pton4_def bind_res_Inr_iff split: option.splits)
    then show ?thesis using r by auto
  qed
  have six: "\<exists>r d. inet_pton6 junk src dst = Inr (r, d) \<and> r \<in> {0, 1} \<and> (if r = 1 then length d = 16 else d = dst)"
  proof -
    let ?p = "\<lparr>p6_tmp = replicate 16 0, p6_tp = 0, p6_colonp = None, p6_saw = False, p6_val = 0\<rparr>"
    have p: "p6_ok ?p" by (simp add: p6_ok_def)
    have run: "\<exists>r d. bind_res (pton6_loop junk s s ?p) (\<lambda>r. case r of None \<Rightarrow> Inr (0, dst)
       | Some p \<Rightarrow> bind_res (pton6_finish p) (\<lambda>t. case t of None \<Rightarrow> Inr (0, dst) | Some tmp \<Rightarrow> Inr (1, tmp))) = Inr (r, d) \<and>
       r \<in> {0, 1 :: int} \<and> (if r = 1 then length d = 16 else d = dst)" if s: "NUL \<in> set s" for s
    proof -
      obtain r where r: "pton6_loop junk s s ?p = Inr r" "\<And>p'. r = Some p' \<Longrightarrow> p6_ok p'" using pton6_loop_ok [OF s s p assms(2)] by blast
      show ?thesis
      proof (cases r)
        case (Some p')
        then obtain t where "pton6_finish p' = Inr t" "\<And>u. t = Some u \<Longrightarrow> length u = 16" using finish_ok [OF r(2)] by blast
        then show ?thesis using r(1) Some by (cases t) auto
      qed (simp add: r(1))
    qed
    obtain c s where s: "src = c # s" using assms(1) by (cases src) auto
    show ?thesis
    proof (cases "c = CHR '':''")
      case True
      then have "NUL \<in> set s" using assms(1) s by simp
      moreover obtain c' s' where "s = c' # s'" using calculation by (cases s) auto
      ultimately show ?thesis using run [of s] True s
        by (cases "c' = CHR '':''") (simp_all add: inet_pton6_def next_char_def del: pton6_loop.simps)
    next
      case False
      then show ?thesis using run [OF assms(1)] s by (simp add: inet_pton6_def next_char_def del: pton6_loop.simps)
    qed
  qed
  show ?thesis
  proof (cases "af = AF_INET \<or> af = AF_INET6")
    case True
    then show ?thesis using four six by (fastforce simp: inet_pton_def AF_INET_def AF_INET6_def)
  qed (simp add: inet_pton_def)
qed

theorem inet_pton_safe_witness:
  "\<exists>r d. inet_pton [0, 0, 0] AF_INET6 (''fe80::1'' @ [NUL]) [] = Inr (r, d) \<and> r \<in> {0, 1} \<and> (r = 1 \<longrightarrow> length d = 16)"
  using inet_pton_safe [of "''fe80::1'' @ [NUL]" "[0, 0, 0]" AF_INET6 "[]"] by (auto simp: AF_INET6_def AF_INET_def split: if_splits)



section \<open>Copies and comparisons\<close>

text \<open>\<open>strcasecmp\<close>, with \<open>tolower\<close> of the C locale.\<close>

fun strcasecmp :: "string \<Rightarrow> string \<Rightarrow> int res" where
  "strcasecmp (c1 # s1) (c2 # s2) = (let d = tolower c1 - tolower c2 in if d \<noteq> 0 \<or> tolower c2 = 0 then Inr d else strcasecmp s1 s2)"
| "strcasecmp _ _ = Inl Out_of_bounds"

text \<open>
  \<open>stpncpy\<close>: four characters at a time while both pointers are aligned and the word has no null byte, then single
  characters, then padding. The result is what the destination holds and the offset of the returned pointer.
\<close>

definition word_at :: "char \<Rightarrow> char \<Rightarrow> char \<Rightarrow> char \<Rightarrow> u32" where
  "word_at c0 c1 c2 c3 = of_nat (code c0 + 256 * code c1 + 65536 * code c2 + 16777216 * code c3)"

definition DETECTNULL :: "u32 \<Rightarrow> u32" where
  "DETECTNULL x = (x - 0x01010101) AND NOT x AND 0x80808080"

fun stpncpy_words :: "string \<Rightarrow> nat \<Rightarrow> string \<Rightarrow> (string \<times> nat \<times> string) res" where
  "stpncpy_words src count dst =
     (if count < 4 then Inr (src, count, dst)
      else (case src of
          c0 # c1 # c2 # c3 # src' \<Rightarrow>
            if DETECTNULL (word_at c0 c1 c2 c3) \<noteq> 0 then Inr (src, count, dst)
            else stpncpy_words src' (count - 4) (dst @ [c0, c1, c2, c3])
        | _ \<Rightarrow> Inl Out_of_bounds))"

declare stpncpy_words.simps [simp del]

fun stpncpy_bytes :: "string \<Rightarrow> nat \<Rightarrow> string \<Rightarrow> (nat option \<times> nat \<times> string) res" where
  "stpncpy_bytes src 0 dst = Inr (None, 0, dst)"
| "stpncpy_bytes [] (Suc count) dst = Inl Out_of_bounds"
| "stpncpy_bytes (c # src) (Suc count) dst =
     (if c = NUL then Inr (Some (length dst), count, dst @ [c]) else stpncpy_bytes src count (dst @ [c]))"

definition stpncpy :: "bool \<Rightarrow> string \<Rightarrow> nat \<Rightarrow> (string \<times> nat) res" where
  "stpncpy aligned src count =
     bind_res (if aligned \<and> \<not> count < 4 then stpncpy_words src count [] else Inr (src, count, [])) (\<lambda>(src1, count1, dst1).
     bind_res (stpncpy_bytes src1 count1 dst1) (\<lambda>(ret, count2, dst2).
       let dst3 = dst2 @ replicate count2 NUL in
       Inr (dst3, case ret of Some r \<Rightarrow> r | None \<Rightarrow> length dst3)))"

lemma code_less: "code c < 256"
  by (simp add: code_def)

text \<open>A word with a null byte is always detected.\<close>

lemma and_bit_nonzero: "bit (x :: u32) n \<Longrightarrow> bit y n \<Longrightarrow> bit z n \<Longrightarrow> x AND y AND z \<noteq> 0"
  by (metis bit_0_eq bit_and_iff bot_apply bot_bool_def)

lemma bit_of_nat_32: "n < 32 \<Longrightarrow> bit (of_nat k :: u32) n = odd (k div 2 ^ n)"
  by (simp only: bit_of_nat_iff possible_bit_word bit_iff_odd [of k]) simp

lemma odd_div_pow: "L < 2 ^ (n + 1) \<Longrightarrow> odd ((L + 2 ^ (n + 1) * q) div 2 ^ n) = (2 ^ n \<le> (L :: nat))"
proof -
  assume L: "L < 2 ^ (n + 1)"
  have "(L + 2 ^ (n + 1) * q) div 2 ^ n = L div 2 ^ n + 2 * q" by (simp add: mult.assoc mult.commute [of 2] div_mult_self2)
  moreover have "L div 2 ^ n = (if 2 ^ n \<le> L then 1 else 0)" using L by (auto simp: div_nat_eqI)
  ultimately show ?thesis by simp
qed

lemma detect_null:
  assumes "NUL \<in> {c0, c1, c2, c3}"
  shows "DETECTNULL (word_at c0 c1 c2 c3) \<noteq> 0"
proof -
  let ?a = "code c0" and ?b = "code c1" and ?c = "code c2" and ?d = "code c3"
  let ?k = "?a + 256 * ?b + 65536 * ?c + 16777216 * ?d"
  have lt: "?a < 256" "?b < 256" "?c < 256" "?d < 256" by (rule code_less)+
  have sub: "word_at c0 c1 c2 c3 - 0x01010101 = of_nat (?k + 4278124287)"
  proof -
    have "(of_nat (?k + 4278124287) :: u32) = of_nat ?k + 4278124287" by simp
    also have "(4278124287 :: u32) = - 0x01010101" by simp
    finally show ?thesis by (simp add: word_at_def)
  qed
  have bits: "n \<in> {7, 15, 23, 31} \<Longrightarrow> bit (0x80808080 :: u32) n" for n
    by (auto simp: bit_numeral_rec)
  have go: "DETECTNULL (word_at c0 c1 c2 c3) \<noteq> 0"
    if "n \<in> {7, 15, 23, 31}" "?k + 4278124287 = L + 2 ^ (n + 1) * q" "2 ^ n \<le> L" "L < 2 ^ (n + 1)" "?k = L' + 2 ^ (n + 1) * q'" "L' < 2 ^ n"
    for n L q L' q'
  proof -
    have n: "n < 32" using that(1) by auto
    have "odd ((?k + 4278124287) div 2 ^ n)" using odd_div_pow [OF that(4), of q] that(2,3) by simp
    moreover have "even (?k div 2 ^ n)" using odd_div_pow [of L' n q'] that(5,6) by simp
    ultimately have "bit (of_nat (?k + 4278124287) :: u32) n" "\<not> bit (of_nat ?k :: u32) n" unfolding bit_of_nat_32 [OF n] by simp_all
    moreover have "bit (NOT w) n" if "\<not> bit w n" for w :: u32 using that n by (simp add: bit_not_iff)
    ultimately show ?thesis
      unfolding DETECTNULL_def sub unfolding word_at_def using bits [OF that(1)] by (intro and_bit_nonzero [of _ n])
  qed
  consider "?a = 0" | "?a > 0" "?b = 0" | "?a > 0" "?b > 0" "?c = 0" | "?a > 0" "?b > 0" "?c > 0" "?d = 0"
    using assms code_inject [of NUL] by fastforce
  then show ?thesis
  proof cases
    case 1 show ?thesis
      by (rule go [of 7 255 "?b + 256 * ?c + 65536 * ?d + 16711422" 0 "?b + 256 * ?c + 65536 * ?d"]) (use 1 lt in simp_all)
  next
    case 2 show ?thesis
      by (rule go [of 15 "?a + 65279" "?c + 256 * ?d + 65278" ?a "?c + 256 * ?d"]) (use 2 lt in simp_all)
  next
    case 3 show ?thesis
      by (rule go [of 23 "?a + 256 * ?b + 16711423" "?d + 254" "?a + 256 * ?b" ?d]) (use 3 lt in simp_all)
  next
    case 4 show ?thesis
      by (rule go [of 31 "?a + 256 * ?b + 65536 * ?c + 4278124287" 0 "?a + 256 * ?b + 65536 * ?c" 0]) (use 4 lt in simp_all)
  qed
qed

lemma stpncpy_bytes_spec:
  assumes "NUL \<notin> set s"
  shows "stpncpy_bytes (s @ NUL # pad) count dst =
    Inr (if count \<le> length s then (None, 0, dst @ take count s) else (Some (length dst + length s), count - length s - 1, dst @ s @ [NUL]))"
  using assms
proof (induction s arbitrary: count dst)
  case Nil
  then show ?case by (cases count) auto
next
  case (Cons c s)
  then show ?case by (cases count) auto
qed

lemma four_chars: "4 \<le> length t \<Longrightarrow> \<exists>c0 c1 c2 c3 r. t = c0 # c1 # c2 # c3 # r"
  by (auto simp: numeral_eq_Suc Suc_le_length_iff)

lemma stpncpy_words_spec:
  assumes "NUL \<notin> set s" "4 dvd length (s @ NUL # pad)"
  shows "\<exists>k. k \<le> length s \<and> k \<le> count \<and>
    stpncpy_words (s @ NUL # pad) count dst = Inr (drop k s @ NUL # pad, count - k, dst @ take k s)"
  using assms
proof (induction "s" arbitrary: count dst rule: length_induct)
  case (1 s)
  let ?stop = "\<exists>k. k \<le> length s \<and> k \<le> count \<and>
    stpncpy_words (s @ NUL # pad) count dst = Inr (drop k s @ NUL # pad, count - k, dst @ take k s)"
  have stop: ?stop if "stpncpy_words (s @ NUL # pad) count dst = Inr (s @ NUL # pad, count, dst)"
    using that by (intro exI [of _ 0]) simp
  show ?case
  proof (cases "count < 4")
    case True
    then show ?thesis using stop by (simp add: stpncpy_words.simps [of "s @ NUL # pad"])
  next
    case False
    have "length (s @ NUL # pad) \<ge> 4" using dvd_imp_le [OF "1.prems"(2)] by simp
    then obtain c0 c1 c2 c3 r where w: "s @ NUL # pad = c0 # c1 # c2 # c3 # r" using four_chars by blast
    have run: "stpncpy_words (s @ NUL # pad) count dst = (if DETECTNULL (word_at c0 c1 c2 c3) \<noteq> 0 then Inr (s @ NUL # pad, count, dst)
        else stpncpy_words r (count - 4) (dst @ [c0, c1, c2, c3]))"
      using False by (subst stpncpy_words.simps) (simp add: w)
    show ?thesis
    proof (cases "DETECTNULL (word_at c0 c1 c2 c3) = 0")
      case False
      then show ?thesis using stop run by simp
    next
      case True
      then have "NUL \<notin> {c0, c1, c2, c3}" using detect_null by blast
      then obtain s' where s': "s = c0 # c1 # c2 # c3 # s'" "r = s' @ NUL # pad"
        using w by (auto simp: append_eq_Cons_conv Cons_eq_append_conv)
      have "4 dvd length (s' @ NUL # pad)" using "1.prems"(2) s'(1) by simp presburger
      then obtain k where k: "k \<le> length s'" "k \<le> count - 4"
        "stpncpy_words (s' @ NUL # pad) (count - 4) (dst @ [c0, c1, c2, c3]) = Inr (drop k s' @ NUL # pad, count - 4 - k, (dst @ [c0, c1, c2, c3]) @ take k s')"
        using "1.IH" [rule_format, of s' "count - 4" "dst @ [c0, c1, c2, c3]"] "1.prems"(1) s'(1) by auto
      show ?thesis
        by (rule exI [of _ "Suc (Suc (Suc (Suc k)))"]) (use k True run \<open>\<not> count < 4\<close> s' in auto)
    qed
  qed
qed

text \<open>
  Claim C36. The word-wise \<open>stpncpy\<close> is the plain one: whether the pointers are aligned or not, the destination holds
  the first \<open>count\<close> characters of the string, padded with null characters, and the returned pointer is behind the
  characters copied. The test for a null byte in a word never misses one, so no word is copied too much.
\<close>

theorem stpncpy_words_exact:
  assumes "NUL \<notin> set s" and "4 dvd length (s @ NUL # pad)"
  shows "stpncpy aligned (s @ NUL # pad) count = Inr (take count s @ replicate (count - length s) NUL, min count (length s))"
proof -
  have fin: "bind_res (stpncpy_bytes (drop k s @ NUL # pad) (count - k) (take k s)) (\<lambda>(ret, count2, dst2).
       let dst3 = dst2 @ replicate count2 NUL in Inr (dst3, case ret of Some r \<Rightarrow> r | None \<Rightarrow> length dst3)) =
     Inr (take count s @ replicate (count - length s) NUL, min count (length s))" if "k \<le> length s" "k \<le> count" for k
  proof -
    have n: "NUL \<notin> set (drop k s)" using assms(1) by (meson in_set_dropD)
    have "take k s @ take (count - k) (drop k s) = take count s" using that by (metis le_add_diff_inverse take_add)
    moreover have "[NUL] @ replicate (count - length s - 1) NUL = replicate (count - length s) NUL" if "length s < count"
      using that by (cases "count - length s") auto
    ultimately show ?thesis using that unfolding stpncpy_bytes_spec [OF n]
      by (cases "count \<le> length s") (auto simp: Let_def)
  qed
  show ?thesis
  proof (cases "aligned \<and> \<not> count < 4")
    case True
    obtain k where "k \<le> length s" "k \<le> count" "stpncpy_words (s @ NUL # pad) count [] = Inr (drop k s @ NUL # pad, count - k, [] @ take k s)"
      using stpncpy_words_spec [OF assms] by blast
    then show ?thesis using True fin [of k] by (simp add: stpncpy_def)
  next
    case False
    then show ?thesis using fin [of 0] by (auto simp: stpncpy_def)
  qed
qed

theorem stpncpy_words_exact_witness:
  "stpncpy True (''imx6q-fec'' @ NUL # ''xx'') 16 = Inr (''imx6q-fec'' @ replicate 7 NUL, 9)"
proof -
  have "4 dvd length (''imx6q-fec'' @ NUL # ''xx'')" by (rule dvdI [of _ _ 3]) simp
  from stpncpy_words_exact [OF _ this, of True 16] show ?thesis by simp
qed

lemma tolower_0: "tolower c = 0 \<longleftrightarrow> c = NUL"
  using code_inject [of c NUL] by (auto simp: tolower_def)

lemma strcasecmp_spec:
  assumes "NUL \<notin> set s" "NUL \<notin> set t"
  shows "\<exists>d. strcasecmp (s @ NUL # r) (t @ NUL # q) = Inr d \<and> (d = 0 \<longleftrightarrow> map tolower s = map tolower t)"
  using assms
proof (induction s arbitrary: t)
  case Nil
  show ?case
  proof (cases t)
    case (Cons c t')
    then have "tolower NUL \<noteq> tolower c" using Nil.prems tolower_0 [of NUL] tolower_0 [of c] by auto
    then show ?thesis using Cons by (simp add: Let_def)
  qed (simp add: tolower_0)
next
  case IH: (Cons c s)
  show ?case
  proof (cases t)
    case Nil
    have "tolower c \<noteq> tolower NUL" using IH.prems tolower_0 [of NUL] tolower_0 [of c] by auto
    then show ?thesis using Nil by (simp add: Let_def)
  next
    case (Cons c' t')
    have t: "tolower c' \<noteq> 0" "NUL \<notin> set s" "NUL \<notin> set t'" using IH.prems Cons tolower_0 [of c'] by auto
    then obtain d where "strcasecmp (s @ NUL # r) (t' @ NUL # q) = Inr d" "d = 0 \<longleftrightarrow> map tolower s = map tolower t'"
      using IH.IH by blast
    then show ?thesis using Cons t(1) by (simp add: Let_def)
  qed
qed

section \<open>Splitting strings in place\<close>

text \<open>
  \<open>strpbrk\<close>, and \<open>__strtok_r\<close> with its two users. The string being split lies in a block \<open>b\<close>; pointers into it are
  positions, and the separator found is overwritten with the terminator.
\<close>

fun strpbrk :: "string \<Rightarrow> string \<Rightarrow> string option res" where
  "strpbrk [] s2 = Inl Out_of_bounds"
| "strpbrk (c # s1) s2 = (if c = NUL then Inr None else if c \<in> set s2 then Inr (Some (c # s1)) else strpbrk s1 s2)"

datatype strtok_first = At_delim nat | At_char char nat

fun strtok_cont :: "bool \<Rightarrow> string \<Rightarrow> nat \<Rightarrow> string \<Rightarrow> strtok_first res" where
  "strtok_cont skip delim i [] = Inl Out_of_bounds"
| "strtok_cont skip delim i (c # s) =
     (if c \<in> set delim then (if skip then strtok_cont skip delim (i + 1) s else Inr (At_delim i)) else Inr (At_char c i))"

fun strtok_scan :: "string \<Rightarrow> nat \<Rightarrow> string \<Rightarrow> (char \<times> nat) res" where
  "strtok_scan delim i [] = Inl Out_of_bounds"
| "strtok_scan delim i (c # s) = (if c \<in> set delim \<or> c = NUL then Inr (c, i) else strtok_scan delim (i + 1) s)"

definition strtok_gen :: "bool \<Rightarrow> nat option \<Rightarrow> string \<Rightarrow> nat option \<Rightarrow> string \<Rightarrow> (nat option \<times> nat option \<times> string) res" where
  "strtok_gen skip s delim lasts b =
     (case (if s = None then lasts else s) of None \<Rightarrow> Inr (None, lasts, b)
      | Some p \<Rightarrow>
          bind_res (strtok_cont skip delim p (drop p b)) (\<lambda>f. case f of
            At_delim i \<Rightarrow> Inr (Some i, Some (i + 1), b[i := NUL])
          | At_char c i \<Rightarrow>
              if c = NUL then Inr (None, None, b)
              else bind_res (strtok_scan delim (i + 1) (drop (i + 1) b)) (\<lambda>(c', j).
                if c' = NUL then Inr (Some i, None, b) else Inr (Some i, Some (j + 1), b[j := NUL]))))"

definition strtok_r :: "nat option \<Rightarrow> string \<Rightarrow> nat option \<Rightarrow> string \<Rightarrow> (nat option \<times> nat option \<times> string) res" where
  "strtok_r s delim lasts b = strtok_gen True s delim lasts b"

definition strsep :: "nat option \<Rightarrow> string \<Rightarrow> string \<Rightarrow> (nat option \<times> nat option \<times> string) res" where
  "strsep source_ptr delim b = strtok_gen False source_ptr delim source_ptr b"

lemma scan_spec:
  assumes "NUL \<notin> set u" "NUL \<notin> set delim"
  shows "strtok_scan delim i (u @ NUL # r) = Inr (let v = takeWhile (\<lambda>c. c \<notin> set delim) u in
    if v = u then (NUL, i + length u) else (u ! length v, i + length v))"
  using assms
proof (induction u arbitrary: i)
  case (Cons c u)
  then show ?case by (cases "c \<in> set delim") (auto simp: Let_def)
qed simp

lemma takeWhile_shorter: "takeWhile P u \<noteq> u \<Longrightarrow> length (takeWhile P u) < length u"
  by (metis length_takeWhile_le nless_le takeWhile_eq_take take_all_iff order_refl)

text \<open>The three cases of \<open>strsep\<close> on a terminated string \<open>u\<close> at position \<open>p\<close>.\<close>

lemma strsep_spec:
  assumes "drop p b = u @ NUL # r" "NUL \<notin> set u" "NUL \<notin> set delim"
  shows "strsep (Some p) delim b = Inr (if u = [] then (None, None, b) else
    let v = takeWhile (\<lambda>c. c \<notin> set delim) u in
    if v = u then (Some p, None, b) else (Some p, Some (p + length v + 1), b[p + length v := NUL]))"
proof (cases u)
  case Nil
  then show ?thesis using assms(1,3) by (simp add: strsep_def strtok_gen_def)
next
  case (Cons c u')
  have "drop (p + 1) b = drop 1 (drop p b)" by simp
  then have d: "drop (Suc p) b = u' @ NUL # r" using assms(1) Cons by simp
  have c: "c \<noteq> NUL" "NUL \<notin> set u'" using assms(2) Cons by auto
  let ?v = "takeWhile (\<lambda>c. c \<notin> set delim) u'"
  have nn: "u' ! length ?v \<noteq> NUL" if "?v \<noteq> u'"
    using takeWhile_shorter [OF that] c(2) by (metis nth_mem)
  show ?thesis
  proof (cases "c \<in> set delim")
    case True
    then show ?thesis using assms(1) Cons by (simp add: strsep_def strtok_gen_def Let_def)
  next
    case False
    then show ?thesis using assms(1) Cons c d nn scan_spec [OF c(2) assms(3), of "Suc p" r]
      by (cases "?v = u'") (simp_all add: strsep_def strtok_gen_def Let_def)
  qed
qed

text \<open>\<open>ffs\<close> is the builtin of the compiler: one plus the position of the lowest set bit.\<close>

definition ffs :: "u32 \<Rightarrow> nat" where
  "ffs i = (case filter (bit i) [0..<32] of [] \<Rightarrow> 0 | n # _ \<Rightarrow> n + 1)"

text \<open>The fields of a string: what \<open>strsep\<close> returns when it is called until it has no more.\<close>

function fields :: "string \<Rightarrow> string \<Rightarrow> string list" where
  "fields delim u = (if u = [] then [] else
     let v = takeWhile (\<lambda>c. c \<notin> set delim) u in if v = u then [v] else v # fields delim (drop (length v + 1) u))"
  by pat_completeness auto

termination fields
  by (relation "measure (\<lambda>(_, u). length u)") auto

declare fields.simps [simp del]

definition cstr :: "string \<Rightarrow> string" where
  "cstr s = takeWhile (\<lambda>c. c \<noteq> NUL) s"

text \<open>\<open>strsep\<close> keeps the length of the block and moves forward, so every loop over it ends.\<close>

lemma scan_bounds: "strtok_scan delim i s = Inr (c, j) \<Longrightarrow> i \<le> j \<and> j < i + length s"
  by (induction s arbitrary: i) (fastforce split: if_splits)+

lemma strsep_progress:
  assumes "strsep (Some p) delim b = Inr (Some t, q, b')"
  shows "t = p" "length b' = length b" "p < length b" "\<And>q'. q = Some q' \<Longrightarrow> p < q' \<and> q' \<le> length b"
proof -
  have "drop p b \<noteq> []" using assms by (auto simp: strsep_def strtok_gen_def)
  then show p: "p < length b" by simp
  then obtain c s where d: "drop p b = c # s" by (cases "drop p b") auto
  show "t = p" "length b' = length b" "\<And>q'. q = Some q' \<Longrightarrow> p < q' \<and> q' \<le> length b"
    using assms d p scan_bounds [of delim "Suc p" "drop (Suc p) b"]
    by (auto simp: strsep_def strtok_gen_def bind_res_Inr_iff split: if_splits)
qed

lemma strsep_length:
  assumes "strsep line delim b = Inr (t, q, b')"
  shows "length b' = length b"
proof (cases line)
  case None
  then show ?thesis using assms by (simp add: strsep_def strtok_gen_def)
next
  case (Some p)
  then obtain f where f: "strtok_cont False delim p (drop p b) = Inr f" using assms by (auto simp: strsep_def strtok_gen_def bind_res_Inr_iff)
  then show ?thesis using assms Some by (cases f) (auto simp: strsep_def strtok_gen_def bind_res_Inr_iff split: if_splits)
qed

end
