(* ===== verification/Config.thy ===== *)
theory Config
  imports Router Cstring
begin

text \<open>
  The configuration of the router (\<open>nettrug/pta/config.c\<close>): a text with one command per line, split in place
  into lines and words. \<open>lpm_strtobin\<close> of the longest-prefix-match library is a parameter: the address and the
  length of a prefix in CIDR notation. The value of uninitialised local memory is the parameter \<open>junk\<close>.
\<close>

section \<open>Words\<close>

definition blanks :: string where "blanks = [CHR 0x20, CHR 0x09]"
definition newline :: string where "newline = [CHR 0x0A]"

function str_tokenize_loop :: "nat \<Rightarrow> string \<Rightarrow> nat option \<Rightarrow> nat list \<Rightarrow> (nat list \<times> string) res" where
  "str_tokenize_loop n b line tokens =
     bind_res (strsep line blanks b) (\<lambda>(token, line', b').
       case token of None \<Rightarrow> Inr (tokens, b')
       | Some t \<Rightarrow>
           if length tokens \<ge> n then Inr (tokens, b')
           else bind_res (strpbrk (drop t b') blanks) (\<lambda>r.
             if blanks = [] \<or> r \<noteq> None then str_tokenize_loop n b' line' tokens
             else str_tokenize_loop n b' line' (tokens @ [t])))"
  by pat_completeness auto

lemma tokenize_decreases:
  assumes "strsep line blanks b = Inr (Some t, line', b')"
  shows "(case line' of None \<Rightarrow> 0 | Some p \<Rightarrow> Suc (length b' - p)) < (case line of None \<Rightarrow> 0 | Some p \<Rightarrow> Suc (length b - p))"
proof (cases line)
  case None
  then show ?thesis using assms by (simp add: strsep_def strtok_gen_def)
next
  case (Some p)
  then have "length b' = length b" "p < length b" "\<And>q. line' = Some q \<Longrightarrow> p < q \<and> q \<le> length b"
    using strsep_progress [of p blanks b t line' b'] assms by simp_all
  then show ?thesis using Some by (cases line') auto
qed

termination str_tokenize_loop
  by (relation "measure (\<lambda>(n, b, line, tokens). case line of None \<Rightarrow> 0 | Some p \<Rightarrow> Suc (length b - p))")
    (auto dest: tokenize_decreases)

declare str_tokenize_loop.simps [simp del]

definition str_tokenize :: "nat \<Rightarrow> nat \<Rightarrow> string \<Rightarrow> (nat list \<times> string) res" where
  "str_tokenize line n b = str_tokenize_loop n b (Some line) []"

lemma tokenize_length: "str_tokenize_loop n b line ts = Inr (ts', b') \<Longrightarrow> length b' = length b"
proof (induction n b line ts rule: str_tokenize_loop.induct)
  case (1 n b line tokens)
  show ?case
  proof (cases "strsep line blanks b")
    case (Inr y)
    obtain tok line' b1 where y: "y = (tok, line', b1)" by (cases y)
    have len: "length b1 = length b" using strsep_length Inr y by blast
    show ?thesis
      using "1.prems" "1.IH" [OF Inr [unfolded y] refl refl] Inr y len
      by (fastforce simp: str_tokenize_loop.simps [of n b line tokens] bind_res_Inr_iff blanks_def split: option.splits if_splits)
  qed (use "1.prems" in \<open>simp add: str_tokenize_loop.simps [of n b line tokens]\<close>)
qed

section \<open>Commands\<close>

text \<open>\<open>strtoul\<close> with base 10, as the C standard defines it for 32-bit \<open>unsigned long\<close>.\<close>

definition strtoul :: "string \<Rightarrow> nat" where
  "strtoul s =
     (let s1 = dropWhile isspace s; signed = (s1 \<noteq> [] \<and> hd s1 \<in> {CHR ''-'', CHR ''+''});
          neg = (s1 \<noteq> [] \<and> hd s1 = CHR ''-''); s2 = (if signed then tl s1 else s1);
          v = number 10 0 (map (the \<circ> dec_digit) (takeWhile (\<lambda>c. dec_digit c \<noteq> None) s2)) in
      if v \<ge> 2 ^ 32 then 2 ^ 32 - 1 else if neg then (2 ^ 32 - v) mod 2 ^ 32 else v)"

text \<open>The array of five token pointers: those not set are null.\<close>

definition token :: "string list \<Rightarrow> nat \<Rightarrow> string res" where
  "token ts k = (if k < length ts then Inr (ts ! k) else if k < 5 then Inl Null_deref else Inl Out_of_bounds)"

definition route_target :: "byte list \<Rightarrow> string list \<Rightarrow> nat \<Rightarrow> ('th, 'lp, 'n) rstate \<Rightarrow> route_info option res" where
  "route_target junk ts if_idx st =
     (let rt = \<lparr>rt_if_idx = if_idx, rt_addr_len = 0, rt_next_hop = replicate 4 0, rt_if_addr_idx = 0\<rparr> in
      if length ts < 4 then Inr (Some rt)
      else (case ifnet_getbyidx if_idx (nd st) of None \<Rightarrow> Inl Panic
        | Some p \<Rightarrow>
            bind_res (get_dev p st) (\<lambda>ifp.
            bind_res (token ts 3) (\<lambda>t3.
            let idx = strtoul t3; rt1 = rt\<lparr>rt_if_addr_idx := idx\<rparr> in
            if idx \<ge> ips_cnt ifp then Inr None
            else if length ts < 5 then Inr (Some rt1)
            else bind_res (token ts 4) (\<lambda>t4.
              bind_res (inet_pton junk AF_INET (t4 @ [NUL]) (rt_next_hop rt1)) (\<lambda>(r, a).
                Inr (if r = -1 then None else Some (rt1\<lparr>rt_next_hop := a, rt_addr_len := 4\<rparr>))))))))"

definition parse_route :: "('th, 'lp, 'n) ext \<Rightarrow> (string \<Rightarrow> (byte list \<times> nat) option) \<Rightarrow> byte list \<Rightarrow> string list \<Rightarrow>
    ('th, 'lp, 'n) rstate \<Rightarrow> (int \<times> ('th, 'lp, 'n) rstate) res" where
  "parse_route x lpm_strtobin junk ts st =
     (if length ts < 3 then Inr (-1, st)
      else bind_res (token ts 1) (\<lambda>t1.
        case lpm_strtobin t1 of None \<Rightarrow> Inr (-1, st)
        | Some (addr, plen) \<Rightarrow>
            bind_res (token ts 2) (\<lambda>t2.
            let if_idx = ifnet_nametoindex (Some t2) (nd st) in
            if if_idx = 0 then Inr (-1, st)
            else bind_res (route_target junk ts if_idx st) (\<lambda>rt.
              case rt of None \<Rightarrow> Inr (-1, st) | Some rt \<Rightarrow> Inr (route_add x addr plen rt st)))))"

definition parse_ifconfig :: "byte list \<Rightarrow> string list \<Rightarrow> ('th, 'lp, 'n) rstate \<Rightarrow> (int \<times> ('th, 'lp, 'n) rstate) res" where
  "parse_ifconfig junk ts st =
     (if length ts < 2 then Inr (-1, st)
      else bind_res (token ts 1) (\<lambda>t1.
        let if_idx = ifnet_nametoindex (Some t1) (nd st) in
        if if_idx = 0 then Inr (-1, st)
        else (case ifnet_getbyidx if_idx (nd st) of None \<Rightarrow> Inl Panic
          | Some p \<Rightarrow>
              bind_res (get_dev p st) (\<lambda>ifp.
              if ips_cnt ifp \<ge> BSTGW_MAX_NETIF_IPS then Inr (-1, st)
              else if ips_cnt ifp \<ge> length (if_ips ifp) then Inl Out_of_bounds
              else bind_res (token ts 2) (\<lambda>t2.
                bind_res (inet_pton junk AF_INET (t2 @ [NUL]) (if_ips ifp ! ips_cnt ifp)) (\<lambda>(r, a).
                  if r = -1 then Inr (-1, st)
                  else Inr (0, set_dev p (ifp\<lparr>if_ips := (if_ips ifp)[ips_cnt ifp := a], ips_cnt := ips_cnt ifp + 1\<rparr>) st)))))))"

definition parse_command :: "('th, 'lp, 'n) ext \<Rightarrow> (string \<Rightarrow> (byte list \<times> nat) option) \<Rightarrow> byte list \<Rightarrow> string list \<Rightarrow>
    ('th, 'lp, 'n) rstate \<Rightarrow> (int \<times> ('th, 'lp, 'n) rstate) res" where
  "parse_command x lpm_strtobin junk ts st =
     bind_res (token ts 0) (\<lambda>t0.
     bind_res (strcasecmp (t0 @ [NUL]) (''route'' @ [NUL])) (\<lambda>d.
     if d = 0 then parse_route x lpm_strtobin junk ts st
     else bind_res (strcasecmp (t0 @ [NUL]) (''ifconfig'' @ [NUL])) (\<lambda>d'.
       if d' = 0 then parse_ifconfig junk ts st else Inr (-1, st))))"

section \<open>Lines\<close>

definition read_str :: "string \<Rightarrow> string res" where
  "read_str s = (if NUL \<in> set s then Inr (cstr s) else Inl Out_of_bounds)"

fun read_strs :: "string \<Rightarrow> nat list \<Rightarrow> string list res" where
  "read_strs b [] = Inr []"
| "read_strs b (t # ts) = bind_res (read_str (drop t b)) (\<lambda>s. bind_res (read_strs b ts) (\<lambda>ss. Inr (s # ss)))"

function parse_lines :: "('th, 'lp, 'n) ext \<Rightarrow> (string \<Rightarrow> (byte list \<times> nat) option) \<Rightarrow> byte list \<Rightarrow> string \<Rightarrow> nat option \<Rightarrow>
    ('th, 'lp, 'n) rstate \<Rightarrow> (int \<times> ('th, 'lp, 'n) rstate) res" where
  "parse_lines x lpm_strtobin junk b rest_str st =
     (case rest_str of None \<Rightarrow> Inr (0, st)
      | Some p \<Rightarrow>
          bind_res (strsep (Some p) newline b) (\<lambda>(line, rest_str', b1).
          case line of None \<Rightarrow> Inr (0, st)
          | Some l \<Rightarrow>
              bind_res (next_char (drop l b1)) (\<lambda>(c, _).
              if c = CHR 0x23 then parse_lines x lpm_strtobin junk b1 rest_str' st
              else bind_res (str_tokenize l 5 b1) (\<lambda>(tokens, b2).
                if tokens = [] then parse_lines x lpm_strtobin junk b2 rest_str' st
                else bind_res (read_strs b2 tokens) (\<lambda>ts.
                  bind_res (parse_command x lpm_strtobin junk ts st) (\<lambda>(r, st').
                  if r = -1 then Inr (-1, st') else parse_lines x lpm_strtobin junk b2 rest_str' st'))))))"
  by pat_completeness auto

lemma lines_decrease:
  assumes "strsep (Some p) newline b = Inr (Some t, rest', b1)" "length b2 = length b1"
  shows "(case rest' of None \<Rightarrow> 0 | Some q \<Rightarrow> Suc (length b2 - q)) < Suc (length b - p)"
  using strsep_progress [OF assms(1)] assms(2) by (cases rest') auto

termination parse_lines
  by (relation "measure (\<lambda>(x, l, j, b, rest, st). case rest of None \<Rightarrow> 0 | Some p \<Rightarrow> Suc (length b - p))")
    (auto simp: str_tokenize_def dest: lines_decrease tokenize_length)

declare parse_lines.simps [simp del]

definition parse_config :: "('th, 'lp, 'n) ext \<Rightarrow> (string \<Rightarrow> (byte list \<times> nat) option) \<Rightarrow> byte list \<Rightarrow> string \<Rightarrow>
    ('th, 'lp, 'n) rstate \<Rightarrow> (int \<times> ('th, 'lp, 'n) rstate) res" where
  "parse_config x lpm_strtobin junk config_str st =
     (case heap_alloc st of (ok, st1) \<Rightarrow>
        if \<not> ok then Inr (-1, st1) else parse_lines x lpm_strtobin junk (config_str @ [NUL]) (Some 0) st1)"

definition router_config_str :: string where
  "router_config_str = ''ifconfig NW 192.168.178.11'' @ newline @ ''ifconfig NW 172.16.0.11'' @ newline @
     ''ifconfig imx6q-fec 192.168.178.49'' @ newline @ ''ifconfig imx6q-fec 172.16.0.49'' @ newline @
     ''route 192.168.178.49/32 NW 0'' @ newline @ ''route 172.16.0.49/32 NW 1'' @ newline @
     ''route 192.168.178.0/24 imx6q-fec 0'' @ newline @ ''route 172.16.0.0/24 imx6q-fec 1'' @ newline"

definition load_config :: "('th, 'lp, 'n) ext \<Rightarrow> (string \<Rightarrow> (byte list \<times> nat) option) \<Rightarrow> byte list \<Rightarrow>
    ('th, 'lp, 'n) rstate \<Rightarrow> (int \<times> ('th, 'lp, 'n) rstate) res" where
  "load_config x lpm_strtobin junk st = parse_config x lpm_strtobin junk router_config_str st"

section \<open>What the parser does\<close>

lemma strpbrk_none:
  assumes "NUL \<notin> set v" "\<forall>c \<in> set v. c \<notin> set d"
  shows "strpbrk (v @ NUL # r) d = Inr None"
  using assms by (induction v) auto

lemma takeWhile_split:
  assumes "takeWhile P u \<noteq> u"
  obtains d u2 where "u = takeWhile P u @ d # u2" "\<not> P d" "drop (length (takeWhile P u) + 1) u = u2"
proof -
  have "dropWhile P u \<noteq> []" using assms by (metis append_Nil2 takeWhile_dropWhile_id)
  then obtain d u2 where d: "dropWhile P u = d # u2" by (cases "dropWhile P u") auto
  then have u: "u = takeWhile P u @ d # u2" by (metis takeWhile_dropWhile_id)
  have "drop (length (takeWhile P u) + 1) u = u2" by (subst (2) u) simp
  moreover have "\<not> P d" using d by (metis hd_dropWhile list.distinct(1) list.sel(1))
  ultimately show thesis using that u by blast
qed

lemma same_prefix:
  assumes "take (p + length v + 1) b2 = take (p + length v + 1) b1" "drop p b1 = v @ NUL # s"
  obtains s' where "drop p b2 = v @ NUL # s'"
proof -
  have "take (length v + 1) (drop p b2) = take (length v + 1) (drop p b1)"
    using arg_cong [OF assms(1), of "drop p"] by (simp add: drop_take)
  also have "\<dots> = v @ [NUL]" by (simp add: assms(2))
  finally show thesis using that by (metis append.assoc append_Cons append_Nil append_take_drop_id)
qed

lemma cstr_append: "NUL \<notin> set v \<Longrightarrow> cstr (v @ NUL # s) = v"
  unfolding cstr_def by (simp add: takeWhile_append2 takeWhile_tail) (metis takeWhile_eq_all_conv)

text \<open>A separator at position \<open>p + length v\<close> becomes the terminator of the first field.\<close>

lemma cut_field:
  assumes "drop p b = (v @ d # u2) @ NUL # r" "k = p + length v"
  shows "drop p (b[k := NUL]) = v @ NUL # u2 @ NUL # r" "drop (k + 1) (b[k := NUL]) = u2 @ NUL # r" "take k (b[k := NUL]) = take k b"
proof -
  have "drop p (b[k := NUL]) = (drop p b)[length v := NUL]" using assms(2) by (simp add: drop_update_swap)
  also have "\<dots> = v @ NUL # u2 @ NUL # r" by (simp add: assms(1) list_update_append)
  finally show 1: "drop p (b[k := NUL]) = v @ NUL # u2 @ NUL # r" .
  have "drop (k + 1) (b[k := NUL]) = drop (length v + 1) (drop p (b[k := NUL]))" using assms(2) by (simp add: add.commute)
  then show "drop (k + 1) (b[k := NUL]) = u2 @ NUL # r" by (simp add: 1)
  show "take k (b[k := NUL]) = take k b" by simp
qed

definition tokens_of :: "string \<Rightarrow> nat list \<Rightarrow> string list \<Rightarrow> bool" where
  "tokens_of b ts ss \<longleftrightarrow> map (\<lambda>t. cstr (drop t b)) ts = ss \<and> (\<forall>t \<in> set ts. NUL \<in> set (drop t b))"

lemma tokenize_end: "str_tokenize_loop n b None ts = Inr (ts, b)"
  by (subst str_tokenize_loop.simps) (simp add: strsep_def strtok_gen_def)

lemma tokenize_spec:
  assumes "drop p b = u @ NUL # r" "NUL \<notin> set u"
  shows "\<exists>ts' b'. str_tokenize_loop n b (Some p) ts = Inr (ts @ ts', b') \<and> length b' = length b \<and> take p b' = take p b \<and>
    drop (p + length u) b' = drop (p + length u) b \<and> tokens_of b' ts' (take (n - length ts) (fields blanks u))"
  using assms
proof (induction blanks u arbitrary: b p ts rule: fields.induct)
  case (1 u)
  let ?v = "takeWhile (\<lambda>c. c \<notin> set blanks) u"
  have nb: "NUL \<notin> set blanks" by (simp add: blanks_def)
  note sep = strsep_spec [OF "1.prems" nb]
  have v: "NUL \<notin> set ?v" "\<forall>c \<in> set ?v. c \<notin> set blanks" using "1.prems"(2) by (auto dest: set_takeWhileD)
  consider "u = []" | "u \<noteq> []" "?v = u" | "u \<noteq> []" "?v \<noteq> u" by blast
  then show ?case
  proof cases
    case 1
    then show ?thesis using sep by (subst str_tokenize_loop.simps) (simp add: tokens_of_def fields.simps [of _ "[]"])
  next
    case 2
    have "strpbrk (drop p b) blanks = Inr None" using strpbrk_none [OF v] "1.prems"(1) 2(2) by simp
    moreover have "fields blanks u = [u]" using 2 by (subst fields.simps) (simp add: Let_def)
    moreover have "cstr (drop p b) = u" "NUL \<in> set (drop p b)" using cstr_append [OF "1.prems"(2)] "1.prems"(1) by simp_all
    ultimately show ?thesis using sep 2
      by (subst str_tokenize_loop.simps) (auto simp: Let_def tokenize_end tokens_of_def blanks_def take_Cons' split: if_splits)
  next
    case 3
    obtain d u2 where u: "u = ?v @ d # u2" "drop (length ?v + 1) u = u2" using takeWhile_split [OF 3(2)] by metis
    let ?k = "p + length ?v" let ?b = "b[?k := NUL]"
    have "drop p b = (?v @ d # u2) @ NUL # r" using "1.prems"(1) u(1) by metis
    note cut = cut_field [OF this refl]
    have sep': "strsep (Some p) blanks b = Inr (Some p, Some (?k + 1), ?b)" using sep 3 by (simp add: Let_def)
    have f: "fields blanks u = ?v # fields blanks u2" using 3 u(2) by (subst fields.simps) (auto simp: Let_def)
    have lu: "length u = length ?v + 1 + length u2" using arg_cong [OF u(1), of length] by simp
    show ?thesis
    proof (cases "length ts \<ge> n")
      case True
      then show ?thesis using sep' lu by (subst str_tokenize_loop.simps) (simp add: tokens_of_def)
    next
      case False
      have pb: "strpbrk (drop p ?b) blanks = Inr None" unfolding cut(1) by (rule strpbrk_none [OF v])
      have "NUL \<notin> set u2" using "1.prems"(2) u(1) by (metis in_set_conv_decomp append_Cons append_assoc Un_iff set_append list.set_intros(2))
      then obtain ts' b' where IH: "str_tokenize_loop n ?b (Some (?k + 1)) (ts @ [p]) = Inr ((ts @ [p]) @ ts', b')" "length b' = length ?b"
        "take (?k + 1) b' = take (?k + 1) ?b" "drop (?k + 1 + length u2) b' = drop (?k + 1 + length u2) ?b"
        "tokens_of b' ts' (take (n - length (ts @ [p])) (fields blanks u2))"
        using "1.hyps" [OF 3(1) refl 3(2)] cut(2) u(2) by metis
      obtain s' where s': "drop p b' = ?v @ NUL # s'" using same_prefix [of p ?v b' ?b] IH(3) cut(1) by metis
      have tk: "tokens_of b' (p # ts') (take (n - length ts) (fields blanks u))"
        using IH(5) False cstr_append [OF v(1)] f s' by (simp add: tokens_of_def take_Cons' Suc_diff_le)
      have "take p b' = take p b" using arg_cong [OF IH(3), of "take p"] by simp
      moreover have "drop (p + length u) b' = drop (p + length u) b" using IH(4) lu by (simp add: add.assoc)
      moreover have "str_tokenize_loop n b (Some p) ts = Inr (ts @ p # ts', b')"
        using sep' pb False IH(1) by (subst str_tokenize_loop.simps) (simp add: blanks_def)
      ultimately show ?thesis using IH(2) tk by auto
    qed
  qed
qed

lemma read_tokens: "tokens_of b ts ss \<Longrightarrow> read_strs b ts = Inr ss"
  by (induction ts arbitrary: ss) (auto simp: tokens_of_def read_str_def)

text \<open>The reference: the commands of a list of lines, run on the words of each line.\<close>

fun run_lines :: "('th, 'lp, 'n) ext \<Rightarrow> (string \<Rightarrow> (byte list \<times> nat) option) \<Rightarrow> byte list \<Rightarrow> string list \<Rightarrow>
    ('th, 'lp, 'n) rstate \<Rightarrow> (int \<times> ('th, 'lp, 'n) rstate) res" where
  "run_lines x cidr junk [] st = Inr (0, st)"
| "run_lines x cidr junk (l # ls) st =
     (let ts = take 5 (fields blanks l) in
      if take 1 l = [CHR 0x23] \<or> ts = [] then run_lines x cidr junk ls st
      else bind_res (parse_command x cidr junk ts st) (\<lambda>(r, st').
        if r = -1 then Inr (-1, st') else run_lines x cidr junk ls st'))"

lemma line_spec:
  assumes "drop p b = v @ NUL # s" "NUL \<notin> set v"
    and "\<And>b' st'. drop (p + length v) b' = drop (p + length v) b \<Longrightarrow> K b' st' = run_lines x cidr junk ls st'"
  shows "bind_res (next_char (drop p b)) (\<lambda>(c, _).
      if c = CHR 0x23 then K b st
      else bind_res (str_tokenize p 5 b) (\<lambda>(tokens, b2).
        if tokens = [] then K b2 st
        else bind_res (read_strs b2 tokens) (\<lambda>ts.
          bind_res (parse_command x cidr junk ts st) (\<lambda>(r, st'). if r = -1 then Inr (-1, st') else K b2 st')))) =
    run_lines x cidr junk (v # ls) st"
proof -
  obtain ts b' where t: "str_tokenize p 5 b = Inr (ts, b')" "drop (p + length v) b' = drop (p + length v) b"
    "tokens_of b' ts (take 5 (fields blanks v))"
    using tokenize_spec [OF assms(1,2), of 5 "[]"] by (auto simp: str_tokenize_def)
  have nil: "ts = [] \<longleftrightarrow> take 5 (fields blanks v) = []" using t(3) by (auto simp: tokens_of_def)
  obtain c s' where c: "next_char (drop p b) = Inr (c, s')" "c = CHR 0x23 \<longleftrightarrow> take 1 v = [CHR 0x23]"
    using assms(1) by (cases v) (auto simp: next_char_def)
  have K: "K b = run_lines x cidr junk ls" "K b' = run_lines x cidr junk ls"
    using assms(3) [OF refl] assms(3) [OF t(2)] by auto
  show ?thesis
    unfolding c(1) t(1) bind_res_simps prod.case K run_lines.simps Let_def using c(2) nil read_tokens [OF t(3)] by auto
qed

lemma parse_lines_spec:
  assumes "drop p b = u @ NUL # r" "NUL \<notin> set u"
  shows "parse_lines x cidr junk b (Some p) st = run_lines x cidr junk (fields newline u) st"
  using assms
proof (induction newline u arbitrary: b p st rule: fields.induct)
  case (1 u)
  let ?v = "takeWhile (\<lambda>c. c \<notin> set newline) u"
  have nb: "NUL \<notin> set newline" by (simp add: newline_def)
  note sep = strsep_spec [OF "1.prems" nb]
  have v: "NUL \<notin> set ?v" using "1.prems"(2) by (auto dest: set_takeWhileD)
  have stop: "parse_lines x cidr junk b' None st' = Inr (0, st')" for b' st' by (subst parse_lines.simps) simp
  consider "u = []" | "u \<noteq> []" "?v = u" | "u \<noteq> []" "?v \<noteq> u" by blast
  then show ?case
  proof cases
    case 1
    then show ?thesis using sep by (subst parse_lines.simps) (simp add: fields.simps [of _ "[]"])
  next
    case 2
    have "fields newline u = [u]" using 2 by (subst fields.simps) (simp add: Let_def)
    then show ?thesis
      using line_spec [OF "1.prems", of "\<lambda>b' st'. parse_lines x cidr junk b' None st'" x cidr junk "[]" st] sep 2 stop
      by (subst parse_lines.simps) simp
  next
    case 3
    obtain d u2 where u: "u = ?v @ d # u2" "drop (length ?v + 1) u = u2" using takeWhile_split [OF 3(2)] by metis
    let ?k = "p + length ?v" let ?b = "b[?k := NUL]"
    have "drop p b = (?v @ d # u2) @ NUL # r" using "1.prems"(1) u(1) by metis
    note cut = cut_field [OF this refl]
    have sep': "strsep (Some p) newline b = Inr (Some p, Some (?k + 1), ?b)" using sep 3 by (simp add: Let_def)
    have f: "fields newline u = ?v # fields newline u2" using 3 u(2) by (subst fields.simps) (auto simp: Let_def)
    have "NUL \<notin> set u2" using "1.prems"(2) u(1) by (metis in_set_conv_decomp append_Cons append_assoc Un_iff set_append list.set_intros(2))
    then have K: "parse_lines x cidr junk b' (Some (?k + 1)) st' = run_lines x cidr junk (fields newline u2) st'"
      if "drop ?k b' = drop ?k ?b" for b' st'
      using "1.hyps" [OF 3(1) refl 3(2)] cut(2) u(2) arg_cong [OF that, of "drop 1"] by simp
    show ?thesis
      unfolding f by (subst parse_lines.simps) (simp only: sep' option.case bind_res_simps prod.case, rule line_spec [OF cut(1) v K])
  qed
qed

lemma parse_config_lines:
  assumes "NUL \<notin> set config_str"
  shows "parse_config x cidr junk config_str st =
    (if fst (heap_alloc st) then run_lines x cidr junk (fields newline config_str) (snd (heap_alloc st))
     else Inr (-1, snd (heap_alloc st)))"
  using parse_lines_spec [of 0 "config_str @ [NUL]" config_str "[]" x cidr junk "snd (heap_alloc st)"] assms
  by (cases "heap_alloc st") (simp add: parse_config_def)

text \<open>
  Claim C15. \<open>parse_config\<close> ends on every text, and what it does with its copy by writing terminators in place is the
  plain reading of the text: the lines in order, those that start with a hash or have no word skipped, of every other
  line the first five words given to \<open>parse_command\<close>, and the end at the first command that fails.
\<close>

theorem parse_config_reads_lines:
  assumes "NUL \<notin> set config_str"
  shows "parse_config x cidr junk config_str st =
    (if fst (heap_alloc st) then run_lines x cidr junk (fields newline config_str) (snd (heap_alloc st))
     else Inr (-1, snd (heap_alloc st)))"
  using assms by (rule parse_config_lines)

section \<open>Commands that succeed\<close>

definition dev_at :: "string \<Rightarrow> nat \<Rightarrow> nat \<Rightarrow> 'th ifnet \<Rightarrow> ('th, 'lp, 'n) rstate \<Rightarrow> bool" where
  "dev_at nm i p d st \<longleftrightarrow> 0 < i \<and> ifnet_nametoindex (Some nm) (nd st) = i \<and> ifnet_getbyidx i (nd st) = Some p \<and> ifs (nd st) p = Some d \<and>
     length (if_ips d) = BSTGW_MAX_NETIF_IPS"

text \<open>The device after its next address was set to what \<open>inet_pton\<close> leaves for the word \<open>a\<close>.\<close>

definition add_ip :: "string \<Rightarrow> 'th ifnet \<Rightarrow> 'th ifnet" where
  "add_ip a d = d\<lparr>if_ips := (if_ips d)[ips_cnt d := (case dotted_quad a of None \<Rightarrow> if_ips d ! ips_cnt d | Some q \<Rightarrow> q)], ips_cnt := ips_cnt d + 1\<rparr>"

lemma command_names:
  "\<exists>d. strcasecmp (''ifconfig'' @ [NUL]) (''route'' @ [NUL]) = Inr d \<and> d \<noteq> 0"
  "strcasecmp (''ifconfig'' @ [NUL]) (''ifconfig'' @ [NUL]) = Inr 0" "strcasecmp (''route'' @ [NUL]) (''route'' @ [NUL]) = Inr 0"
  using strcasecmp_spec [of "''ifconfig''" "''route''" "[]" "[]"] strcasecmp_spec [of "''ifconfig''" "''ifconfig''" "[]" "[]"]
    strcasecmp_spec [of "''route''" "''route''" "[]" "[]"] by auto

lemma command_ifconfig: "parse_command x cidr junk (''ifconfig'' # ts) st = parse_ifconfig junk (''ifconfig'' # ts) st"
proof -
  have t: "token (''ifconfig'' # ts) 0 = Inr ''ifconfig''" by (simp add: token_def)
  obtain d where "strcasecmp (''ifconfig'' @ [NUL]) (''route'' @ [NUL]) = Inr d" "d \<noteq> 0" using command_names(1) by blast
  then show ?thesis unfolding parse_command_def t bind_res_simps command_names(2) by (simp only: bind_res_simps if_True if_False simp_thms)
qed

lemma command_route: "parse_command x cidr junk (''route'' # ts) st = parse_route x cidr junk (''route'' # ts) st"
proof -
  have t: "token (''route'' # ts) 0 = Inr ''route''" by (simp add: token_def)
  show ?thesis unfolding parse_command_def t bind_res_simps command_names(3) by (simp only: bind_res_simps if_True simp_thms)
qed

lemma ifconfig_run:
  assumes "dev_at nm i p d st" "ips_cnt d < BSTGW_MAX_NETIF_IPS" "NUL \<notin> set a" "length junk = 3"
  shows "parse_command x cidr junk [''ifconfig'', nm, a] st = Inr (0, set_dev p (add_ip a d) st)"
proof -
  have "inet_pton junk AF_INET (a @ [NUL]) e = Inr (case dotted_quad a of None \<Rightarrow> (0, e) | Some q \<Rightarrow> (1, q))" for e
    using pton4_ref [OF assms(3,4), of "[]"] by simp
  then show ?thesis
    unfolding command_ifconfig using assms(1,2)
    by (auto simp: token_def parse_ifconfig_def dev_at_def get_dev_def add_ip_def split: option.splits)
qed

lemma dev_at_set:
  assumes "dev_at nm i p d st" "ifs (nd st) q = Some e" "if_name e' = if_name e" "ifnet_idx e' = ifnet_idx e"
    "length (if_ips e') = BSTGW_MAX_NETIF_IPS"
  shows "dev_at nm i p (if q = p then e' else d) (set_dev q e' st)"
proof -
  have "has_name (nd (set_dev q e' st)) = has_name (nd st)"
    using assms(2,3) by (auto simp: fun_eq_iff has_name_def set_dev_def)
  then have "ifnet_nametoindex (Some nm) (nd (set_dev q e' st)) = ifnet_nametoindex (Some nm) (nd st)"
    using assms(2,4) by (auto simp: ifnet_nametoindex_def set_dev_def split: option.splits)
  moreover have "ifnet_getbyidx i (nd (set_dev q e' st)) = ifnet_getbyidx i (nd st)" by (simp add: ifnet_getbyidx_def set_dev_def)
  ultimately show ?thesis using assms(1,5) by (auto simp: dev_at_def set_dev_def)
qed

lemma add_ip_simps [simp]: "if_name (add_ip a d) = if_name d" "ifnet_idx (add_ip a d) = ifnet_idx d" "ips_cnt (add_ip a d) = ips_cnt d + 1"
  "length (if_ips (add_ip a d)) = length (if_ips d)"
  by (simp_all add: add_ip_def)

lemma route_run:
  assumes "dev_at nm i p d st" "cidr c = Some (addr, plen)" "strtoul k < ips_cnt d"
    "alloc_ok (pool st) (clk (pool st))"
    "lpm_insert x (rtable st) addr plen \<lparr>rt_if_idx = i, rt_addr_len = 0, rt_next_hop = replicate 4 0, rt_if_addr_idx = strtoul k\<rparr> = Some t"
  shows "parse_command x cidr junk [''route'', c, nm, k] st = Inr (0, (snd (heap_alloc st))\<lparr>rtable := t\<rparr>)"
  unfolding command_route using assms
  by (auto simp: token_def parse_route_def route_target_def dev_at_def get_dev_def route_add_def heap_alloc_def Let_def)

lemma run_lines_step:
  assumes "fields blanks l = ts" "ts \<noteq> []" "length ts \<le> 5" "take 1 l \<noteq> [CHR 0x23]" "parse_command x cidr junk ts st = Inr (0, st')"
  shows "run_lines x cidr junk (l # ls) st = run_lines x cidr junk ls st'"
  using assms by (simp add: Let_def)

lemma config_lines:
  "fields newline router_config_str = [''ifconfig NW 192.168.178.11'', ''ifconfig NW 172.16.0.11'', ''ifconfig imx6q-fec 192.168.178.49'',
     ''ifconfig imx6q-fec 172.16.0.49'', ''route 192.168.178.49/32 NW 0'', ''route 172.16.0.49/32 NW 1'',
     ''route 192.168.178.0/24 imx6q-fec 0'', ''route 172.16.0.0/24 imx6q-fec 1'']"
  by code_simp

lemma config_words:
  "fields blanks ''ifconfig NW 192.168.178.11'' = [''ifconfig'', ''NW'', ''192.168.178.11'']"
  "fields blanks ''ifconfig NW 172.16.0.11'' = [''ifconfig'', ''NW'', ''172.16.0.11'']"
  "fields blanks ''ifconfig imx6q-fec 192.168.178.49'' = [''ifconfig'', ''imx6q-fec'', ''192.168.178.49'']"
  "fields blanks ''ifconfig imx6q-fec 172.16.0.49'' = [''ifconfig'', ''imx6q-fec'', ''172.16.0.49'']"
  "fields blanks ''route 192.168.178.49/32 NW 0'' = [''route'', ''192.168.178.49/32'', ''NW'', ''0'']"
  "fields blanks ''route 172.16.0.49/32 NW 1'' = [''route'', ''172.16.0.49/32'', ''NW'', ''1'']"
  "fields blanks ''route 192.168.178.0/24 imx6q-fec 0'' = [''route'', ''192.168.178.0/24'', ''imx6q-fec'', ''0'']"
  "fields blanks ''route 172.16.0.0/24 imx6q-fec 1'' = [''route'', ''172.16.0.0/24'', ''imx6q-fec'', ''1'']"
  by code_simp+

lemma config_numbers: "strtoul ''0'' = 0" "strtoul ''1'' = 1"
  by (simp_all add: strtoul_def isspace_def dec_digit_def code_def)

lemma config_quads:
  "dotted_quad ''192.168.178.11'' = Some [192, 168, 178, 11]" "dotted_quad ''172.16.0.11'' = Some [172, 16, 0, 11]"
  "dotted_quad ''192.168.178.49'' = Some [192, 168, 178, 49]" "dotted_quad ''172.16.0.49'' = Some [172, 16, 0, 49]"
  by (simp_all add: dotted_quad_def octet_def dec_digit_def code_def)

lemma dev_at_alloc [simp]: "dev_at nm i p d (snd (heap_alloc st)) = dev_at nm i p d st" "dev_at nm i p d (st\<lparr>rtable := t\<rparr>) = dev_at nm i p d st"
  by (simp_all add: dev_at_def heap_alloc_def)

text \<open>Two addresses for one device: the two lines are run and the device is found with both of them.\<close>

lemma two_ips:
  assumes "dev_at nm i p d st" "ips_cnt d = 0" "length junk = 3" "NUL \<notin> set a" "NUL \<notin> set b"
    "fields blanks l1 = [''ifconfig'', nm, a]" "fields blanks l2 = [''ifconfig'', nm, b]" "take 1 l1 \<noteq> [CHR 0x23]" "take 1 l2 \<noteq> [CHR 0x23]"
    "dotted_quad a = Some qa" "dotted_quad b = Some qb"
  shows "run_lines x cidr junk (l1 # l2 # ls) st =
    run_lines x cidr junk ls (set_dev p (d\<lparr>if_ips := [qa, qb], ips_cnt := 2\<rparr>) st)"
proof -
  have max: "BSTGW_MAX_NETIF_IPS = 2" by (simp add: BSTGW_MAX_NETIF_IPS_def)
  have d: "ifs (nd st) p = Some d" "length (if_ips d) = 2" using assms(1) max by (simp_all add: dev_at_def)
  let ?s = "set_dev p (add_ip a d) st"
  have 1: "parse_command x cidr junk [''ifconfig'', nm, a] st = Inr (0, ?s)"
    using assms(2) max by (intro ifconfig_run [OF assms(1) _ assms(4,3)]) simp
  have "dev_at nm i p (add_ip a d) ?s" using dev_at_set [OF assms(1) d(1), of "add_ip a d"] d max by simp
  then have 2: "parse_command x cidr junk [''ifconfig'', nm, b] ?s = Inr (0, set_dev p (add_ip b (add_ip a d)) ?s)"
    using assms(2) max by (intro ifconfig_run [OF _ _ assms(5,3)]) simp_all
  obtain u v where uv: "if_ips d = [u, v]" using d(2) by (auto simp: numeral_2_eq_2 length_Suc_conv)
  have "set_dev p (add_ip b (add_ip a d)) ?s = set_dev p (d\<lparr>if_ips := [qa, qb], ips_cnt := 2\<rparr>) st"
    using assms(2,10,11) uv by (simp add: set_dev_def add_ip_def numeral_2_eq_2)
  then show ?thesis
    by (subst run_lines_step [OF assms(6) _ _ assms(8) 1], simp, simp, subst run_lines_step [OF assms(7) _ _ assms(9) 2], simp, simp) (simp only:)
qed

definition route_via :: "nat \<Rightarrow> nat \<Rightarrow> route_info" where
  "route_via i k = \<lparr>rt_if_idx = i, rt_addr_len = 0, rt_next_hop = replicate 4 0, rt_if_addr_idx = k\<rparr>"

lemma route_line:
  assumes "dev_at nm i p d st" "fields blanks l = [''route'', c, nm, k]" "take 1 l \<noteq> [CHR 0x23]" "cidr c = Some (addr, plen)"
    "strtoul k = n" "n < ips_cnt d" "alloc_ok (pool st) (clk (pool st))" "lpm_insert x (rtable st) addr plen (route_via i n) = Some t"
  shows "run_lines x cidr junk (l # ls) st = run_lines x cidr junk ls ((snd (heap_alloc st))\<lparr>rtable := t\<rparr>)"
proof (rule run_lines_step [OF assms(2) _ _ assms(3)])
  show "parse_command x cidr junk [''route'', c, nm, k] st = Inr (0, (snd (heap_alloc st))\<lparr>rtable := t\<rparr>)"
    using assms(5-8) by (intro route_run [where cidr = cidr and c = c and addr = addr, OF assms(1,4)]) (simp_all add: route_via_def)
qed simp_all

text \<open>
  The four prefixes of the configuration as \<open>lpm_strtobin\<close> is documented to convert them, and the insertions into the
  routing table \<open>t0\<close>: prefixes of the two cards through the interface of the normal world, their networks through the
  Ethernet card.
\<close>

definition cidr_doc :: "(string \<Rightarrow> (byte list \<times> nat) option) \<Rightarrow> bool" where
  "cidr_doc cidr \<longleftrightarrow> cidr ''192.168.178.49/32'' = Some ([192, 168, 178, 49], 32) \<and> cidr ''172.16.0.49/32'' = Some ([172, 16, 0, 49], 32) \<and>
     cidr ''192.168.178.0/24'' = Some ([192, 168, 178, 0], 24) \<and> cidr ''172.16.0.0/24'' = Some ([172, 16, 0, 0], 24)"

fun insert_routes :: "('th, 'lp, 'n) ext \<Rightarrow> (byte list \<times> nat \<times> route_info) list \<Rightarrow> 'lp \<Rightarrow> 'lp option" where
  "insert_routes x [] t = Some t"
| "insert_routes x ((a, n, rt) # rs) t = (case lpm_insert x t a n rt of None \<Rightarrow> None | Some t' \<Rightarrow> insert_routes x rs t')"

definition config_routes :: "nat \<Rightarrow> nat \<Rightarrow> (byte list \<times> nat \<times> route_info) list" where
  "config_routes i j = [([192, 168, 178, 49], 32, route_via i 0), ([172, 16, 0, 49], 32, route_via i 1),
     ([192, 168, 178, 0], 24, route_via j 0), ([172, 16, 0, 0], 24, route_via j 1)]"

lemma four_routes:
  assumes "dev_at ''NW'' i p d st" "dev_at ''imx6q-fec'' j q e st" "ips_cnt d = 2" "ips_cnt e = 2" "cidr_doc cidr"
    "\<forall>k < 4. alloc_ok (pool st) (clk (pool st) + k)" "insert_routes x (config_routes i j) (rtable st) = Some t"
  shows "\<exists>st'. run_lines x cidr junk [''route 192.168.178.49/32 NW 0'', ''route 172.16.0.49/32 NW 1'',
       ''route 192.168.178.0/24 imx6q-fec 0'', ''route 172.16.0.0/24 imx6q-fec 1''] st = Inr (0, st') \<and> nd st' = nd st \<and> rtable st' = t"
proof -
  from assms(7) obtain t1 t2 t3 where t: "lpm_insert x (rtable st) [192, 168, 178, 49] 32 (route_via i 0) = Some t1"
    "lpm_insert x t1 [172, 16, 0, 49] 32 (route_via i 1) = Some t2" "lpm_insert x t2 [192, 168, 178, 0] 24 (route_via j 0) = Some t3"
    "lpm_insert x t3 [172, 16, 0, 0] 24 (route_via j 1) = Some t" by (auto simp: config_routes_def split: option.splits)
  let ?n = "\<lambda>s t. (snd (heap_alloc s))\<lparr>rtable := t\<rparr>"
  let ?a = "?n st t1" let ?b = "?n ?a t2" let ?c = "?n ?b t3"
  have al: "alloc_ok (pool st) (clk (pool st) + k)" if "k < 4" for k using assms(6) that by simp
  have ci: "cidr ''192.168.178.49/32'' = Some ([192, 168, 178, 49], 32)" "cidr ''172.16.0.49/32'' = Some ([172, 16, 0, 49], 32)"
     "cidr ''192.168.178.0/24'' = Some ([192, 168, 178, 0], 24)" "cidr ''172.16.0.0/24'' = Some ([172, 16, 0, 0], 24)"
    using assms(5) unfolding cidr_doc_def by blast+
  have 1: "run_lines x cidr junk (''route 192.168.178.49/32 NW 0'' # ls) st = run_lines x cidr junk ls ?a" for ls
    by (rule route_line [OF assms(1) config_words(5) _ _ config_numbers(1) _ _ t(1)], simp, rule ci(1))
      (use al [of 0] assms(3) in simp_all)
  have 2: "run_lines x cidr junk (''route 172.16.0.49/32 NW 1'' # ls) ?a = run_lines x cidr junk ls ?b" for ls
    by (rule route_line [of "''NW''" i p d, OF _ config_words(6) _ _ config_numbers(2)], simp add: assms(1), simp, rule ci(2))
      (use al [of "Suc 0"] assms(3) t(2) in \<open>simp_all add: heap_alloc_def\<close>)
  have 3: "run_lines x cidr junk (''route 192.168.178.0/24 imx6q-fec 0'' # ls) ?b = run_lines x cidr junk ls ?c" for ls
    by (rule route_line [of "''imx6q-fec''" j q e, OF _ config_words(7) _ _ config_numbers(1)], simp add: assms(2), simp, rule ci(3))
      (use al [of "Suc (Suc 0)"] assms(4) t(3) in \<open>simp_all add: heap_alloc_def\<close>)
  have 4: "run_lines x cidr junk (''route 172.16.0.0/24 imx6q-fec 1'' # ls) ?c = run_lines x cidr junk ls (?n ?c t)" for ls
    by (rule route_line [of "''imx6q-fec''" j q e, OF _ config_words(8) _ _ config_numbers(2)], simp add: assms(2), simp, rule ci(4))
      (use al [of "Suc (Suc (Suc 0))"] assms(4) t(4) in \<open>simp_all add: heap_alloc_def\<close>)
  show ?thesis unfolding 1 2 3 4 by (simp add: heap_alloc_def)
qed

lemma load_config_run:
  assumes "dev_at ''NW'' i p d st" and "dev_at ''imx6q-fec'' j q e st" and "p \<noteq> q" and "ips_cnt d = 0" and "ips_cnt e = 0"
    and "length junk = 3" and "cidr_doc cidr" and "\<forall>k < 5. alloc_ok (pool st) (clk (pool st) + k)"
    and "insert_routes x (config_routes i j) (rtable st) = Some t"
  shows "\<exists>st'. load_config x cidr junk st = Inr (0, st') \<and> rtable st' = t \<and>
    nd st' = (nd st)\<lparr>ifs := (ifs (nd st))
      (p \<mapsto> d\<lparr>if_ips := [[192, 168, 178, 11], [172, 16, 0, 11]], ips_cnt := 2\<rparr>,
       q \<mapsto> e\<lparr>if_ips := [[192, 168, 178, 49], [172, 16, 0, 49]], ips_cnt := 2\<rparr>)\<rparr>"
proof -
  let ?d = "d\<lparr>if_ips := [[192, 168, 178, 11], [172, 16, 0, 11]], ips_cnt := 2\<rparr>"
  let ?e = "e\<lparr>if_ips := [[192, 168, 178, 49], [172, 16, 0, 49]], ips_cnt := 2\<rparr>"
  let ?s = "snd (heap_alloc st)" let ?u = "set_dev p ?d ?s" let ?w = "set_dev q ?e ?u"
  have max: "BSTGW_MAX_NETIF_IPS = 2" by (simp add: BSTGW_MAX_NETIF_IPS_def)
  have al: "alloc_ok (pool st) (clk (pool st) + k)" if "k < 5" for k using assms(8) that by simp
  have d: "ifs (nd ?s) p = Some d" "ifs (nd ?s) q = Some e" using assms(1,2) by (simp_all add: dev_at_def heap_alloc_def)
  have ds: "dev_at ''NW'' i p d ?s" "dev_at ''imx6q-fec'' j q e ?s" using assms(1,2) by simp_all
  have u: "dev_at ''NW'' i p ?d ?u" "dev_at ''imx6q-fec'' j q e ?u"
    using dev_at_set [OF ds(1) d(1), of ?d] dev_at_set [OF ds(2) d(1), of ?d] assms(3) max by simp_all
  have "ifs (nd ?u) q = Some e" using u(2) by (simp add: dev_at_def)
  then have w: "dev_at ''NW'' i p ?d ?w" "dev_at ''imx6q-fec'' j q ?e ?w"
    using dev_at_set [OF u(1), of q e ?e] dev_at_set [OF u(2), of q e ?e] assms(3) max by auto
  have 1: "run_lines x cidr junk (''ifconfig NW 192.168.178.11'' # ''ifconfig NW 172.16.0.11'' # ls) ?s = run_lines x cidr junk ls ?u" for ls
    by (rule two_ips [OF ds(1) assms(4,6) _ _ config_words(1,2) _ _ config_quads(1,2)]) simp_all
  have 2: "run_lines x cidr junk (''ifconfig imx6q-fec 192.168.178.49'' # ''ifconfig imx6q-fec 172.16.0.49'' # ls) ?u = run_lines x cidr junk ls ?w" for ls
    by (rule two_ips [OF u(2) assms(5,6) _ _ config_words(3,4) _ _ config_quads(3,4)]) simp_all
  have p: "pool ?w = (pool st)\<lparr>clk := clk (pool st) + 1\<rparr>" "rtable ?w = rtable st" by (simp_all add: set_dev_def heap_alloc_def)
  have "\<forall>k < 4. alloc_ok (pool ?w) (clk (pool ?w) + k)" unfolding p using al [of "Suc k" for k] by simp
  then obtain st' where st': "run_lines x cidr junk [''route 192.168.178.49/32 NW 0'', ''route 172.16.0.49/32 NW 1'',
       ''route 192.168.178.0/24 imx6q-fec 0'', ''route 172.16.0.0/24 imx6q-fec 1''] ?w = Inr (0, st')" "nd st' = nd ?w" "rtable st' = t"
    using four_routes [OF w _ _ assms(7), of x t junk] assms(9) p(2) by auto
  have "NUL \<notin> set router_config_str" by (simp add: router_config_str_def newline_def)
  then have "load_config x cidr junk st = run_lines x cidr junk (fields newline router_config_str) ?s"
    using al [of 0] by (simp add: load_config_def parse_config_lines heap_alloc_def)
  then have "load_config x cidr junk st = Inr (0, st')" unfolding config_lines 1 2 st'(1) .
  then show ?thesis using st'(2,3) by (auto simp: set_dev_def heap_alloc_def)
qed

text \<open>
  Claim C37. Loading the built-in configuration, with both cards registered and without addresses and with enough memory:
  the interface of the normal world gets 192.168.178.11 and 172.16.0.11, the Ethernet card 192.168.178.49 and
  172.16.0.49, and the routing table gets exactly the four routes of the text, in its order.
\<close>

theorem load_config_installs:
  assumes "dev_at ''NW'' i p d st" and "dev_at ''imx6q-fec'' j q e st" and "p \<noteq> q" and "ips_cnt d = 0" and "ips_cnt e = 0"
    and "length junk = 3" and "cidr_doc cidr" and "\<forall>k < 5. alloc_ok (pool st) (clk (pool st) + k)"
    and "insert_routes x (config_routes i j) (rtable st) = Some t"
  shows "\<exists>st'. load_config x cidr junk st = Inr (0, st') \<and> rtable st' = t \<and>
    nd st' = (nd st)\<lparr>ifs := (ifs (nd st))
      (p \<mapsto> d\<lparr>if_ips := [[192, 168, 178, 11], [172, 16, 0, 11]], ips_cnt := 2\<rparr>,
       q \<mapsto> e\<lparr>if_ips := [[192, 168, 178, 49], [172, 16, 0, 49]], ips_cnt := 2\<rparr>)\<rparr>"
  using assms by (rule load_config_run)

text \<open>
  Claim C38. What \<open>ifconfig\<close> does not check. A word that is no dotted quad is accepted: \<open>inet_pton\<close> returns 0 for it and
  only -1 is treated as an error, so the address in the slot stays and the number of addresses grows. A line without an
  address passes the test for the number of words and dereferences a null pointer.
\<close>

theorem ifconfig_unchecked:
  assumes "dev_at nm i p d st" and "ips_cnt d < BSTGW_MAX_NETIF_IPS" and "length junk = 3" and "NUL \<notin> set a" and "dotted_quad a = None"
  shows "parse_command x cidr junk [''ifconfig'', nm, a] st = Inr (0, set_dev p (d\<lparr>ips_cnt := ips_cnt d + 1\<rparr>) st) \<and>
    parse_command x cidr junk [''ifconfig'', nm] st = Inl Null_deref"
proof
  have "add_ip a d = d\<lparr>ips_cnt := ips_cnt d + 1\<rparr>" using assms(5) by (simp add: add_ip_def)
  then show "parse_command x cidr junk [''ifconfig'', nm, a] st = Inr (0, set_dev p (d\<lparr>ips_cnt := ips_cnt d + 1\<rparr>) st)"
    using ifconfig_run [OF assms(1,2,4,3)] by simp
  show "parse_command x cidr junk [''ifconfig'', nm] st = Inl Null_deref"
    unfolding command_ifconfig using assms(1,2) by (simp add: parse_ifconfig_def token_def dev_at_def get_dev_def)
qed

section \<open>Examples\<close>

definition cfg_dev :: "nat \<Rightarrow> string \<Rightarrow> unit ifnet" where
  "cfg_dev i nm = zero_ifnet\<lparr>ifnet_idx := i, if_name := nm\<rparr>"

definition cfg_state :: "(unit, (byte list \<times> nat \<times> route_info) list, unit) rstate" where
  "cfg_state = \<lparr>nd = \<lparr>ifs = [7 \<mapsto> cfg_dev 1 ''NW'', 8 \<mapsto> cfg_dev 2 ''imx6q-fec''], ifnet_map = Some 7 # Some 8 # replicate 30 None,
       next_if_idx = 3, netdev_list = [7, 8]\<rparr>,
     pool = \<lparr>bufs = Map.empty, free_list = [], inuse_list = [], pool_capacity = 0, fresh = 0, alloc_ok = (\<lambda>_. True), clk = 0\<rparr>,
     rtable = [], npfst = (), notified = []\<rparr>"

definition cfg_ext :: "(unit, (byte list \<times> nat \<times> route_info) list, unit) ext" where
  "cfg_ext = \<lparr>th_get = (\<lambda>_ _. None), th_put = (\<lambda>t _ _. (t, True)), lpm_lookup = (\<lambda>_ _. None),
     lpm_insert = (\<lambda>t a n rt. Some ((a, n, rt) # t)), npf_handler = (\<lambda>n m _ _ P. (0, Some m, P, n))\<rparr>"

definition cfg_cidr :: "string \<Rightarrow> (byte list \<times> nat) option" where
  "cfg_cidr = map_of [(''192.168.178.49/32'', ([192, 168, 178, 49], 32)), (''172.16.0.49/32'', ([172, 16, 0, 49], 32)),
     (''192.168.178.0/24'', ([192, 168, 178, 0], 24)), (''172.16.0.0/24'', ([172, 16, 0, 0], 24))]"

lemma cfg_devs: "dev_at ''NW'' 1 7 (cfg_dev 1 ''NW'') cfg_state" "dev_at ''imx6q-fec'' 2 8 (cfg_dev 2 ''imx6q-fec'') cfg_state"
  by (simp_all add: dev_at_def cfg_state_def cfg_dev_def zero_ifnet_def ifnet_nametoindex_def ifnet_getbyidx_def has_name_def)

lemma cfg_cidr_doc: "cidr_doc cfg_cidr"
  unfolding cidr_doc_def cfg_cidr_def by (intro conjI) simp_all

theorem parse_config_reads_lines_witness:
  "parse_config cfg_ext cfg_cidr [0, 0, 0] (''# nothing'' @ newline @ newline @ ''x'') cfg_state = Inr (-1, snd (heap_alloc cfg_state))"
proof -
  have f: "fields newline (''# nothing'' @ newline @ newline @ ''x'') = [''# nothing'', '''', ''x'']" by code_simp
  have w: "fields blanks '''' = []" "fields blanks ''x'' = [''x'']" by code_simp+
  have "parse_command cfg_ext cfg_cidr [0, 0, 0] [''x''] st = Inr (-1, st)" for st
    by (simp add: parse_command_def token_def tolower_def code_def)
  then show ?thesis
    using parse_config_reads_lines [of "''# nothing'' @ newline @ newline @ ''x''" cfg_ext cfg_cidr "[0, 0, 0]" cfg_state] f w
    by (simp add: newline_def heap_alloc_def cfg_state_def)
qed

theorem load_config_installs_witness:
  "\<exists>st'. load_config cfg_ext cfg_cidr [0, 0, 0] cfg_state = Inr (0, st') \<and> length (rtable st') = 4 \<and>
    map_option ips_cnt (ifs (nd st') 7) = Some 2"
  using load_config_installs [OF cfg_devs, of "[0, 0, 0]" cfg_cidr cfg_ext "rev (config_routes 1 2)"] cfg_cidr_doc
  by (auto simp: cfg_dev_def cfg_state_def cfg_ext_def zero_ifnet_def config_routes_def)

theorem ifconfig_unchecked_witness:
  "parse_command cfg_ext cfg_cidr [0, 0, 0] [''ifconfig'', ''NW'', ''localhost''] cfg_state =
     Inr (0, set_dev 7 ((cfg_dev 1 ''NW'')\<lparr>ips_cnt := 1\<rparr>) cfg_state) \<and>
   parse_command cfg_ext cfg_cidr [0, 0, 0] [''ifconfig'', ''NW''] cfg_state = Inl Null_deref"
proof -
  have q: "dotted_quad ''localhost'' = None" by (simp add: dotted_quad_def)
  have c: "ips_cnt (cfg_dev 1 ''NW'') = 0" by (simp add: cfg_dev_def zero_ifnet_def)
  then show ?thesis
    using ifconfig_unchecked [OF cfg_devs(1) _ _ _ q, of "[0, 0, 0]" cfg_ext cfg_cidr] unfolding c by (simp add: BSTGW_MAX_NETIF_IPS_def)
qed

end
