(* ===== verification/Control.thy ===== *)
theory Control
  imports Config Napi
begin

text \<open>
  Sessions with the router (\<open>nettrug/pta/trust_router.c\<close>) and the workers behind them (\<open>npf_router.c\<close>, with the
  per-worker storage of \<open>optee_os_core_libs/bstgw/worker_storage.c\<close>). The normal world opens a session per thread it
  lends; a worker session is bound to one worker of the router. Pointers are numbers into the maps of the state, so a
  pointer to freed memory is one that is no longer mapped. A call of an entry point is one step: the search for a free
  worker tests and takes each of them under its spin lock. NPF, its epoch-based reclamation and the name/value library are
  parameters.
\<close>

section \<open>State\<close>

record wrk_ls =
  ebr_tls :: "nat option"
  npf_stats_tls :: "nat option"

datatype bind_stat = WORKER_UNBOUND | WORKER_IS_BOUND

record worker_bind =
  b_status :: bind_stat
  b_sess_id :: nat

record worker =
  worker_npf_data :: wrk_ls
  worker_id :: nat
  w_npf :: bool
  w_router :: "nat option"
  w_bind :: worker_bind
  net_if :: "nat option"
  napi_idx :: nat

record npf_router =
  r_npf :: bool
  pktqueue_size :: nat
  r_rtable :: bool
  notfer :: "notifier option"
  worker_count :: nat
  r_workers :: "nat option list"

text \<open>The union of the session context holds one pointer; both members are read through it.\<close>

record wrk_sess =
  s_worker :: "nat option"
  s_type :: nat

definition BSTGW_TRUST_ROUTER_UNBOUND_SESSION :: nat where "BSTGW_TRUST_ROUTER_UNBOUND_SESSION = 0"
definition BSTGW_TRUST_ROUTER_CLEANER_SESSION :: nat where "BSTGW_TRUST_ROUTER_CLEANER_SESSION = 1"
definition BSTGW_TRUST_ROUTER_WORKER_SESSION :: nat where "BSTGW_TRUST_ROUTER_WORKER_SESSION = 2"

lemmas session_types = BSTGW_TRUST_ROUTER_UNBOUND_SESSION_def BSTGW_TRUST_ROUTER_CLEANER_SESSION_def BSTGW_TRUST_ROUTER_WORKER_SESSION_def

text \<open>
  \<open>sessions\<close> maps the identifier of an open session to its context, \<open>Some None\<close> while it has none. \<open>npf_data\<close> is the
  storage NPF keeps for its own worker.
\<close>

record ('th, 'lp, 'n) ctl =
  rs :: "('th, 'lp, 'n) rstate"
  routers :: "nat \<Rightarrow> npf_router option"
  trusted_router :: "nat option"
  wrks :: "nat \<Rightarrow> worker option"
  npf_data :: "nat \<Rightarrow> wrk_ls option"
  sessions :: "nat \<Rightarrow> wrk_sess option option"
  next_ptr :: nat
  list_slock :: bool

record 'n npf_ops =
  npfk_thread_register :: "'n \<Rightarrow> wrk_ls \<Rightarrow> 'n \<times> wrk_ls"
  npfk_thread_unregister :: "'n \<Rightarrow> wrk_ls \<Rightarrow> 'n \<times> wrk_ls"
  npfk_bind_npfworker :: "'n \<Rightarrow> nat option \<times> 'n"
  npfk_unbind_npfworker :: "'n \<Rightarrow> 'n"

section \<open>Storage of the current worker\<close>

definition get_worker_local_data :: "nat \<Rightarrow> ('th, 'lp, 'n) ctl \<Rightarrow> nat option res" where
  "get_worker_local_data sid st =
     (case sessions st sid of None \<Rightarrow> Inr None | Some None \<Rightarrow> Inr None
      | Some (Some c) \<Rightarrow> (case s_worker c of None \<Rightarrow> Inl Panic | Some p \<Rightarrow> Inr (Some p)))"

text \<open>The pointer is read as one to a \<open>wrk_ls_t\<close>: the first field of a worker, or the storage of NPF's worker.\<close>

definition read_wls :: "nat \<Rightarrow> ('th, 'lp, 'n) ctl \<Rightarrow> wrk_ls res" where
  "read_wls p st = (case wrks st p of Some w \<Rightarrow> Inr (worker_npf_data w)
     | None \<Rightarrow> (case npf_data st p of Some d \<Rightarrow> Inr d | None \<Rightarrow> Inl Null_deref))"

definition write_wls :: "nat \<Rightarrow> wrk_ls \<Rightarrow> ('th, 'lp, 'n) ctl \<Rightarrow> ('th, 'lp, 'n) ctl" where
  "write_wls p d st = (case wrks st p of Some w \<Rightarrow> st\<lparr>wrks := (wrks st)(p \<mapsto> w\<lparr>worker_npf_data := d\<rparr>)\<rparr>
     | None \<Rightarrow> st\<lparr>npf_data := (npf_data st)(p \<mapsto> d)\<rparr>)"

definition get_worker_epoch :: "nat \<Rightarrow> ('th, 'lp, 'n) ctl \<Rightarrow> nat option res" where
  "get_worker_epoch sid st = bind_res (get_worker_local_data sid st) (\<lambda>p.
     case p of None \<Rightarrow> Inl Panic | Some p \<Rightarrow> bind_res (read_wls p st) (\<lambda>d. Inr (ebr_tls d)))"

definition set_worker_epoch :: "nat \<Rightarrow> nat option \<Rightarrow> ('th, 'lp, 'n) ctl \<Rightarrow> (int \<times> ('th, 'lp, 'n) ctl) res" where
  "set_worker_epoch sid t st = bind_res (get_worker_local_data sid st) (\<lambda>p.
     case p of None \<Rightarrow> Inl Panic | Some p \<Rightarrow> bind_res (read_wls p st) (\<lambda>d. Inr (0, write_wls p (d\<lparr>ebr_tls := t\<rparr>) st)))"

definition get_worker_stats :: "nat \<Rightarrow> ('th, 'lp, 'n) ctl \<Rightarrow> nat option res" where
  "get_worker_stats sid st = bind_res (get_worker_local_data sid st) (\<lambda>p.
     case p of None \<Rightarrow> Inl Assert_failed | Some p \<Rightarrow> bind_res (read_wls p st) (\<lambda>d. Inr (npf_stats_tls d)))"

definition set_worker_stats :: "nat \<Rightarrow> nat option \<Rightarrow> ('th, 'lp, 'n) ctl \<Rightarrow> (int \<times> ('th, 'lp, 'n) ctl) res" where
  "set_worker_stats sid t st = bind_res (get_worker_local_data sid st) (\<lambda>p.
     case p of None \<Rightarrow> Inl Assert_failed | Some p \<Rightarrow> bind_res (read_wls p st) (\<lambda>d. Inr (0, write_wls p (d\<lparr>npf_stats_tls := t\<rparr>) st)))"

text \<open>A call into NPF that works on the storage of the current session's worker, which it reaches by the functions above.\<close>

definition npf_thread :: "('n \<Rightarrow> wrk_ls \<Rightarrow> 'n \<times> wrk_ls) \<Rightarrow> nat \<Rightarrow> ('th, 'lp, 'n) ctl \<Rightarrow> ('th, 'lp, 'n) ctl res" where
  "npf_thread f sid st = bind_res (get_worker_local_data sid st) (\<lambda>p.
     case p of None \<Rightarrow> Inl Panic
     | Some p \<Rightarrow> bind_res (read_wls p st) (\<lambda>d. case f (npfst (rs st)) d of (n, d') \<Rightarrow>
         Inr (write_wls p d' (st\<lparr>rs := (rs st)\<lparr>npfst := n\<rparr>\<rparr>))))"

section \<open>Binding workers\<close>

definition worker_get_number :: "('th, 'lp, 'n) ctl \<Rightarrow> int res" where
  "worker_get_number st = (case trusted_router st of None \<Rightarrow> Inr (-1)
     | Some r \<Rightarrow> (case routers st r of None \<Rightarrow> Inl Null_deref | Some R \<Rightarrow> Inr (int (worker_count R))))"

fun bind_loop :: "'n npf_ops \<Rightarrow> nat \<Rightarrow> wrk_sess \<Rightarrow> nat option list \<Rightarrow> ('th, 'lp, 'n) ctl \<Rightarrow> (nat option \<times> ('th, 'lp, 'n) ctl) res" where
  "bind_loop x sid c [] st = Inr (None, st)"
| "bind_loop x sid c (None # ws) st = bind_loop x sid c ws st"
| "bind_loop x sid c (Some p # ws) st =
     (case wrks st p of None \<Rightarrow> Inl Null_deref
      | Some w \<Rightarrow>
          if b_status (w_bind w) = WORKER_UNBOUND then
            bind_res (npf_thread (npfk_thread_register x) sid
              (st\<lparr>wrks := (wrks st)(p \<mapsto> w\<lparr>w_bind := \<lparr>b_status = WORKER_IS_BOUND, b_sess_id = sid\<rparr>\<rparr>),
                  sessions := (sessions st)(sid \<mapsto> Some (c\<lparr>s_worker := Some p\<rparr>))\<rparr>)) (\<lambda>st'. Inr (Some p, st'))
          else bind_loop x sid c ws st)"

definition bind_to_worker :: "'n npf_ops \<Rightarrow> nat \<Rightarrow> ('th, 'lp, 'n) ctl \<Rightarrow> (nat option \<times> ('th, 'lp, 'n) ctl) res" where
  "bind_to_worker x sid st =
     (case trusted_router st of None \<Rightarrow> Inr (None, st)
      | Some r \<Rightarrow>
          (case sessions st sid of None \<Rightarrow> Inr (None, st) | Some None \<Rightarrow> Inr (None, st)
           | Some (Some c) \<Rightarrow>
               (case routers st r of None \<Rightarrow> Inl Null_deref
                | Some R \<Rightarrow> bind_loop x sid c (take (worker_count R) (r_workers R)) st)))"

definition detach_nw_from_worker :: "'n npf_ops \<Rightarrow> nat \<Rightarrow> nat option \<Rightarrow> ('th, 'lp, 'n) ctl \<Rightarrow> ('th, 'lp, 'n) ctl res" where
  "detach_nw_from_worker x sid wp st =
     (case wp of None \<Rightarrow> Inr st
      | Some p \<Rightarrow>
          (case wrks st p of None \<Rightarrow> Inl Null_deref
           | Some w \<Rightarrow>
               (case w_router w of None \<Rightarrow> Inl Panic
                | Some r \<Rightarrow>
                    (case routers st r of None \<Rightarrow> Inl Null_deref
                     | Some R \<Rightarrow>
                         if \<not> r_npf R then Inl Panic
                         else npf_thread (npfk_thread_unregister x) sid
                           (st\<lparr>wrks := (wrks st)(p \<mapsto> w\<lparr>w_bind := \<lparr>b_status = WORKER_UNBOUND, b_sess_id = 0\<rparr>\<rparr>)\<rparr>)))))"

definition bind_to_npfworker :: "'n npf_ops \<Rightarrow> ('th, 'lp, 'n) ctl \<Rightarrow> nat option \<times> ('th, 'lp, 'n) ctl" where
  "bind_to_npfworker x st =
     (if trusted_router st = None then (None, st)
      else case npfk_bind_npfworker x (npfst (rs st)) of (d, n) \<Rightarrow> (d, st\<lparr>rs := (rs st)\<lparr>npfst := n\<rparr>\<rparr>))"

definition detach_nw_from_npfworker :: "'n npf_ops \<Rightarrow> ('th, 'lp, 'n) ctl \<Rightarrow> ('th, 'lp, 'n) ctl" where
  "detach_nw_from_npfworker x st =
     (if trusted_router st = None then st else st\<lparr>rs := (rs st)\<lparr>npfst := npfk_unbind_npfworker x (npfst (rs st))\<rparr>\<rparr>)"

section \<open>Opening and closing a session\<close>

text \<open>The kinds of the four parameters, four bits each, as the internal core API of the TEE defines them.\<close>

definition TEE_PARAM_TYPES :: "nat \<Rightarrow> nat \<Rightarrow> nat \<Rightarrow> nat \<Rightarrow> nat" where
  "TEE_PARAM_TYPES a b c d = a + 16 * b + 256 * c + 4096 * d"

definition TEE_PARAM_TYPE_NONE :: nat where "TEE_PARAM_TYPE_NONE = 0"
definition TEE_PARAM_TYPE_VALUE_INPUT :: nat where "TEE_PARAM_TYPE_VALUE_INPUT = 1"
definition TEE_PARAM_TYPE_VALUE_OUTPUT :: nat where "TEE_PARAM_TYPE_VALUE_OUTPUT = 2"
definition TEE_PARAM_TYPE_MEMREF_INPUT :: nat where "TEE_PARAM_TYPE_MEMREF_INPUT = 5"
definition TEE_PARAM_TYPE_MEMREF_OUTPUT :: nat where "TEE_PARAM_TYPE_MEMREF_OUTPUT = 6"

definition no_params :: nat where
  "no_params = TEE_PARAM_TYPES TEE_PARAM_TYPE_NONE TEE_PARAM_TYPE_NONE TEE_PARAM_TYPE_NONE TEE_PARAM_TYPE_NONE"

definition one_param :: "nat \<Rightarrow> nat" where
  "one_param t = TEE_PARAM_TYPES t TEE_PARAM_TYPE_NONE TEE_PARAM_TYPE_NONE TEE_PARAM_TYPE_NONE"

text \<open>
  \<open>sess_ctx\<close> is the address of the context field of the session itself. The two error paths free that address instead
  of the context it holds.
\<close>

definition open_session :: "'n npf_ops \<Rightarrow> nat \<Rightarrow> nat \<Rightarrow> nat \<Rightarrow> ('th, 'lp, 'n) ctl \<Rightarrow> (tee_result \<times> ('th, 'lp, 'n) ctl) res" where
  "open_session x sid param_types sess_type st =
     (if param_types \<noteq> one_param TEE_PARAM_TYPE_VALUE_INPUT then Inr (TEE_ERROR_BAD_PARAMETERS, st)
      else if sess_type \<notin> {BSTGW_TRUST_ROUTER_UNBOUND_SESSION, BSTGW_TRUST_ROUTER_CLEANER_SESSION, BSTGW_TRUST_ROUTER_WORKER_SESSION}
      then Inr (TEE_ERROR_BAD_PARAMETERS, st)
      else case heap_alloc (rs st) of (ok, rs1) \<Rightarrow>
        let st1 = st\<lparr>rs := rs1, sessions := (sessions st)(sid \<mapsto> if ok then Some \<lparr>s_worker = None, s_type = sess_type\<rparr> else None)\<rparr> in
        if \<not> ok then Inr (TEE_ERROR_OUT_OF_MEMORY, st1)
        else if sess_type = BSTGW_TRUST_ROUTER_WORKER_SESSION then
          bind_res (bind_to_worker x sid st1) (\<lambda>(_, st2).
          case sessions st2 sid of Some (Some c) \<Rightarrow> if s_worker c = None then Inl Bad_free else Inr (TEE_SUCCESS, st2) | _ \<Rightarrow> Inl Null_deref)
        else if sess_type = BSTGW_TRUST_ROUTER_CLEANER_SESSION then
          (case bind_to_npfworker x st1 of (d, st2) \<Rightarrow>
             if d = None then Inl Bad_free
             else Inr (TEE_SUCCESS, st2\<lparr>sessions := (sessions st2)(sid \<mapsto> Some \<lparr>s_worker = d, s_type = sess_type\<rparr>)\<rparr>))
        else Inr (TEE_SUCCESS, st1))"

definition close_session :: "'n npf_ops \<Rightarrow> nat \<Rightarrow> ('th, 'lp, 'n) ctl \<Rightarrow> ('th, 'lp, 'n) ctl res" where
  "close_session x sid st =
     (case sessions st sid of
        Some (Some c) \<Rightarrow>
          bind_res (if s_type c = BSTGW_TRUST_ROUTER_CLEANER_SESSION
                    then Inr (if s_worker c = None then st else detach_nw_from_npfworker x st)
                    else if s_type c = BSTGW_TRUST_ROUTER_WORKER_SESSION then detach_nw_from_worker x sid (s_worker c) st
                    else Inr st)
            (\<lambda>st1. Inr (st1\<lparr>sessions := (sessions st1)(sid \<mapsto> None)\<rparr>))
      | _ \<Rightarrow> Inr st)"

section \<open>Commands\<close>

record ('v, 'n) nv_ops =
  nvlist_create :: 'v
  nvlist_add_null :: "'v \<Rightarrow> string \<Rightarrow> 'v"
  nvlist_add_number :: "'v \<Rightarrow> string \<Rightarrow> u64 \<Rightarrow> 'v"
  nvlist_add_string :: "'v \<Rightarrow> string \<Rightarrow> string \<Rightarrow> 'v"
  nvlist_move_nvlist :: "'v \<Rightarrow> string \<Rightarrow> 'v \<Rightarrow> 'v"
  nvlist_error :: "'v \<Rightarrow> bool"
  nvlist_unpack :: "byte list \<Rightarrow> 'v option"
  nvlist_pack :: "'v \<Rightarrow> byte list option"
  dnvlist_get_number :: "'v \<Rightarrow> string \<Rightarrow> u64 \<Rightarrow> u64"
  ioc_query_netifs :: u64
  npf_version :: u64
  npfctl_run_op :: "'n \<Rightarrow> u64 \<Rightarrow> 'v \<Rightarrow> 'v \<Rightarrow> 'n \<times> 'v"

text \<open>The description of the devices (\<open>if_netdev.c\<close>). A list that cannot be allocated is \<open>None\<close>.\<close>

definition new_nvlist :: "('v, 'n) nv_ops \<Rightarrow> ('th, 'lp, 'n) rstate \<Rightarrow> 'v option \<times> ('th, 'lp, 'n) rstate" where
  "new_nvlist v st = (case heap_alloc st of (ok, st1) \<Rightarrow> (if ok then Some (nvlist_create v) else None, st1))"

text \<open>The name of entry \<open>k\<close>, \<open>"ip%u"\<close>; there are fewer than ten of them.\<close>

definition ip_name :: "nat \<Rightarrow> string" where
  "ip_name k = ''ip'' @ [char_of (48 + k)]"

definition ip4_nbo :: "byte list \<Rightarrow> u64" where
  "ip4_nbo a = of_nat (\<Sum>i < 4. unat (a ! i) * 256 ^ i)"

fun descr_loop :: "('v, 'n) nv_ops \<Rightarrow> 'th ifnet \<Rightarrow> nat list \<Rightarrow> 'v \<Rightarrow> ('th, 'lp, 'n) rstate \<Rightarrow> ('v \<times> ('th, 'lp, 'n) rstate) res" where
  "descr_loop v ifp [] descr st = Inr (descr, st)"
| "descr_loop v ifp (k # ks) descr st =
     (case new_nvlist v st of (None, st1) \<Rightarrow> Inr (descr, st1)
      | (Some a, st1) \<Rightarrow>
          if \<not> k < length (if_ips ifp) \<or> length (if_ips ifp ! k) < 4 then Inl Out_of_bounds
          else descr_loop v ifp ks (nvlist_move_nvlist v descr (ip_name k)
                 (nvlist_add_number v (nvlist_add_number v a ''addr_type'' (of_int AF_INET)) ''ip_addr_nbo'' (ip4_nbo (if_ips ifp ! k)))) st1)"

definition ifnet_dev_get_description :: "('v, 'n) nv_ops \<Rightarrow> 'th ifnet \<Rightarrow> ('th, 'lp, 'n) rstate \<Rightarrow> ('v option \<times> ('th, 'lp, 'n) rstate) res" where
  "ifnet_dev_get_description v ifp st =
     (case new_nvlist v st of (None, st1) \<Rightarrow> Inr (None, st1)
      | (Some d, st1) \<Rightarrow>
          bind_res (descr_loop v ifp [0..<BSTGW_MAX_NETIF_IPS]
              (nvlist_add_number v (nvlist_add_string v d ''name'' (if_name ifp)) ''idx'' (of_nat (ifnet_idx ifp))) st1)
            (\<lambda>(d', st2). Inr (Some d', st2)))"

fun descr_list_loop :: "('v, 'n) nv_ops \<Rightarrow> nat list \<Rightarrow> 'v \<Rightarrow> ('th, 'lp, 'n) rstate \<Rightarrow> ('v option \<times> ('th, 'lp, 'n) rstate) res" where
  "descr_list_loop v [] l st = Inr (Some l, st)"
| "descr_list_loop v (p # ps) l st =
     bind_res (get_dev p st) (\<lambda>ifp.
     bind_res (ifnet_dev_get_description v ifp st) (\<lambda>(d, st1).
     case d of None \<Rightarrow> Inr (None, st1)
     | Some d \<Rightarrow> descr_list_loop v ps (nvlist_move_nvlist v l (if_name ifp) d) st1))"

definition ifnet_get_descr_list :: "('v, 'n) nv_ops \<Rightarrow> ('th, 'lp, 'n) rstate \<Rightarrow> ('v option \<times> ('th, 'lp, 'n) rstate) res" where
  "ifnet_get_descr_list v st =
     (case new_nvlist v st of (None, st1) \<Rightarrow> Inr (None, st1)
      | (Some l, st1) \<Rightarrow>
          bind_res (descr_list_loop v (netdev_list (nd st1)) (nvlist_add_null v l ''ifs_list'') st1) (\<lambda>(r, st2).
            case r of None \<Rightarrow> Inr (None, st2) | Some l' \<Rightarrow> Inr (if nvlist_error v l' then None else Some l', st2)))"

text \<open>The number -1 as the name/value list stores it.\<close>

definition minus_one :: u64 where "minus_one = - 1"

definition bstgw_npfctl_cmd :: "('v, 'n) nv_ops \<Rightarrow> u64 \<Rightarrow> 'v \<Rightarrow> 'v \<Rightarrow> ('th, 'lp, 'n) ctl \<Rightarrow> (int \<times> 'v \<times> ('th, 'lp, 'n) ctl) res" where
  "bstgw_npfctl_cmd v op req resp st =
     (case trusted_router st of None \<Rightarrow> Inr (-1, resp, st)
      | Some r \<Rightarrow>
          (case routers st r of None \<Rightarrow> Inl Null_deref
           | Some R \<Rightarrow>
               if \<not> r_npf R then Inr (-1, resp, st)
               else if op = ioc_query_netifs v then
                 let resp1 = nvlist_add_number v resp ''version'' (npf_version v) in
                 bind_res (ifnet_get_descr_list v (rs st)) (\<lambda>(l, rs1).
                 case l of None \<Rightarrow> Inr (-1, nvlist_add_number v resp1 ''errno'' minus_one, st\<lparr>rs := rs1\<rparr>)
                 | Some l \<Rightarrow>
                     let resp2 = nvlist_move_nvlist v resp1 ''ifs_list'' l in
                     if nvlist_error v resp2 then Inr (-1, nvlist_add_number v resp2 ''errno'' minus_one, st\<lparr>rs := rs1\<rparr>)
                     else Inr (0, nvlist_add_number v resp2 ''errno'' 0, st\<lparr>rs := rs1\<rparr>))
               else case npfctl_run_op v (npfst (rs st)) op req resp of (n, resp') \<Rightarrow> Inr (0, resp', st\<lparr>rs := (rs st)\<lparr>npfst := n\<rparr>\<rparr>)))"

text \<open>The caller of a command: the session of another trusted application, whether it is a user one, and its UUID.\<close>

type_synonym uuid = "nat \<times> nat \<times> nat \<times> nat list"
type_synonym caller = "(bool \<times> uuid) option"

definition BSTGW_TA_WEB_STUB_UUID :: uuid where
  "BSTGW_TA_WEB_STUB_UUID = (0x0b9d11c7, 0x2281, 0x4b24, [0xb5, 0xf0, 0x6c, 0x15, 0xe1, 0x08, 0x85, 0xfb])"

definition bstgw_called_by_trusted_app :: "caller \<Rightarrow> uuid \<Rightarrow> tee_result" where
  "bstgw_called_by_trusted_app cl ref_ta_uuid =
     (case cl of None \<Rightarrow> TEE_ERROR_ACCESS_DENIED
      | Some (is_user_ta, u) \<Rightarrow> if \<not> is_user_ta then TEE_ERROR_ACCESS_DENIED
          else if u \<noteq> ref_ta_uuid then TEE_ERROR_ACCESS_DENIED else TEE_SUCCESS)"

text \<open>
  What a command leaves in the parameters: a value in the first, bytes in the second. \<open>Enter_worker\<close> and
  \<open>Enter_cleaner\<close> are the calls that go into the loop of a worker or of the notifier, which theory \<open>Napi\<close> describes.
\<close>

datatype outcome = Return tee_result | Return_value int | Return_bytes "byte list" | Enter_worker nat | Enter_cleaner

definition config_params :: nat where
  "config_params = TEE_PARAM_TYPES TEE_PARAM_TYPE_MEMREF_INPUT TEE_PARAM_TYPE_MEMREF_OUTPUT TEE_PARAM_TYPE_NONE TEE_PARAM_TYPE_NONE"

definition bstgw_firewall_config :: "('v, 'n) nv_ops \<Rightarrow> caller \<Rightarrow> nat \<Rightarrow> byte list \<Rightarrow> nat \<Rightarrow> ('th, 'lp, 'n) ctl \<Rightarrow>
    (outcome \<times> ('th, 'lp, 'n) ctl) res" where
  "bstgw_firewall_config v cl param_types req_buf resp_buf_len st =
     (let r = bstgw_called_by_trusted_app cl BSTGW_TA_WEB_STUB_UUID in
      if r \<noteq> TEE_SUCCESS then Inr (Return r, st)
      else if param_types \<noteq> config_params then Inr (Return TEE_ERROR_BAD_PARAMETERS, st)
      else case nvlist_unpack v req_buf of None \<Rightarrow> Inr (Return TEE_ERROR_BAD_FORMAT, st)
      | Some req \<Rightarrow>
          (case new_nvlist v (rs st) of (None, rs1) \<Rightarrow> Inr (Return TEE_ERROR_OUT_OF_MEMORY, st\<lparr>rs := rs1\<rparr>)
           | (Some resp, rs1) \<Rightarrow>
               bind_res (bstgw_npfctl_cmd v (dnvlist_get_number v req ''operation'' minus_one) req resp (st\<lparr>rs := rs1\<rparr>))
               (\<lambda>(e, resp', st2).
               if e \<noteq> 0 then Inr (Return TEE_ERROR_GENERIC, st2)
               else case nvlist_pack v resp' of None \<Rightarrow> Inr (Return TEE_ERROR_OUT_OF_MEMORY, st2)
               | Some packed_resp \<Rightarrow>
                   if resp_buf_len < length packed_resp then Inr (Return TEE_ERROR_SHORT_BUFFER, st2)
                   else Inr (Return_bytes packed_resp, st2))))"

definition cmd_get_nworkers :: "nat \<Rightarrow> ('th, 'lp, 'n) ctl \<Rightarrow> outcome res" where
  "cmd_get_nworkers param_types st =
     (if param_types \<noteq> one_param TEE_PARAM_TYPE_VALUE_OUTPUT then Inr (Return TEE_ERROR_BAD_PARAMETERS)
      else bind_res (worker_get_number st) (\<lambda>n. Inr (Return_value n)))"

definition bstgw_get_some_stats :: "nat \<Rightarrow> outcome" where
  "bstgw_get_some_stats param_types =
     (if param_types \<noteq> one_param TEE_PARAM_TYPE_VALUE_OUTPUT then Return TEE_ERROR_BAD_PARAMETERS else Return_value 0)"

definition cmd_run_cleaner :: "('th, 'lp, 'n) ctl \<Rightarrow> outcome res" where
  "cmd_run_cleaner st = (if trusted_router st = None then Inl Assert_failed else Inr Enter_cleaner)"

definition cmd_run_worker :: "wrk_sess \<Rightarrow> ('th, 'lp, 'n) ctl \<Rightarrow> outcome res" where
  "cmd_run_worker rtr_sess st =
     (case s_worker rtr_sess of None \<Rightarrow> Inl Assert_failed
      | Some p \<Rightarrow>
          if trusted_router st = None then Inl Assert_failed
          else case wrks st p of None \<Rightarrow> Inl Null_deref
          | Some w \<Rightarrow>
              (case net_if w of None \<Rightarrow> Inr (Return TEE_SUCCESS)
               | Some d \<Rightarrow> bind_res (get_dev d (rs st)) (\<lambda>ifp.
                   if \<not> napi_idx w < length (napis ifp) then Inl Out_of_bounds
                   else if napis ifp ! napi_idx w = None then Inl Assert_failed else Inr (Enter_worker p))))"

definition BSTGW_PTA_TRUST_ROUTER_CMD_CONFIG :: nat where "BSTGW_PTA_TRUST_ROUTER_CMD_CONFIG = 0"
definition BSTGW_PTA_TRUST_ROUTER_CMD_GET_NWORKERS :: nat where "BSTGW_PTA_TRUST_ROUTER_CMD_GET_NWORKERS = 1"
definition BSTGW_PTA_TRUST_ROUTER_CMD_RUN_CLEANER :: nat where "BSTGW_PTA_TRUST_ROUTER_CMD_RUN_CLEANER = 2"
definition BSTGW_PTA_TRUST_ROUTER_CMD_RUN_WORKER :: nat where "BSTGW_PTA_TRUST_ROUTER_CMD_RUN_WORKER = 3"
definition BSTGW_PTA_TRUST_ROUTER_GET_STATS :: nat where "BSTGW_PTA_TRUST_ROUTER_GET_STATS = 4"

definition invoke_command :: "('v, 'n) nv_ops \<Rightarrow> caller \<Rightarrow> nat \<Rightarrow> nat \<Rightarrow> nat \<Rightarrow> byte list \<Rightarrow> nat \<Rightarrow> ('th, 'lp, 'n) ctl \<Rightarrow>
    (outcome \<times> ('th, 'lp, 'n) ctl) res" where
  "invoke_command v cl sid cmd_id param_types req_buf resp_buf_len st =
     (case sessions st sid of
        Some (Some sess) \<Rightarrow>
          let unbound = (s_type sess = BSTGW_TRUST_ROUTER_UNBOUND_SESSION); keep = (\<lambda>r. bind_res r (\<lambda>out. Inr (out, st))) in
          if cmd_id = BSTGW_PTA_TRUST_ROUTER_CMD_CONFIG then
            (if \<not> unbound then Inr (Return TEE_ERROR_ACCESS_DENIED, st) else bstgw_firewall_config v cl param_types req_buf resp_buf_len st)
          else if cmd_id = BSTGW_PTA_TRUST_ROUTER_CMD_GET_NWORKERS then (if \<not> unbound then Inr (Return TEE_ERROR_ACCESS_DENIED, st) else keep (cmd_get_nworkers param_types st))
          else if cmd_id = BSTGW_PTA_TRUST_ROUTER_GET_STATS then (if \<not> unbound then Inr (Return TEE_ERROR_ACCESS_DENIED, st) else Inr (bstgw_get_some_stats param_types, st))
          else if cmd_id = BSTGW_PTA_TRUST_ROUTER_CMD_RUN_CLEANER then
            (if s_type sess \<noteq> BSTGW_TRUST_ROUTER_CLEANER_SESSION then Inr (Return TEE_ERROR_ACCESS_DENIED, st)
             else if param_types \<noteq> no_params then Inr (Return TEE_ERROR_BAD_PARAMETERS, st)
             else keep (cmd_run_cleaner st))
          else if cmd_id = BSTGW_PTA_TRUST_ROUTER_CMD_RUN_WORKER then
            (if s_type sess \<noteq> BSTGW_TRUST_ROUTER_WORKER_SESSION then Inr (Return TEE_ERROR_ACCESS_DENIED, st)
             else if param_types \<noteq> no_params then Inr (Return TEE_ERROR_BAD_PARAMETERS, st)
             else keep (cmd_run_worker sess st))
          else Inr (Return TEE_ERROR_NOT_IMPLEMENTED, st)
      | _ \<Rightarrow> Inr (Return TEE_ERROR_GENERIC, st))"

section \<open>Workers and sessions\<close>

definition router_ok :: "nat \<Rightarrow> npf_router \<Rightarrow> ('th, 'lp, 'n) ctl \<Rightarrow> bool" where
  "router_ok r R st \<longleftrightarrow> trusted_router st = Some r \<and> routers st r = Some R \<and> r_npf R \<and> length (r_workers R) = worker_count R \<and>
     (\<forall>p. Some p \<in> set (r_workers R) \<longrightarrow> (\<exists>w. wrks st p = Some w \<and> w_router w = Some r))"

definition worker_session :: "('th, 'lp, 'n) ctl \<Rightarrow> nat \<Rightarrow> nat \<Rightarrow> bool" where
  "worker_session st sid p \<longleftrightarrow> (\<exists>c. sessions st sid = Some (Some c) \<and> s_type c = BSTGW_TRUST_ROUTER_WORKER_SESSION \<and> s_worker c = Some p)"

definition bound_to :: "('th, 'lp, 'n) ctl \<Rightarrow> nat \<Rightarrow> nat \<Rightarrow> bool" where
  "bound_to st p sid \<longleftrightarrow> (\<exists>w. wrks st p = Some w \<and> w_bind w = \<lparr>b_status = WORKER_IS_BOUND, b_sess_id = sid\<rparr>)"

text \<open>A worker session has a worker of the router that is bound to it, and a bound worker has such a session.\<close>

definition bind_inv :: "('th, 'lp, 'n) ctl \<Rightarrow> bool" where
  "bind_inv st \<longleftrightarrow> (\<exists>r R. router_ok r R st \<and>
     (\<forall>sid c. sessions st sid = Some (Some c) \<and> s_type c = BSTGW_TRUST_ROUTER_WORKER_SESSION \<longrightarrow>
        (\<exists>p. s_worker c = Some p \<and> Some p \<in> set (r_workers R) \<and> bound_to st p sid)) \<and>
     (\<forall>p sid. Some p \<in> set (r_workers R) \<and> bound_to st p sid \<longrightarrow> worker_session st sid p))"

definition unbound :: "('th, 'lp, 'n) ctl \<Rightarrow> nat option \<Rightarrow> bool" where
  "unbound st wp \<longleftrightarrow> (\<exists>p w. wp = Some p \<and> wrks st p = Some w \<and> b_status (w_bind w) = WORKER_UNBOUND)"

lemma unbound_simps [simp]: "\<not> unbound st None"
  "unbound st (Some p) \<longleftrightarrow> (\<exists>w. wrks st p = Some w \<and> b_status (w_bind w) = WORKER_UNBOUND)"
  by (simp_all add: unbound_def)

text \<open>What binding worker \<open>p\<close> to a session leaves, with what NPF's registration returns.\<close>

definition bind_at :: "'n npf_ops \<Rightarrow> nat \<Rightarrow> wrk_sess \<Rightarrow> nat \<Rightarrow> worker \<Rightarrow> ('th, 'lp, 'n) ctl \<Rightarrow> ('th, 'lp, 'n) ctl" where
  "bind_at x sid c p w st = (case npfk_thread_register x (npfst (rs st)) (worker_npf_data w) of (n, d) \<Rightarrow>
     st\<lparr>rs := (rs st)\<lparr>npfst := n\<rparr>, wrks := (wrks st)(p \<mapsto> w\<lparr>w_bind := \<lparr>b_status = WORKER_IS_BOUND, b_sess_id = sid\<rparr>, worker_npf_data := d\<rparr>),
        sessions := (sessions st)(sid \<mapsto> Some (c\<lparr>s_worker := Some p\<rparr>))\<rparr>)"

lemma bind_loop_spec:
  assumes "\<forall>p. Some p \<in> set ws \<longrightarrow> wrks st p \<noteq> None"
  shows "bind_loop x sid c ws st = (case find (unbound st) ws of
     Some (Some p) \<Rightarrow> Inr (Some p, bind_at x sid c p (the (wrks st p)) st) | _ \<Rightarrow> Inr (None, st))"
  using assms
proof (induction ws)
  case (Cons a ws)
  have ih: "bind_loop x sid c ws st = (case find (unbound st) ws of
     Some (Some p) \<Rightarrow> Inr (Some p, bind_at x sid c p (the (wrks st p)) st) | _ \<Rightarrow> Inr (None, st))" using Cons by simp
  show ?case
  proof (cases a)
    case None
    then show ?thesis using ih by simp
  next
    case (Some p)
    then obtain w where w: "wrks st p = Some w" using Cons.prems by auto
    then show ?thesis
      using ih Some by (auto simp: npf_thread_def get_worker_local_data_def read_wls_def write_wls_def bind_at_def split: prod.splits)
  qed
qed simp

lemma find_unbound:
  assumes "find (unbound st) ws = Some wp"
  shows "wp \<in> set ws \<and> (\<exists>p w. wp = Some p \<and> wrks st p = Some w \<and> b_status (w_bind w) = WORKER_UNBOUND)"
proof -
  have "wp \<in> set ws" "unbound st wp" using assms by (auto simp: find_Some_iff)
  then show ?thesis unfolding unbound_def by blast
qed

text \<open>Opening a worker session with enough memory binds the first free worker; with none left the wrong pointer is freed.\<close>

lemma open_worker_session:
  assumes "router_ok r R st" "alloc_ok (pool (rs st)) (clk (pool (rs st)))"
  shows "open_session x sid (one_param TEE_PARAM_TYPE_VALUE_INPUT) BSTGW_TRUST_ROUTER_WORKER_SESSION st =
    (case find (unbound st) (r_workers R) of
       Some (Some p) \<Rightarrow> Inr (TEE_SUCCESS, bind_at x sid \<lparr>s_worker = None, s_type = BSTGW_TRUST_ROUTER_WORKER_SESSION\<rparr> p (the (wrks st p))
         (st\<lparr>rs := snd (heap_alloc (rs st)), sessions := (sessions st)(sid \<mapsto> Some \<lparr>s_worker = None, s_type = BSTGW_TRUST_ROUTER_WORKER_SESSION\<rparr>)\<rparr>))
     | _ \<Rightarrow> Inl Bad_free)"
proof -
  let ?c = "\<lparr>s_worker = None, s_type = BSTGW_TRUST_ROUTER_WORKER_SESSION\<rparr>"
  let ?st = "st\<lparr>rs := snd (heap_alloc (rs st)), sessions := (sessions st)(sid \<mapsto> Some ?c)\<rparr>"
  have w: "\<forall>p. Some p \<in> set (r_workers R) \<longrightarrow> wrks ?st p \<noteq> None" using assms(1) by (auto simp: router_ok_def)
  have u: "unbound ?st = unbound st" by (simp add: fun_eq_iff unbound_def)
  have "bind_to_worker x sid ?st = bind_loop x sid ?c (r_workers R) ?st"
    using assms(1) by (simp add: bind_to_worker_def router_ok_def)
  then show ?thesis
    using assms(2) bind_loop_spec [OF w, of x sid ?c] unfolding u
    by (auto simp: open_session_def heap_alloc_def Let_def session_types bind_at_def split: option.splits prod.splits dest: find_unbound)
qed

inductive ctl_step :: "'n npf_ops \<Rightarrow> ('v, 'n) nv_ops \<Rightarrow> ('th, 'lp, 'n) ctl \<Rightarrow> ('th, 'lp, 'n) ctl \<Rightarrow> bool" for x v where
  opens: "sessions st sid = None \<Longrightarrow> open_session x sid types ty st = Inr (TEE_SUCCESS, st') \<Longrightarrow> ctl_step x v st st'"
| refused: "sessions st sid = None \<Longrightarrow> open_session x sid types ty st = Inr (r, st') \<Longrightarrow> r \<noteq> TEE_SUCCESS \<Longrightarrow>
    ctl_step x v st (st'\<lparr>sessions := (sessions st')(sid := None)\<rparr>)"
| closes: "close_session x sid st = Inr st' \<Longrightarrow> ctl_step x v st (st'\<lparr>sessions := (sessions st')(sid := None)\<rparr>)"
| invokes: "invoke_command v cl sid cmd types req len st = Inr (out, st') \<Longrightarrow> ctl_step x v st st'"

inductive ctl_run :: "'n npf_ops \<Rightarrow> ('v, 'n) nv_ops \<Rightarrow> ('th, 'lp, 'n) ctl \<Rightarrow> ('th, 'lp, 'n) ctl \<Rightarrow> bool" for x v where
  run_refl: "ctl_run x v st st"
| run_step: "ctl_run x v st st1 \<Longrightarrow> ctl_step x v st1 st2 \<Longrightarrow> ctl_run x v st st2"

lemma find_none_iff: "find P xs = None \<longleftrightarrow> (\<forall>y \<in> set xs. \<not> P y)"
  by (induction xs) auto

text \<open>The parts of the state that binding depends on.\<close>

lemma bind_inv_cong:
  assumes "trusted_router st' = trusted_router st" "routers st' = routers st" "wrks st' = wrks st"
    "\<And>sid c. s_type c = BSTGW_TRUST_ROUTER_WORKER_SESSION \<Longrightarrow> sessions st' sid = Some (Some c) \<longleftrightarrow> sessions st sid = Some (Some c)"
  shows "bind_inv st' = bind_inv st"
proof -
  have "worker_session st' = worker_session st" using assms(4) by (auto simp: fun_eq_iff worker_session_def)
  moreover have "bound_to st' = bound_to st" using assms(3) by (simp add: fun_eq_iff bound_to_def)
  moreover have "router_ok r R st' = router_ok r R st" for r R using assms by (simp add: router_ok_def)
  moreover have "(sessions st' sid = Some (Some c) \<and> s_type c = BSTGW_TRUST_ROUTER_WORKER_SESSION) =
    (sessions st sid = Some (Some c) \<and> s_type c = BSTGW_TRUST_ROUTER_WORKER_SESSION)" for sid c using assms(4) by blast
  ultimately show ?thesis unfolding bind_inv_def by simp
qed

lemma other_session_inv:
  assumes "bind_inv st" "sessions st sid = None" "\<And>c. s = Some c \<Longrightarrow> s_type c \<noteq> BSTGW_TRUST_ROUTER_WORKER_SESSION"
  shows "bind_inv (st\<lparr>rs := t, sessions := (sessions st)(sid \<mapsto> s)\<rparr>)" "bind_inv (st\<lparr>rs := t, sessions := (sessions st)(sid := None)\<rparr>)"
  using assms by (subst bind_inv_cong [of _ st]; auto)+

lemma bind_at_inv:
  assumes "bind_inv st" "router_ok r R st" "sessions st sid = None" "Some p \<in> set (r_workers R)" "wrks st p = Some w"
    "b_status (w_bind w) = WORKER_UNBOUND" "s_type c = BSTGW_TRUST_ROUTER_WORKER_SESSION"
  shows "bind_inv (bind_at x sid c p w (st\<lparr>rs := t, sessions := (sessions st)(sid \<mapsto> s)\<rparr>))"
proof -
  let ?st = "bind_at x sid c p w (st\<lparr>rs := t, sessions := (sessions st)(sid \<mapsto> s)\<rparr>)"
  have R: "r' = r \<and> R' = R" if "router_ok r' R' st" for r' R' using that assms(2) by (auto simp: router_ok_def)
  have old: "\<And>i d. sessions st i = Some (Some d) \<Longrightarrow> s_type d = BSTGW_TRUST_ROUTER_WORKER_SESSION \<Longrightarrow>
       \<exists>q. s_worker d = Some q \<and> Some q \<in> set (r_workers R) \<and> bound_to st q i"
    "\<And>q i. Some q \<in> set (r_workers R) \<Longrightarrow> bound_to st q i \<Longrightarrow> worker_session st i q"
    using assms(1) R unfolding bind_inv_def by blast+
  obtain n d where nd: "npfk_thread_register x (npfst t) (worker_npf_data w) = (n, d)" by (cases "npfk_thread_register x (npfst t) (worker_npf_data w)")
  have s: "sessions ?st = (sessions st)(sid \<mapsto> Some (c\<lparr>s_worker := Some p\<rparr>))" using nd by (simp add: bind_at_def)
  have b: "bound_to ?st q i \<longleftrightarrow> (if q = p then i = sid else bound_to st q i)" for q i
    using nd by (auto simp: bind_at_def bound_to_def)
  have nb: "\<not> bound_to st p i" for i using assms(5,6) by (auto simp: bound_to_def)
  have "router_ok r R ?st" using assms(2,5) nd by (auto simp: router_ok_def bind_at_def)
  moreover have "\<exists>q. s_worker e = Some q \<and> Some q \<in> set (r_workers R) \<and> bound_to ?st q i"
    if as: "sessions ?st i = Some (Some e)" "s_type e = BSTGW_TRUST_ROUTER_WORKER_SESSION" for i e
  proof (cases "i = sid")
    case True
    then show ?thesis using as assms(4) unfolding b s by auto
  next
    case False
    then obtain q where q: "s_worker e = Some q" "Some q \<in> set (r_workers R)" "bound_to st q i" using as old(1) [of i e] unfolding s by auto
    then show ?thesis using nb unfolding b by (metis (full_types))
  qed
  moreover have "worker_session ?st i q" if "Some q \<in> set (r_workers R)" "bound_to ?st q i" for q i
    using that old(2) [of q i] assms(3,7) unfolding b s worker_session_def by (auto split: if_splits)
  ultimately show ?thesis unfolding bind_inv_def by blast
qed

lemma open_session_inv:
  assumes "bind_inv st" "sessions st sid = None" "open_session x sid types ty st = Inr (r, st')"
  shows "r = TEE_SUCCESS \<Longrightarrow> bind_inv st'" "r \<noteq> TEE_SUCCESS \<Longrightarrow> bind_inv (st'\<lparr>sessions := (sessions st')(sid := None)\<rparr>)"
proof -
  obtain q Q where q: "router_ok q Q st" using assms(1) by (auto simp: bind_inv_def)
  note oth = other_session_inv [OF assms(1,2)]
  consider "types \<noteq> one_param TEE_PARAM_TYPE_VALUE_INPUT \<or> ty \<notin> {BSTGW_TRUST_ROUTER_UNBOUND_SESSION, BSTGW_TRUST_ROUTER_CLEANER_SESSION, BSTGW_TRUST_ROUTER_WORKER_SESSION}
      \<or> \<not> alloc_ok (pool (rs st)) (clk (pool (rs st)))"
    | "types = one_param TEE_PARAM_TYPE_VALUE_INPUT" "ty = BSTGW_TRUST_ROUTER_WORKER_SESSION" "alloc_ok (pool (rs st)) (clk (pool (rs st)))"
    | "types = one_param TEE_PARAM_TYPE_VALUE_INPUT" "ty \<noteq> BSTGW_TRUST_ROUTER_WORKER_SESSION" "alloc_ok (pool (rs st)) (clk (pool (rs st)))"
      "ty \<in> {BSTGW_TRUST_ROUTER_UNBOUND_SESSION, BSTGW_TRUST_ROUTER_CLEANER_SESSION}" by blast
  then have "(r = TEE_SUCCESS \<longrightarrow> bind_inv st') \<and> (r \<noteq> TEE_SUCCESS \<longrightarrow> bind_inv (st'\<lparr>sessions := (sessions st')(sid := None)\<rparr>))"
  proof cases
    case 1
    have "fun_upd (sessions st) sid None = sessions st" using assms(2) by auto
    with 1 show ?thesis using assms(1,3) oth(2) [of None] by (auto simp: open_session_def heap_alloc_def Let_def split: if_splits)
  next
    case 2
    then show ?thesis
      using assms(3) [unfolded 2(1,2) open_worker_session [OF q 2(3)]] find_unbound [of st "r_workers Q"] bind_at_inv [OF assms(1) q assms(2)]
      by (auto split: option.splits)
  next
    case 3
    then show ?thesis
      using assms(3) oth(1) [of "Some _"]
      by (auto simp: open_session_def heap_alloc_def Let_def session_types bind_to_npfworker_def split: if_splits prod.splits)
  qed
  then show "r = TEE_SUCCESS \<Longrightarrow> bind_inv st'" "r \<noteq> TEE_SUCCESS \<Longrightarrow> bind_inv (st'\<lparr>sessions := (sessions st')(sid := None)\<rparr>)" by blast+
qed

lemma close_session_inv:
  assumes "bind_inv st" "close_session x sid st = Inr st'"
  shows "bind_inv (st'\<lparr>sessions := (sessions st')(sid := None)\<rparr>)"
proof (cases "\<exists>c. sessions st sid = Some (Some c) \<and> s_type c = BSTGW_TRUST_ROUTER_WORKER_SESSION")
  case False
  then have "bind_inv (st'\<lparr>sessions := (sessions st')(sid := None)\<rparr>) = bind_inv st"
    using assms(2)
    by (intro bind_inv_cong) (auto simp: close_session_def detach_nw_from_npfworker_def bind_res_Inr_iff split: option.splits if_splits)
  then show ?thesis using assms(1) by simp
next
  case True
  then obtain c where c: "sessions st sid = Some (Some c)" "s_type c = BSTGW_TRUST_ROUTER_WORKER_SESSION" by blast
  obtain r R where R: "router_ok r R st"
    and old: "\<And>i d. sessions st i = Some (Some d) \<Longrightarrow> s_type d = BSTGW_TRUST_ROUTER_WORKER_SESSION \<Longrightarrow>
       \<exists>q. s_worker d = Some q \<and> Some q \<in> set (r_workers R) \<and> bound_to st q i"
    and bnd: "\<And>q i. Some q \<in> set (r_workers R) \<Longrightarrow> bound_to st q i \<Longrightarrow> worker_session st i q"
    using assms(1) unfolding bind_inv_def by blast
  obtain p where p: "s_worker c = Some p" "Some p \<in> set (r_workers R)" "bound_to st p sid" using old [OF c] by blast
  obtain w where w: "wrks st p = Some w" "w_router w = Some r" using R p(2) by (auto simp: router_ok_def)
  obtain n d where nd: "npfk_thread_unregister x (npfst (rs st)) (worker_npf_data w) = (n, d)"
    by (cases "npfk_thread_unregister x (npfst (rs st)) (worker_npf_data w)")
  let ?w = "w\<lparr>w_bind := \<lparr>b_status = WORKER_UNBOUND, b_sess_id = 0\<rparr>, worker_npf_data := d\<rparr>"
  let ?e = "st'\<lparr>sessions := (sessions st')(sid := None)\<rparr>"
  have st': "st' = st\<lparr>rs := (rs st)\<lparr>npfst := n\<rparr>, wrks := (wrks st)(p \<mapsto> ?w), sessions := (sessions st)(sid \<mapsto> None)\<rparr>"
    using assms(2) c p(1) w R nd
    by (auto simp: close_session_def session_types detach_nw_from_worker_def router_ok_def npf_thread_def get_worker_local_data_def
        read_wls_def write_wls_def)
  have b: "bound_to ?e q i \<longleftrightarrow> q \<noteq> p \<and> bound_to st q i" for q i by (auto simp: st' bound_to_def)
  have s: "sessions ?e = (sessions st)(sid := None)" by (simp add: st')
  have other: "q \<noteq> p" if "worker_session st i q" "i \<noteq> sid" "bound_to st q i" for q i
    using that p(3) by (auto simp: bound_to_def)
  have "router_ok r R ?e" using R w by (auto simp: router_ok_def st')
  moreover have "\<exists>q. s_worker e = Some q \<and> Some q \<in> set (r_workers R) \<and> bound_to ?e q i"
    if "sessions ?e i = Some (Some e)" "s_type e = BSTGW_TRUST_ROUTER_WORKER_SESSION" for i e
    using that old [of i e] bnd other unfolding b s by (fastforce split: if_splits)
  moreover have "worker_session ?e i q" if "Some q \<in> set (r_workers R)" "bound_to ?e q i" for q i
    using that bnd [of q i] c p(1) unfolding b s worker_session_def by auto
  ultimately show ?thesis unfolding bind_inv_def by blast
qed

text \<open>A command changes the state of the router and of NPF at most, and only the configuration command does.\<close>

lemma rs_refl: "\<exists>t. st = st\<lparr>rs := t\<rparr>" for st :: "('th, 'lp, 'n) ctl"
  by (rule exI [of _ "rs st"]) simp

lemma npfctl_frame:
  assumes "bstgw_npfctl_cmd v op req resp st = Inr (e, resp', st')"
  shows "\<exists>t. st' = st\<lparr>rs := t\<rparr>"
  using assms rs_refl by (auto simp: bstgw_npfctl_cmd_def bind_res_Inr_iff Let_def split: option.splits if_splits prod.splits)

lemma firewall_config_cases:
  assumes "bstgw_firewall_config v cl types req len st = Inr (out, st')"
  obtains r where "out = Return r" "st' = st"
  | t where "cl = Some (True, BSTGW_TA_WEB_STUB_UUID)" "types = config_params" "st' = st\<lparr>rs := t\<rparr>" "\<And>b. out = Return_bytes b \<Longrightarrow> length b \<le> len"
proof (cases "bstgw_called_by_trusted_app cl BSTGW_TA_WEB_STUB_UUID = TEE_SUCCESS \<and> types = config_params")
  case False
  then show thesis using assms that(1) by (auto simp: bstgw_firewall_config_def Let_def split: if_splits)
next
  case True
  then have cl: "cl = Some (True, BSTGW_TA_WEB_STUB_UUID)" by (auto simp: bstgw_called_by_trusted_app_def split: option.splits if_splits)
  show thesis
  proof (cases "nvlist_unpack v req")
    case None
    then show thesis using assms True that(1) by (auto simp: bstgw_firewall_config_def Let_def)
  next
    case (Some rq)
    obtain l t1 where l: "new_nvlist v (rs st) = (l, t1)" by (cases "new_nvlist v (rs st)")
    show thesis
    proof (cases l)
      case None
      then show thesis using assms True Some l that(2) cl by (auto simp: bstgw_firewall_config_def Let_def)
    next
      case (Some rp)
      then obtain e q st2 where c: "bstgw_npfctl_cmd v (dnvlist_get_number v rq ''operation'' minus_one) rq rp (st\<lparr>rs := t1\<rparr>) = Inr (e, q, st2)"
        "st' = st2" "\<And>b. out = Return_bytes b \<Longrightarrow> length b \<le> len"
        using assms True \<open>nvlist_unpack v req = Some rq\<close> l
        by (auto simp: bstgw_firewall_config_def Let_def bind_res_Inr_iff split: if_splits option.splits)
      then show thesis using npfctl_frame [OF c(1)] that(2) cl True by auto
    qed
  qed
qed

lemma invoke_frame:
  assumes "invoke_command v cl sid cmd types req len st = Inr (out, st')"
  shows "st' = st \<or> bstgw_firewall_config v cl types req len st = Inr (out, st')"
  using assms by (auto simp: invoke_command_def Let_def bind_res_Inr_iff split: option.splits if_splits)

lemma ctl_step_inv: "ctl_step x v st st' \<Longrightarrow> bind_inv st \<Longrightarrow> bind_inv st'"
proof (induction rule: ctl_step.induct)
  case (invokes cl sid cmd types req len st out st')
  then obtain t where "st' = st\<lparr>rs := t\<rparr> \<or> st' = st" using invoke_frame by (metis firewall_config_cases)
  then show ?case using invokes.prems bind_inv_cong [of "st\<lparr>rs := t\<rparr>" st] by auto
qed (auto dest: open_session_inv close_session_inv)

lemma ctl_run_inv: "ctl_run x v st st' \<Longrightarrow> bind_inv st \<Longrightarrow> bind_inv st'"
  by (induction rule: ctl_run.induct) (auto dest: ctl_step_inv)

lemma bound_iff:
  assumes "wrks st p = Some w"
  shows "(\<exists>s. bound_to st p s) \<longleftrightarrow> b_status (w_bind w) \<noteq> WORKER_UNBOUND"
proof (cases "w_bind w")
  case (fields a b)
  then show ?thesis using assms by (cases a) (auto simp: bound_to_def)
qed

text \<open>
  Claim C39. Opening a worker session, with memory for its context: if the router has a worker that no session holds, the
  session gets one and that worker is bound to it. If all are taken, the error path frees the address of the context
  pointer inside the session of the kernel instead of the context: a free of memory that was never allocated.
\<close>

theorem worker_session_open:
  assumes "bind_inv st" and "router_ok r R st" and "sessions st sid = None" and "alloc_ok (pool (rs st)) (clk (pool (rs st)))"
  shows "let res = open_session x sid (one_param TEE_PARAM_TYPE_VALUE_INPUT) BSTGW_TRUST_ROUTER_WORKER_SESSION st in
    if \<exists>p. Some p \<in> set (r_workers R) \<and> (\<forall>s. \<not> worker_session st s p)
    then \<exists>p st'. res = Inr (TEE_SUCCESS, st') \<and> Some p \<in> set (r_workers R) \<and> (\<forall>s. \<not> worker_session st s p) \<and>
      worker_session st' sid p \<and> bound_to st' p sid
    else res = Inl Bad_free"
proof -
  have R: "r' = r \<and> R' = R" if "router_ok r' R' st" for r' R' using that assms(2) by (auto simp: router_ok_def)
  have old: "worker_session st i q \<Longrightarrow> bound_to st q i" "Some q \<in> set (r_workers R) \<Longrightarrow> bound_to st q i \<Longrightarrow> worker_session st i q" for q i
    using assms(1) R unfolding bind_inv_def worker_session_def by (metis option.inject)+
  have free: "unbound st (Some p) \<longleftrightarrow> (\<forall>s. \<not> worker_session st s p)" if "Some p \<in> set (r_workers R)" for p
  proof -
    obtain w where w: "wrks st p = Some w" using assms(2) \<open>Some p \<in> set (r_workers R)\<close> by (auto simp: router_ok_def)
    then have "unbound st (Some p) \<longleftrightarrow> \<not> (\<exists>s. bound_to st p s)" using bound_iff [OF w] by simp
    moreover have "(\<exists>s. bound_to st p s) \<longleftrightarrow> (\<exists>s. worker_session st s p)" using old that by blast
    ultimately show ?thesis by (simp only:) simp
  qed
  show ?thesis
  proof (cases "find (unbound st) (r_workers R)")
    case None
    then have "\<not> (\<exists>p. Some p \<in> set (r_workers R) \<and> (\<forall>s. \<not> worker_session st s p))" using free by (auto simp: find_none_iff simp del: unbound_simps)
    then show ?thesis unfolding open_worker_session [OF assms(2,4)] None by (simp add: Let_def)
  next
    case (Some wp)
    obtain p w where p: "wp = Some p" "Some p \<in> set (r_workers R)" "wrks st p = Some w" "b_status (w_bind w) = WORKER_UNBOUND"
      using find_unbound [OF Some] by auto
    then have "\<forall>s. \<not> worker_session st s p" using free [of p] by auto
    then show ?thesis unfolding open_worker_session [OF assms(2,4)] Some using p
      by (auto simp: Let_def worker_session_def bound_to_def bind_at_def split: prod.splits)
  qed
qed

text \<open>
  Claim C8. Who can do what. A command changes the state, or returns bytes, only if it is the configuration command in a
  session without a worker, and the caller is the configuration service: a user application with its UUID. It changes
  nothing but the state of the router and of NPF, and the bytes fit the buffer of the caller. A session enters the loop of a
  worker only for the worker it is bound to, and the cleaner loop only as a cleaner session.
\<close>

theorem commands_authorised:
  assumes "invoke_command v cl sid cmd types req len st = Inr (out, st')"
  shows "(st' \<noteq> st \<or> (\<exists>b. out = Return_bytes b) \<longrightarrow>
      cmd = BSTGW_PTA_TRUST_ROUTER_CMD_CONFIG \<and> types = config_params \<and> cl = Some (True, BSTGW_TA_WEB_STUB_UUID) \<and>
      (\<exists>c. sessions st sid = Some (Some c) \<and> s_type c = BSTGW_TRUST_ROUTER_UNBOUND_SESSION) \<and>
      (\<exists>t. st' = st\<lparr>rs := t\<rparr>) \<and> (\<forall>b. out = Return_bytes b \<longrightarrow> length b \<le> len)) \<and>
    (\<forall>p. out = Enter_worker p \<longrightarrow> worker_session st sid p) \<and>
    (out = Enter_cleaner \<longrightarrow> (\<exists>c. sessions st sid = Some (Some c) \<and> s_type c = BSTGW_TRUST_ROUTER_CLEANER_SESSION))"
proof -
  have cfg: "cmd = BSTGW_PTA_TRUST_ROUTER_CMD_CONFIG \<and> (\<exists>c. sessions st sid = Some (Some c) \<and> s_type c = BSTGW_TRUST_ROUTER_UNBOUND_SESSION) \<and>
    bstgw_firewall_config v cl types req len st = Inr (out, st')" if "st' \<noteq> st \<or> (\<exists>b. out = Return_bytes b)"
    using assms that
    by (auto simp: invoke_command_def Let_def bind_res_Inr_iff cmd_get_nworkers_def bstgw_get_some_stats_def cmd_run_cleaner_def
        cmd_run_worker_def split: option.splits if_splits)
  have ent: "\<not> bstgw_firewall_config v cl types req len st = Inr (Enter_worker p, st')" "\<not> bstgw_firewall_config v cl types req len st = Inr (Enter_cleaner, st')" for p
    by (auto simp: bstgw_firewall_config_def Let_def bind_res_Inr_iff split: option.splits if_splits prod.splits)
  have "(\<forall>p. out = Enter_worker p \<longrightarrow> worker_session st sid p) \<and>
    (out = Enter_cleaner \<longrightarrow> (\<exists>c. sessions st sid = Some (Some c) \<and> s_type c = BSTGW_TRUST_ROUTER_CLEANER_SESSION))"
    using assms ent
    by (auto simp: invoke_command_def Let_def bind_res_Inr_iff cmd_get_nworkers_def bstgw_get_some_stats_def cmd_run_cleaner_def
        cmd_run_worker_def worker_session_def split: option.splits if_splits)
  moreover have "types = config_params \<and> cl = Some (True, BSTGW_TA_WEB_STUB_UUID) \<and> (\<exists>t. st' = st\<lparr>rs := t\<rparr>) \<and> (\<forall>b. out = Return_bytes b \<longrightarrow> length b \<le> len)"
    if "st' \<noteq> st \<or> (\<exists>b. out = Return_bytes b)"
    using cfg [OF that] that by (metis firewall_config_cases outcome.distinct(3))
  ultimately show ?thesis using cfg by blast
qed

section \<open>Examples\<close>

text \<open>A router with two workers, the first of them held by session 5; NPF does nothing and an empty list packs to one byte.\<close>

definition ctl_worker :: "bind_stat \<Rightarrow> nat \<Rightarrow> worker" where
  "ctl_worker b sid = \<lparr>worker_npf_data = \<lparr>ebr_tls = None, npf_stats_tls = None\<rparr>, worker_id = 0, w_npf = True, w_router = Some 1,
     w_bind = \<lparr>b_status = b, b_sess_id = sid\<rparr>, net_if = Some 7, napi_idx = 0\<rparr>"

definition ctl_router :: npf_router where
  "ctl_router = \<lparr>r_npf = True, pktqueue_size = 512, r_rtable = True, notfer = None, worker_count = 2, r_workers = [Some 2, Some 3]\<rparr>"

definition ctl_state :: "(unit, (byte list \<times> nat \<times> route_info) list, unit) ctl" where
  "ctl_state = \<lparr>rs = cfg_state, routers = [1 \<mapsto> ctl_router], trusted_router = Some 1,
     wrks = [2 \<mapsto> ctl_worker WORKER_IS_BOUND 5, 3 \<mapsto> ctl_worker WORKER_UNBOUND 0], npf_data = Map.empty,
     sessions = [5 \<mapsto> Some \<lparr>s_worker = Some 2, s_type = BSTGW_TRUST_ROUTER_WORKER_SESSION\<rparr>,
                 6 \<mapsto> Some \<lparr>s_worker = None, s_type = BSTGW_TRUST_ROUTER_UNBOUND_SESSION\<rparr>],
     next_ptr = 4, list_slock = False\<rparr>"

definition ctl_ops :: "unit npf_ops" where
  "ctl_ops = \<lparr>npfk_thread_register = Pair, npfk_thread_unregister = Pair, npfk_bind_npfworker = (\<lambda>_. (None, ())), npfk_unbind_npfworker = id\<rparr>"

definition ctl_nv :: "(unit, unit) nv_ops" where
  "ctl_nv = \<lparr>nvlist_create = (), nvlist_add_null = (\<lambda>v _. v), nvlist_add_number = (\<lambda>v _ _. v), nvlist_add_string = (\<lambda>v _ _. v),
     nvlist_move_nvlist = (\<lambda>v _ _. v), nvlist_error = (\<lambda>_. False), nvlist_unpack = (\<lambda>_. Some ()), nvlist_pack = (\<lambda>_. Some [0]),
     dnvlist_get_number = (\<lambda>_ _ d. d), ioc_query_netifs = 1, npf_version = 1, npfctl_run_op = (\<lambda>n _ _ r. (n, r))\<rparr>"

lemmas ctl_example = ctl_state_def ctl_router_def ctl_worker_def session_types

lemma ctl_router_ok: "router_ok 1 ctl_router ctl_state"
  by (auto simp: router_ok_def ctl_example)

lemma ctl_bind_inv: "bind_inv ctl_state"
proof -
  have "\<exists>p. s_worker c = Some p \<and> Some p \<in> set (r_workers ctl_router) \<and> bound_to ctl_state p sid"
    if "sessions ctl_state sid = Some (Some c)" "s_type c = BSTGW_TRUST_ROUTER_WORKER_SESSION" for sid c
    using that by (auto simp: ctl_example bound_to_def split: if_splits)
  moreover have "worker_session ctl_state sid p" if "Some p \<in> set (r_workers ctl_router)" "bound_to ctl_state p sid" for p sid
    using that by (auto simp: ctl_example bound_to_def worker_session_def)
  ultimately show ?thesis unfolding bind_inv_def using ctl_router_ok by blast
qed

theorem worker_session_open_witness:
  "\<exists>st'. open_session ctl_ops 9 1 2 ctl_state = Inr (TEE_SUCCESS, st') \<and> worker_session st' 9 3"
proof -
  let ?open = "open_session ctl_ops 9 (one_param TEE_PARAM_TYPE_VALUE_INPUT) BSTGW_TRUST_ROUTER_WORKER_SESSION ctl_state"
  have s: "sessions ctl_state 9 = None" "alloc_ok (pool (rs ctl_state)) (clk (pool (rs ctl_state)))" by (simp_all add: ctl_example cfg_state_def)
  have held: "worker_session ctl_state 5 2" and free: "\<not> worker_session ctl_state i 3" for i by (auto simp: ctl_example worker_session_def)
  have "Some 3 \<in> set (r_workers ctl_router)" by (simp add: ctl_router_def)
  with free obtain p st' where p: "?open = Inr (TEE_SUCCESS, st')" "Some p \<in> set (r_workers ctl_router)" "\<forall>i. \<not> worker_session ctl_state i p" "worker_session st' 9 p"
    using worker_session_open [OF ctl_bind_inv ctl_router_ok s, of ctl_ops] unfolding Let_def by (metis (full_types))
  then have "p = 3" using held by (auto simp: ctl_router_def)
  with p show ?thesis by (auto simp: one_param_def TEE_PARAM_TYPES_def TEE_PARAM_TYPE_VALUE_INPUT_def TEE_PARAM_TYPE_NONE_def session_types)
qed

theorem commands_authorised_witness:
  "\<exists>st'. invoke_command ctl_nv (Some (True, BSTGW_TA_WEB_STUB_UUID)) 6 0 0x65 [] 4 ctl_state = Inr (Return_bytes [0], st') \<and>
     (\<exists>t. st' = ctl_state\<lparr>rs := t\<rparr>)"
proof -
  obtain st' where r: "invoke_command ctl_nv (Some (True, BSTGW_TA_WEB_STUB_UUID)) 6 0 0x65 [] 4 ctl_state = Inr (Return_bytes [0], st')"
    by (simp add: invoke_command_def ctl_example BSTGW_PTA_TRUST_ROUTER_CMD_CONFIG_def bstgw_firewall_config_def bstgw_called_by_trusted_app_def
        config_params_def TEE_PARAM_TYPES_def TEE_PARAM_TYPE_MEMREF_INPUT_def TEE_PARAM_TYPE_MEMREF_OUTPUT_def TEE_PARAM_TYPE_NONE_def
        ctl_nv_def new_nvlist_def heap_alloc_def cfg_state_def bstgw_npfctl_cmd_def minus_one_def)
  then show ?thesis using commands_authorised [OF r] by blast
qed

end
