(* ===== verification/Boot.thy ===== *)
theory Boot
  imports Control
begin

text \<open>
  Creation of the router, its start and its destruction (\<open>nettrug/pta/npf_router.c\<close>, \<open>route.c\<close>). The start runs once,
  before the normal world can call in. NPF, the longest-prefix-match table and the hash map of the ARP caches answer through
  the record \<open>boot\<close>; \<open>lpm_create\<close> is taken to return a table, its result is not checked by the code.
\<close>

section \<open>Workers and routing table\<close>

record ('th, 'lp, 'n) boot =
  CFG_NUM_THREADS :: nat
  npfk_sysinit :: "'n \<Rightarrow> 'n"
  npfk_sysfini :: "'n \<Rightarrow> 'n"
  npf_dpdk_create :: "'n \<Rightarrow> bool \<times> 'n"
  npf_alg_icmp_init :: "'n \<Rightarrow> int \<times> 'n"
  npf_alg_icmp_fini :: "'n \<Rightarrow> 'n"
  npfk_destroy :: "'n \<Rightarrow> 'n"
  npfk_ifmap_attach :: "nat \<Rightarrow> 'n \<Rightarrow> 'n"
  npfk_ifmap_detach :: "nat \<Rightarrow> 'n \<Rightarrow> 'n"
  lpm_create :: 'lp
  thmap_create :: "nat \<Rightarrow> 'th option"
  queue_junk :: "nat list"
  buf_junk :: "byte list"

definition zero_worker :: worker where
  "zero_worker = \<lparr>worker_npf_data = \<lparr>ebr_tls = None, npf_stats_tls = None\<rparr>, worker_id = 0, w_npf = False, w_router = None,
     w_bind = \<lparr>b_status = WORKER_UNBOUND, b_sess_id = 0\<rparr>, net_if = None, napi_idx = 0\<rparr>"

text \<open>\<open>wp\<close> is the address of slot \<open>i\<close> of the router's array.\<close>

definition worker_init :: "nat \<Rightarrow> ('th, 'lp, 'n) ctl \<Rightarrow> (int \<times> ('th, 'lp, 'n) ctl) res" where
  "worker_init i st =
     (case trusted_router st of None \<Rightarrow> Inr (-1, st)
      | Some r \<Rightarrow>
          (case routers st r of None \<Rightarrow> Inl Null_deref
           | Some R \<Rightarrow>
               if \<not> i < length (r_workers R) then Inl Out_of_bounds
               else if r_workers R ! i \<noteq> None then Inr (-1, st)
               else case heap_alloc (rs st) of (ok, rs1) \<Rightarrow>
                 if \<not> ok then Inr (-1, st\<lparr>rs := rs1\<rparr>)
                 else let p = next_ptr st in
                   Inr (0, st\<lparr>rs := rs1, next_ptr := p + 1, wrks := (wrks st)(p \<mapsto> zero_worker\<lparr>w_router := Some r, w_npf := r_npf R\<rparr>),
                              routers := (routers st)(r \<mapsto> R\<lparr>r_workers := (r_workers R)[i := Some p]\<rparr>)\<rparr>)))"

text \<open>A bound worker is taken away from its session first. Its epoch storage is freed with it.\<close>

definition worker_fini :: "nat option \<Rightarrow> ('th, 'lp, 'n) ctl \<Rightarrow> (int \<times> ('th, 'lp, 'n) ctl) res" where
  "worker_fini wp st =
     (case wp of None \<Rightarrow> Inr (0, st)
      | Some p \<Rightarrow>
          if trusted_router st = None then Inr (-1, st)
          else case wrks st p of None \<Rightarrow> Inl Null_deref
          | Some w \<Rightarrow>
              let sid = b_sess_id (w_bind w);
                  ss = (if b_status (w_bind w) = WORKER_IS_BOUND
                        then (case sessions st sid of Some (Some c) \<Rightarrow> (sessions st)(sid \<mapsto> Some (c\<lparr>s_worker := None\<rparr>)) | _ \<Rightarrow> sessions st)
                        else sessions st) in
              Inr (0, st\<lparr>sessions := ss, wrks := (wrks st)(p := None)\<rparr>))"

definition route_table_create :: "('th, 'lp, 'n) boot \<Rightarrow> ('th, 'lp, 'n) rstate \<Rightarrow> bool \<times> ('th, 'lp, 'n) rstate" where
  "route_table_create b st = (case heap_alloc st of (ok, st1) \<Rightarrow> if ok then (True, st1\<lparr>rtable := lpm_create b\<rparr>) else (False, st1))"

text \<open>Destroying the table gives its memory back; the model keeps no trace of the entries.\<close>

definition route_table_destroy :: "npf_router \<Rightarrow> npf_router" where
  "route_table_destroy R = R\<lparr>r_rtable := False\<rparr>"

section \<open>Router\<close>

definition npf_upd :: "('n \<Rightarrow> 'n) \<Rightarrow> ('th, 'lp, 'n) ctl \<Rightarrow> ('th, 'lp, 'n) ctl" where
  "npf_upd f st = st\<lparr>rs := (rs st)\<lparr>npfst := f (npfst (rs st))\<rparr>\<rparr>"

definition get_router :: "nat \<Rightarrow> ('th, 'lp, 'n) ctl \<Rightarrow> npf_router res" where
  "get_router r st = (case routers st r of None \<Rightarrow> Inl Null_deref | Some R \<Rightarrow> Inr R)"

definition get_worker :: "nat \<Rightarrow> ('th, 'lp, 'n) ctl \<Rightarrow> worker res" where
  "get_worker p st = (case wrks st p of None \<Rightarrow> Inl Null_deref | Some w \<Rightarrow> Inr w)"

definition detach_dev :: "('th, 'lp, 'n) boot \<Rightarrow> nat \<Rightarrow> ('th, 'lp, 'n) ctl \<Rightarrow> ('th, 'lp, 'n) ctl res" where
  "detach_dev b d st =
     bind_res (get_dev d (rs st)) (\<lambda>ifp.
     bind_res (ifnet_ifdetach ifp) (\<lambda>ifp'.
       Inr (npf_upd (npfk_ifmap_detach b d) (st\<lparr>rs := set_dev d ifp' (rs st)\<rparr>))))"

fun destroy_loop :: "('th, 'lp, 'n) boot \<Rightarrow> nat \<Rightarrow> nat list \<Rightarrow> ('th, 'lp, 'n) ctl \<Rightarrow> ('th, 'lp, 'n) ctl res" where
  "destroy_loop b r [] st = Inr st"
| "destroy_loop b r (i # is) st =
     bind_res (get_router r st) (\<lambda>R.
     if \<not> i < length (r_workers R) then Inl Out_of_bounds
     else case r_workers R ! i of None \<Rightarrow> destroy_loop b r is st
     | Some p \<Rightarrow>
         bind_res (get_worker p st) (\<lambda>w.
         bind_res (case net_if w of None \<Rightarrow> Inr st
                   | Some d \<Rightarrow> bind_res (detach_dev b d st) (\<lambda>st1. Inr (st1\<lparr>wrks := (wrks st1)(p \<mapsto> w\<lparr>net_if := None\<rparr>)\<rparr>))) (\<lambda>st1.
         bind_res (worker_fini (Some p) st1) (\<lambda>(_, st2).
         destroy_loop b r is (st2\<lparr>routers := (routers st2)(r \<mapsto> R\<lparr>r_workers := (r_workers R)[i := None]\<rparr>)\<rparr>)))))"

definition router_destroy :: "('th, 'lp, 'n) boot \<Rightarrow> nat \<Rightarrow> ('th, 'lp, 'n) ctl \<Rightarrow> ('th, 'lp, 'n) ctl res" where
  "router_destroy b r st =
     bind_res (get_router r st) (\<lambda>R.
     bind_res (destroy_loop b r [0..<worker_count R] st) (\<lambda>st1.
     bind_res (get_router r st1) (\<lambda>R1.
       let R2 = (if r_rtable R1 then route_table_destroy R1 else R1);
           st2 = (if r_npf R2 then npf_upd (npfk_destroy b \<circ> npf_alg_icmp_fini b) st1 else st1) in
       Inr ((npf_upd (npfk_sysfini b) st2)\<lparr>routers := (routers st2)(r := None)\<rparr>))))"

definition BURST_SIZE :: nat where "BURST_SIZE = 512"

definition router_create :: "('th, 'lp, 'n) boot \<Rightarrow> nat \<Rightarrow> ('th, 'lp, 'n) ctl \<Rightarrow> (nat option \<times> ('th, 'lp, 'n) ctl) res" where
  "router_create b nworkers st =
     (if sub32 (CFG_NUM_THREADS b) 2 < nworkers then Inr (None, st)
      else case heap_alloc (rs st) of (ok, rs1) \<Rightarrow>
        if \<not> ok then Inr (None, st\<lparr>rs := rs1\<rparr>)
        else
          let r = next_ptr st;
              R = \<lparr>r_npf = False, pktqueue_size = BURST_SIZE, r_rtable = False, notfer = None, worker_count = nworkers,
                   r_workers = replicate nworkers None\<rparr>;
              put = (\<lambda>R s. s\<lparr>routers := (routers s)(r \<mapsto> R)\<rparr>);
              fail = (\<lambda>s. bind_res (router_destroy b r s) (\<lambda>s'. Inr (None, s')));
              st1 = npf_upd (npfk_sysinit b) (put R (st\<lparr>rs := rs1, next_ptr := r + 1\<rparr>)) in
          case npf_dpdk_create b (npfst (rs st1)) of (created, n) \<Rightarrow>
            let st2 = put (R\<lparr>r_npf := created\<rparr>) (npf_upd (\<lambda>_. n) st1) in
            if \<not> created then fail st2
            else case npf_alg_icmp_init b n of (e, n') \<Rightarrow>
              let st3 = npf_upd (\<lambda>_. n') st2 in
              if e \<noteq> 0 then fail st3
              else case route_table_create b (rs st3) of (t, rs4) \<Rightarrow>
                let st4 = put (R\<lparr>r_npf := True, r_rtable := t\<rparr>) (st3\<lparr>rs := rs4\<rparr>) in
                if \<not> t then fail st4 else Inr (Some r, st4))"

section \<open>Start\<close>

text \<open>The workers of one device: \<open>i\<close> is the next slot. \<open>None\<close> when one cannot be created; the router is destroyed then.\<close>

fun worker_loop :: "('th, 'lp, 'n) boot \<Rightarrow> nat \<Rightarrow> nat \<Rightarrow> nat list \<Rightarrow> nat \<Rightarrow> ('th, 'lp, 'n) ctl \<Rightarrow> (nat option \<times> ('th, 'lp, 'n) ctl) res" where
  "worker_loop b r d [] i st = Inr (Some i, st)"
| "worker_loop b r d (j # js) i st =
     bind_res (worker_init i st) (\<lambda>(e, st1).
     if e < 0 then bind_res (router_destroy b r st1) (\<lambda>st2. Inr (None, st2))
     else
       bind_res (get_router r st1) (\<lambda>R.
       case r_workers R ! i of None \<Rightarrow> Inl Null_deref
       | Some p \<Rightarrow>
           bind_res (get_worker p st1) (\<lambda>w.
           bind_res (get_dev d (rs st1)) (\<lambda>ifp.
           if \<not> j < length (workers ifp) then Inl Out_of_bounds
           else worker_loop b r d js (i + 1)
                  (st1\<lparr>wrks := (wrks st1)(p \<mapsto> w\<lparr>worker_id := i, net_if := Some d, napi_idx := j\<rparr>),
                       rs := set_dev d (ifp\<lparr>workers := (workers ifp)[j := Some p], if_worker_count := if_worker_count ifp + 1\<rparr>) (rs st1)\<rparr>)))))"

definition attach_dev :: "('th, 'lp, 'n) boot \<Rightarrow> nat \<Rightarrow> nat \<Rightarrow> ('th, 'lp, 'n) ctl \<Rightarrow> (int \<times> ('th, 'lp, 'n) ctl) res" where
  "attach_dev b r d st =
     bind_res (get_router r st) (\<lambda>R.
     bind_res (get_dev d (rs st)) (\<lambda>ifp.
     case (if thmap_create b d = None then (True, rs st) else heap_alloc (rs st)) of (ok, rs1) \<Rightarrow>
       bind_res (ifnet_ifattach (thmap_create b d) (queue_junk b) (buf_junk b) ok (pktqueue_size R) ifp (pool rs1)) (\<lambda>(e, ifp', P).
         let st1 = st\<lparr>rs := (set_dev d ifp' rs1)\<lparr>pool := P\<rparr>\<rparr> in
         Inr (e, if e = 0 then npf_upd (npfk_ifmap_attach b d) st1 else st1))))"

fun attach_loop :: "('th, 'lp, 'n) boot \<Rightarrow> nat \<Rightarrow> nat list \<Rightarrow> nat \<Rightarrow> ('th, 'lp, 'n) ctl \<Rightarrow> (tee_result \<times> ('th, 'lp, 'n) ctl) res" where
  "attach_loop b r [] i st = Inr (TEE_SUCCESS, st)"
| "attach_loop b r (d # ds) i st =
     bind_res (get_router r st) (\<lambda>R.
     bind_res (get_dev d (rs st)) (\<lambda>ifp.
     if add32 i (sub32 (napi_count ifp) 1) \<ge> worker_count R then Inr (TEE_SUCCESS, st)
     else if napi_count ifp > BSTGW_MAX_NETIF_NAPI then Inr (TEE_SUCCESS, st)
     else
       bind_res (worker_loop b r d [0..<napi_count ifp] i st) (\<lambda>(i', st1).
       case i' of None \<Rightarrow> Inr (TEE_ERROR_GENERIC, st1)
       | Some i' \<Rightarrow>
           if ifnet_setup = -1 then bind_res (router_destroy b r st1) (\<lambda>st2. Inr (TEE_ERROR_GENERIC, st2))
           else
             bind_res (attach_dev b r d st1) (\<lambda>(e, st2).
             if e = -1 then bind_res (router_destroy b r st2) (\<lambda>st3. Inr (TEE_ERROR_OUT_OF_MEMORY, st3))
             else attach_loop b r ds i' st2))))"

definition init_trusted_router :: "('th, 'lp, 'n) boot \<Rightarrow> ('th, 'lp, 'n) ext \<Rightarrow> (string \<Rightarrow> (byte list \<times> nat) option) \<Rightarrow> byte list \<Rightarrow>
    ('th, 'lp, 'n) ctl \<Rightarrow> (tee_result \<times> ('th, 'lp, 'n) ctl) res" where
  "init_trusted_router b x cidr junk st =
     (if trusted_router st \<noteq> None then Inr (TEE_ERROR_GENERIC, st)
      else if ifnet_dev_count (nd (rs st)) = 0 \<or> ifnet_napi_count (nd (rs st)) = 0 then Inr (TEE_ERROR_GENERIC, st)
      else
        bind_res (router_create b (ifnet_napi_count (nd (rs st))) st) (\<lambda>(ro, st1).
        case ro of None \<Rightarrow> Inr (TEE_ERROR_GENERIC, st1)
        | Some r \<Rightarrow>
            bind_res (load_config x cidr junk (rs st1)) (\<lambda>(e, rs2).
            let st2 = st1\<lparr>trusted_router := Some r, rs := rs2\<rparr> in
            if e = -1 then bind_res (router_destroy b r st2) (\<lambda>st3. Inr (TEE_ERROR_GENERIC, st3))
            else
              bind_res (attach_loop b r (netdev_list (nd (rs st2))) 0 (st2\<lparr>list_slock := True\<rparr>)) (\<lambda>(res, st3).
              if res \<noteq> TEE_SUCCESS then Inr (res, st3)
              else
                bind_res (bstgw_ethpool_increase (buf_junk b) (2 + 2 + 64) (pool (rs st3))) (\<lambda>P.
                bind_res (get_router r st3) (\<lambda>R.
                Inr (TEE_SUCCESS, st3\<lparr>list_slock := False, rs := (rs st3)\<lparr>pool := P\<rparr>,
                       routers := (routers st3)(r \<mapsto> R\<lparr>notfer := Some (bstgw_init_notifier 1 True)\<rparr>)\<rparr>)))))))"

section \<open>Every poll instance gets a worker\<close>

definition worker_for :: "nat \<Rightarrow> nat \<Rightarrow> nat \<Rightarrow> nat option list \<Rightarrow> nat option \<Rightarrow> ('th, 'lp, 'n) ctl \<Rightarrow> bool" where
  "worker_for r d j slots wp st \<longleftrightarrow> (\<exists>p w. wp = Some p \<and> Some p \<in> set slots \<and> wrks st p = Some w \<and> net_if w = Some d \<and> napi_idx w = j)"

text \<open>The first \<open>i\<close> slots of the router hold workers that nobody has bound; the others are empty.\<close>

definition slot_inv :: "nat \<Rightarrow> npf_router \<Rightarrow> nat \<Rightarrow> ('th, 'lp, 'n) ctl \<Rightarrow> bool" where
  "slot_inv r R i st \<longleftrightarrow> trusted_router st = Some r \<and> routers st r = Some R \<and> r_npf R \<and> length (r_workers R) = worker_count R \<and>
     (\<forall>k < worker_count R. r_workers R ! k \<noteq> None \<longleftrightarrow> k < i) \<and>
     (\<forall>p. Some p \<in> set (r_workers R) \<longrightarrow> p < next_ptr st \<and> (\<exists>w. wrks st p = Some w \<and> w_router w = Some r \<and> b_status (w_bind w) = WORKER_UNBOUND))"

text \<open>What giving a device its workers leaves alone.\<close>

definition boot_frame :: "nat set \<Rightarrow> npf_router \<Rightarrow> npf_router \<Rightarrow> ('th, 'lp, 'n) ctl \<Rightarrow> ('th, 'lp, 'n) ctl \<Rightarrow> bool" where
  "boot_frame D R R' st st' \<longleftrightarrow> next_ptr st \<le> next_ptr st' \<and> (\<forall>p < next_ptr st. wrks st' p = wrks st p) \<and>
     (\<forall>e. e \<notin> D \<longrightarrow> ifs (nd (rs st')) e = ifs (nd (rs st)) e) \<and> netdev_list (nd (rs st')) = netdev_list (nd (rs st)) \<and>
     sessions st' = sessions st \<and> worker_count R' = worker_count R \<and> length (r_workers R') = length (r_workers R) \<and>
     (\<forall>k < length (r_workers R). r_workers R ! k \<noteq> None \<longrightarrow> r_workers R' ! k = r_workers R ! k)"

lemma boot_frame_slots: "boot_frame D R R' st st' \<Longrightarrow> Some p \<in> set (r_workers R) \<Longrightarrow> Some p \<in> set (r_workers R')"
  unfolding boot_frame_def in_set_conv_nth by (metis option.distinct(1))

lemma boot_frame_trans:
  "boot_frame D R R1 st st1 \<Longrightarrow> boot_frame D' R1 R2 st1 st2 \<Longrightarrow> D \<union> D' \<subseteq> E \<Longrightarrow> boot_frame E R R2 st st2"
  unfolding boot_frame_def by (auto dest: order.strict_trans2) (metis subsetD)

lemma worker_for_frame:
  assumes "worker_for r e j (r_workers R) wp st" "slot_inv r R i st" "boot_frame D R R' st st'"
  shows "worker_for r e j (r_workers R') wp st'"
proof -
  obtain p w where p: "wp = Some p" "Some p \<in> set (r_workers R)" "wrks st p = Some w" "net_if w = Some e" "napi_idx w = j"
    using assms(1) by (auto simp: worker_for_def)
  then have "p < next_ptr st" using assms(2) by (auto simp: slot_inv_def)
  then have "wrks st' p = Some w" "Some p \<in> set (r_workers R')" using p(3) assms(3) boot_frame_slots [OF assms(3) p(2)] by (auto simp: boot_frame_def)
  then show ?thesis using p by (auto simp: worker_for_def)
qed

lemma worker_init_slot:
  assumes "slot_inv r R i st" "worker_init i st = Inr (e, st1)" "\<not> e < 0" "i < worker_count R"
  obtains p where "p = next_ptr st" "slot_inv r (R\<lparr>r_workers := (r_workers R)[i := Some p]\<rparr>) (i + 1) st1"
    "boot_frame D R (R\<lparr>r_workers := (r_workers R)[i := Some p]\<rparr>) st st1" "nd (rs st1) = nd (rs st)"
    "wrks st1 p = Some (zero_worker\<lparr>w_router := Some r, w_npf := r_npf R\<rparr>)"
proof -
  let ?p = "next_ptr st" let ?R = "R\<lparr>r_workers := (r_workers R)[i := Some ?p]\<rparr>"
  have R: "trusted_router st = Some r" "routers st r = Some R" "r_npf R" "length (r_workers R) = worker_count R" "r_workers R ! i = None"
    using assms(1,4) by (auto simp: slot_inv_def)
  have st1: "st1 = st\<lparr>rs := snd (heap_alloc (rs st)), next_ptr := ?p + 1, wrks := (wrks st)(?p \<mapsto> zero_worker\<lparr>w_router := Some r, w_npf := r_npf R\<rparr>),
      routers := (routers st)(r \<mapsto> ?R)\<rparr>"
    using assms(2-4) R by (auto simp: worker_init_def heap_alloc_def Let_def split: if_splits)
  have mem: "q = ?p \<or> Some q \<in> set (r_workers R)" if "Some q \<in> set ((r_workers R)[i := Some ?p])" for q
    using set_update_subset_insert [of "r_workers R" i "Some ?p"] that by auto
  have old: "Some q \<in> set (r_workers R) \<Longrightarrow> q < ?p \<and> (\<exists>w. wrks st q = Some w \<and> w_router w = Some r \<and> b_status (w_bind w) = WORKER_UNBOUND)" for q
    using assms(1) by (auto simp: slot_inv_def)
  have full: "(r_workers R)[i := Some ?p] ! k \<noteq> None \<longleftrightarrow> k < i + 1" if "k < worker_count R" for k
    using that assms(1,4) R(4) by (cases "k = i") (auto simp: slot_inv_def)
  have new: "q < ?p + 1 \<and> (\<exists>w. wrks st1 q = Some w \<and> w_router w = Some r \<and> b_status (w_bind w) = WORKER_UNBOUND)"
    if "Some q \<in> set ((r_workers R)[i := Some ?p])" for q
    using mem [OF that] old [of q] by (auto simp: st1 zero_worker_def)
  have "slot_inv r ?R (i + 1) st1"
    using R full new unfolding slot_inv_def by (simp add: st1)
  moreover have "boot_frame D R ?R st st1" using R(5) by (auto simp: boot_frame_def st1 heap_alloc_def) (metis nth_list_update_neq option.distinct(1))
  ultimately show thesis using that [of ?p] by (simp add: st1 heap_alloc_def)
qed

lemma slot_router: "slot_inv r R i st \<Longrightarrow> get_router r st = Inr R"
  by (simp add: slot_inv_def get_router_def)

lemma worker_loop_spec:
  assumes "worker_loop b r d js i st = Inr (Some i', st')" "slot_inv r R i st" "distinct js" "ifs (nd (rs st)) d = Some ifp"
    "i + length js \<le> worker_count R"
  shows "\<exists>R' ifp'. i' = i + length js \<and> slot_inv r R' i' st' \<and> boot_frame {d} R R' st st' \<and> ifs (nd (rs st')) d = Some ifp' \<and>
    napi_count ifp' = napi_count ifp \<and> (\<forall>j. j \<notin> set js \<longrightarrow> workers ifp' ! j = workers ifp ! j) \<and>
    egress_queue ifp' = egress_queue ifp \<and> (\<forall>j \<in> set js. worker_for r d j (r_workers R') (workers ifp' ! j) st') \<and>
    (js \<noteq> [] \<longrightarrow> (\<exists>w. r_workers R' ! i = Some (next_ptr st) \<and> wrks st' (next_ptr st) = Some w \<and> net_if w = Some d))"
  using assms
proof (induction js arbitrary: i st R ifp)
  case Nil
  have "boot_frame {d} R R st st" by (auto simp: boot_frame_def)
  then show ?case using Nil by auto
next
  case (Cons j js)
  obtain e st1 where e: "worker_init i st = Inr (e, st1)" "\<not> e < 0"
    using Cons.prems(1) by (auto simp: bind_res_Inr_iff split: if_splits)
  have i: "i < worker_count R" using Cons.prems(5) by simp
  let ?p = "next_ptr st" let ?R = "R\<lparr>r_workers := (r_workers R)[i := Some ?p]\<rparr>"
  have s: "slot_inv r ?R (i + 1) st1" "boot_frame {} R ?R st st1" "nd (rs st1) = nd (rs st)"
    "wrks st1 ?p = Some (zero_worker\<lparr>w_router := Some r, w_npf := r_npf R\<rparr>)"
    using worker_init_slot [OF Cons.prems(2) e i, of "{}"] by metis+
  let ?w = "(zero_worker\<lparr>w_router := Some r, w_npf := r_npf R\<rparr>)\<lparr>worker_id := i, net_if := Some d, napi_idx := j\<rparr>"
  let ?d = "ifp\<lparr>workers := (workers ifp)[j := Some ?p], if_worker_count := if_worker_count ifp + 1\<rparr>"
  let ?st = "st1\<lparr>wrks := (wrks st1)(?p \<mapsto> ?w), rs := set_dev d ?d (rs st1)\<rparr>"
  have len: "i < length (r_workers R)" using i Cons.prems(2) by (simp add: slot_inv_def)
  have j: "j < length (workers ifp)" and rest: "worker_loop b r d js (i + 1) ?st = Inr (Some i', st')"
    using Cons.prems(1) e s(3,4) Cons.prems(4) len
    by (auto simp: slot_router [OF s(1)] get_worker_def get_dev_def split: if_splits)
  have sl: "slot_inv r ?R (i + 1) ?st" using s(1) by (auto simp: slot_inv_def zero_worker_def)
  have "\<forall>q < next_ptr st. wrks ?st q = wrks st q" using s(2) by (auto simp: boot_frame_def)
  then have fr: "boot_frame {d} R ?R st ?st" using s(2,3) by (auto simp: boot_frame_def set_dev_def)
  have dev: "ifs (nd (rs ?st)) d = Some ?d" by (simp add: set_dev_def)
  obtain R' ifp' where IH: "i' = i + 1 + length js" "slot_inv r R' i' st'" "boot_frame {d} ?R R' ?st st'" "ifs (nd (rs st')) d = Some ifp'"
    "napi_count ifp' = napi_count ?d" "\<forall>k. k \<notin> set js \<longrightarrow> workers ifp' ! k = workers ?d ! k"
    "\<forall>k \<in> set js. worker_for r d k (r_workers R') (workers ifp' ! k) st'" "egress_queue ifp' = egress_queue ?d"
    using Cons.IH [OF rest sl _ dev] Cons.prems(3,5) by auto
  have "worker_for r d j (r_workers ?R) (Some ?p) ?st" using len by (auto simp: worker_for_def set_update_memI)
  then have "worker_for r d j (r_workers R') (Some ?p) st'" using worker_for_frame [OF _ sl IH(3)] by simp
  moreover have "workers ifp' ! j = Some ?p" using IH(6) Cons.prems(3) j by simp
  moreover have "?p < next_ptr ?st" using s(1) len by (auto simp: slot_inv_def set_update_memI)
  then have "r_workers R' ! i = Some ?p \<and> wrks st' ?p = Some ?w" using IH(3) len by (auto simp: boot_frame_def)
  moreover have "boot_frame {d} R R' st st'" using boot_frame_trans [OF fr IH(3)] by simp
  ultimately show ?case using IH Cons.prems(3) by (intro exI [of _ R'] exI [of _ ifp']) auto
qed

lemma attach_dev_spec:
  assumes "attach_dev b r d st = Inr (e, st')" "slot_inv r R i st" "ifs (nd (rs st)) d = Some ifp"
  shows "slot_inv r R i st' \<and> boot_frame {d} R R st st' \<and>
    (\<exists>ifp'. ifs (nd (rs st')) d = Some ifp' \<and> napi_count ifp' = napi_count ifp \<and> workers ifp' = workers ifp)"
proof -
  obtain ifp' t where t: "st' = st\<lparr>rs := t\<rparr>" "nd t = nd (set_dev d ifp' (rs st))" "napi_count ifp' = napi_count ifp" "workers ifp' = workers ifp"
    using assms by (auto simp: attach_dev_def slot_router get_dev_def ifnet_ifattach_def heap_alloc_def set_dev_def npf_upd_def
        bind_res_Inr_iff Let_def split: option.splits if_splits)
  have "slot_inv r R i st'" using assms(2) by (simp add: slot_inv_def t(1))
  moreover have "boot_frame {d} R R st st'" by (auto simp: boot_frame_def t(1,2) set_dev_def)
  ultimately show ?thesis using t by (auto simp: set_dev_def)
qed

definition staffed :: "nat \<Rightarrow> npf_router \<Rightarrow> ('th, 'lp, 'n) ctl \<Rightarrow> nat \<Rightarrow> bool" where
  "staffed r R st d \<longleftrightarrow> (\<exists>ifp. ifs (nd (rs st)) d = Some ifp \<and> (\<forall>j < napi_count ifp. worker_for r d j (r_workers R) (workers ifp ! j) st))"

lemma staffed_frame:
  assumes "staffed r R st d" "slot_inv r R i st" "boot_frame D R R' st st'" "d \<notin> D"
  shows "staffed r R' st' d"
  using assms worker_for_frame [OF _ assms(2,3)] unfolding staffed_def boot_frame_def by fastforce

definition napis_of :: "('th, 'lp, 'n) ctl \<Rightarrow> nat \<Rightarrow> nat" where
  "napis_of st d = (case ifs (nd (rs st)) d of None \<Rightarrow> 0 | Some ifp \<Rightarrow> napi_count ifp)"

lemma napi_count_sum: "ifnet_napi_count (nd (rs st)) = sum_list (map (napis_of st) (netdev_list (nd (rs st))))"
  unfolding ifnet_napi_count_def napis_of_def ..

lemma attach_loop_spec:
  assumes "attach_loop b r ds i st = Inr (TEE_SUCCESS, st')" "slot_inv r R i st" "distinct ds"
    "\<forall>d \<in> set ds. 1 \<le> napis_of st d \<and> napis_of st d \<le> BSTGW_MAX_NETIF_NAPI"
    "i + sum_list (map (napis_of st) ds) = worker_count R" "worker_count R < 2 ^ 32"
  shows "\<exists>R'. slot_inv r R' (worker_count R) st' \<and> boot_frame (set ds) R R' st st' \<and> (\<forall>d \<in> set ds. staffed r R' st' d)"
  using assms
proof (induction ds arbitrary: i st R)
  case Nil
  have "boot_frame {} R R st st" by (auto simp: boot_frame_def)
  then show ?case using Nil by auto
next
  case (Cons d ds)
  obtain ifp where ifp: "ifs (nd (rs st)) d = Some ifp" "1 \<le> napi_count ifp" "napi_count ifp \<le> BSTGW_MAX_NETIF_NAPI"
    using Cons.prems(4) by (auto simp: napis_of_def split: option.splits)
  have "napis_of st d = napi_count ifp" using ifp(1) by (simp add: napis_of_def)
  then have sum: "i + (napi_count ifp + sum_list (map (napis_of st) ds)) = worker_count R" using Cons.prems(5) by simp
  then have room: "add32 i (sub32 (napi_count ifp) 1) < worker_count R"
    using ifp(2) Cons.prems(6) by (cases "napi_count ifp") (simp_all add: add32_def sub32_def)
  obtain i1 st1 e st2 where st1: "worker_loop b r d [0..<napi_count ifp] i st = Inr (Some i1, st1)" "attach_dev b r d st1 = Inr (e, st2)"
    and rest: "attach_loop b r ds i1 st2 = Inr (TEE_SUCCESS, st')"
    using Cons.prems(1) room ifp
    by (auto simp: slot_router [OF Cons.prems(2)] get_dev_def bind_res_Inr_iff ifnet_setup_def split: option.splits if_splits)
  obtain R1 ifp1 where w: "i1 = i + napi_count ifp" "slot_inv r R1 i1 st1" "boot_frame {d} R R1 st st1" "ifs (nd (rs st1)) d = Some ifp1"
    "napi_count ifp1 = napi_count ifp" "\<forall>j < napi_count ifp. worker_for r d j (r_workers R1) (workers ifp1 ! j) st1"
    using worker_loop_spec [OF st1(1) Cons.prems(2) _ ifp(1)] sum by auto
  obtain ifp2 where a: "slot_inv r R1 i1 st2" "boot_frame {d} R1 R1 st1 st2" "ifs (nd (rs st2)) d = Some ifp2" "napi_count ifp2 = napi_count ifp1"
    "workers ifp2 = workers ifp1" using attach_dev_spec [OF st1(2) w(2,4)] by auto
  have fr: "boot_frame {d} R R1 st st2" using boot_frame_trans [OF w(3) a(2)] by simp
  have sd: "staffed r R1 st2 d"
    using w(5,6) a(3-5) worker_for_frame [OF _ w(2) a(2)] by (auto simp: staffed_def)
  have same: "napis_of st2 e = napis_of st e" if "e \<in> set ds" for e
    using that fr Cons.prems(3) by (auto simp: napis_of_def boot_frame_def)
  then have sums: "map (napis_of st2) ds = map (napis_of st) ds" by simp
  have "worker_count R1 = worker_count R" using fr by (simp add: boot_frame_def)
  then obtain R' where IH: "slot_inv r R' (worker_count R1) st'" "boot_frame (set ds) R1 R' st2 st'" "\<forall>e \<in> set ds. staffed r R' st' e"
    using Cons.IH [OF rest a(1)] Cons.prems(3,4,6) same sum w(1) unfolding sums by auto
  have "staffed r R' st' d" using staffed_frame [OF sd a(1) IH(2)] Cons.prems(3) by simp
  moreover have "boot_frame (set (d # ds)) R R' st st'" by (rule boot_frame_trans [OF fr IH(2)]) auto
  ultimately show ?case using IH \<open>worker_count R1 = worker_count R\<close> by auto
qed

section \<open>What the start establishes\<close>

text \<open>The configuration changes the addresses of devices, the routing table and the heap, nothing else.\<close>

definition dev_shape :: "'th ifnet \<Rightarrow> nat \<times> nat option list \<times> nat pktqueue" where
  "dev_shape d = (napi_count d, workers d, egress_queue d)"

definition cfg_frame :: "('th, 'lp, 'n) rstate \<Rightarrow> ('th, 'lp, 'n) rstate \<Rightarrow> bool" where
  "cfg_frame st st' \<longleftrightarrow> alloc_ok (pool st') = alloc_ok (pool st) \<and> netdev_list (nd st') = netdev_list (nd st) \<and> (\<forall>d. map_option dev_shape (ifs (nd st') d) = map_option dev_shape (ifs (nd st) d))"

lemma cfg_frame_refl [simp]: "cfg_frame st st"
  by (simp add: cfg_frame_def)

lemma cfg_frame_trans: "cfg_frame a b \<Longrightarrow> cfg_frame b c \<Longrightarrow> cfg_frame a c"
  by (simp add: cfg_frame_def)

lemma route_add_frame: "route_add x a n rt st = (e, st') \<Longrightarrow> cfg_frame st st'"
  by (auto simp: route_add_def heap_alloc_def cfg_frame_def split: if_splits option.splits)

lemma get_dev_Inr: "get_dev d st = Inr ifp \<longleftrightarrow> ifs (nd st) d = Some ifp"
  by (simp add: get_dev_def split: option.split)

lemma parse_command_frame: "parse_command x cidr junk ts st = Inr (e, st') \<Longrightarrow> cfg_frame st st'"
proof -
  assume r: "parse_command x cidr junk ts st = Inr (e, st')"
  have route: "cfg_frame st st'" if "parse_route x cidr junk ts st = Inr (e, st')"
    using that by (auto simp: parse_route_def bind_res_Inr_iff Let_def split: option.splits if_splits elim!: route_add_frame)
  have "cfg_frame st st'" if "parse_ifconfig junk ts st = Inr (e, st')"
    using that by (auto simp: parse_ifconfig_def bind_res_Inr_iff Let_def get_dev_Inr set_dev_def cfg_frame_def dev_shape_def split: option.split_asm if_split_asm)
  with r route show ?thesis by (auto simp: parse_command_def bind_res_Inr_iff split: if_splits)
qed

lemma run_lines_frame: "run_lines x cidr junk ls st = Inr (e, st') \<Longrightarrow> cfg_frame st st'"
proof (induction ls arbitrary: st)
  case (Cons l ls)
  then show ?case
    by (auto simp: Let_def bind_res_Inr_iff split: if_splits dest!: parse_command_frame intro: cfg_frame_trans)
qed simp

lemma load_config_frame: "load_config x cidr junk st = Inr (e, st') \<Longrightarrow> cfg_frame st st'"
proof -
  have nul: "NUL \<notin> set router_config_str" by (simp add: router_config_str_def newline_def)
  assume "load_config x cidr junk st = Inr (e, st')"
  then have "cfg_frame (snd (heap_alloc st)) st'"
    unfolding load_config_def parse_config_lines [OF nul] by (auto split: if_splits dest: run_lines_frame)
  moreover have "cfg_frame st (snd (heap_alloc st))" by (simp add: heap_alloc_def cfg_frame_def)
  ultimately show ?thesis by (rule cfg_frame_trans [rotated])
qed

lemma router_create_spec:
  assumes "router_create b n st = Inr (Some r, st')"
  shows "routers st' r = Some \<lparr>r_npf = True, pktqueue_size = BURST_SIZE, r_rtable = True, notfer = None, worker_count = n, r_workers = replicate n None\<rparr>"
    and "nd (rs st') = nd (rs st)" and "sessions st' = sessions st" and "trusted_router st' = trusted_router st" and "wrks st' = wrks st"
  using assms
  by (auto simp: router_create_def heap_alloc_def npf_upd_def route_table_create_def bind_res_Inr_iff Let_def split: if_splits prod.splits)

lemma router_create_slots:
  assumes "router_create b n st = Inr (Some r, st')"
  shows "\<exists>R. slot_inv r R 0 (st'\<lparr>trusted_router := Some r, rs := t, list_slock := l\<rparr>) \<and> worker_count R = n"
  using router_create_spec [OF assms] by (auto simp: slot_inv_def)

lemma slots_bind_inv:
  assumes "slot_inv r R i st" "\<forall>sid c. sessions st sid = Some (Some c) \<longrightarrow> s_type c \<noteq> BSTGW_TRUST_ROUTER_WORKER_SESSION"
  shows "bind_inv st"
proof -
  have "router_ok r R st" using assms(1) by (auto simp: slot_inv_def router_ok_def)
  moreover have "\<not> bound_to st p sid" if "Some p \<in> set (r_workers R)" for p sid
    using assms(1) that by (auto simp: slot_inv_def bound_to_def)
  ultimately show ?thesis using assms(2) unfolding bind_inv_def by blast
qed

lemma init_success:
  assumes "init_trusted_router b x cidr junk st = Inr (TEE_SUCCESS, st')" "distinct (netdev_list (nd (rs st)))"
    "\<forall>d \<in> set (netdev_list (nd (rs st))). 1 \<le> napis_of st d \<and> napis_of st d \<le> BSTGW_MAX_NETIF_NAPI"
    "ifnet_napi_count (nd (rs st)) < 2 ^ 32"
  shows "\<exists>r R. slot_inv r R (worker_count R) st' \<and> worker_count R = ifnet_napi_count (nd (rs st)) \<and> sessions st' = sessions st \<and>
    netdev_list (nd (rs st')) = netdev_list (nd (rs st)) \<and> (\<forall>d \<in> set (netdev_list (nd (rs st))). staffed r R st' d)"
proof -
  let ?n = "ifnet_napi_count (nd (rs st))"
  obtain r st1 e rs2 st3 P R3 where c: "router_create b ?n st = Inr (Some r, st1)" "load_config x cidr junk (rs st1) = Inr (e, rs2)"
    and a: "attach_loop b r (netdev_list (nd rs2)) 0 (st1\<lparr>trusted_router := Some r, rs := rs2, list_slock := True\<rparr>) = Inr (TEE_SUCCESS, st3)"
    and fin: "get_router r st3 = Inr R3" "st3\<lparr>list_slock := False, rs := (rs st3)\<lparr>pool := P\<rparr>, routers := (routers st3)(r \<mapsto> R3\<lparr>notfer := Some (bstgw_init_notifier 1 True)\<rparr>)\<rparr> = st'"
    using assms(1) by (auto simp: init_trusted_router_def bind_res_Inr_iff Let_def split: if_splits option.splits)
  let ?st = "st1\<lparr>trusted_router := Some r, rs := rs2, list_slock := True\<rparr>"
  have cf: "cfg_frame (rs st1) rs2" by (rule load_config_frame [OF c(2)])
  note cs = router_create_spec [OF c(1)]
  have l: "netdev_list (nd rs2) = netdev_list (nd (rs st))" using cf cs(2) by (simp add: cfg_frame_def)
  have nap: "napis_of ?st d = napis_of st d" for d
  proof -
    have "map_option dev_shape (ifs (nd rs2) d) = map_option dev_shape (ifs (nd (rs st)) d)" using cf cs(2) by (simp add: cfg_frame_def)
    then show ?thesis by (auto simp: napis_of_def dev_shape_def split: option.splits)
  qed
  obtain R where R: "slot_inv r R 0 ?st" "worker_count R = ?n" using router_create_slots [OF c(1)] by blast
  have sum: "0 + sum_list (map (napis_of ?st) (netdev_list (nd (rs st)))) = worker_count R" unfolding nap [abs_def] R(2) napi_count_sum by simp
  obtain R' where R': "slot_inv r R' (worker_count R) st3" "boot_frame (set (netdev_list (nd (rs st)))) R R' ?st st3"
    "\<forall>d \<in> set (netdev_list (nd (rs st))). staffed r R' st3 d"
    using attach_loop_spec [OF a [unfolded l] R(1) assms(2)] assms(3,4) sum R(2) unfolding nap by auto
  have R3: "R3 = R'" using fin(1) slot_router [OF R'(1)] by simp
  let ?R = "R'\<lparr>notfer := Some (bstgw_init_notifier 1 True)\<rparr>"
  have "slot_inv r ?R (worker_count R) st'" using R'(1) by (auto simp: slot_inv_def fin(2) [symmetric] R3)
  moreover have "staffed r ?R st' d" if "staffed r R' st3 d" for d
    using that by (auto simp: staffed_def worker_for_def fin(2) [symmetric])
  moreover have "worker_count ?R = worker_count R" "sessions st' = sessions st" "netdev_list (nd (rs st')) = netdev_list (nd (rs st))"
    using R'(2) cs(3) l by (simp_all add: boot_frame_def fin(2) [symmetric])
  ultimately show ?thesis using R'(3) R(2) by (intro exI [of _ r] exI [of _ ?R]) auto
qed

section \<open>The start succeeds\<close>

text \<open>What the start relies on: memory, and an answer of NPF and of the hash map.\<close>

definition mem_ok :: "('th, 'lp, 'n) ctl \<Rightarrow> bool" where
  "mem_ok st \<longleftrightarrow> (\<forall>k. alloc_ok (pool (rs st)) k)"

definition npf_ok :: "('th, 'lp, 'n) boot \<Rightarrow> bool" where
  "npf_ok b \<longleftrightarrow> (\<forall>n. fst (npf_dpdk_create b n) \<and> fst (npf_alg_icmp_init b n) = 0)"

definition maps_ok :: "('th, 'lp, 'n) boot \<Rightarrow> bool" where
  "maps_ok b \<longleftrightarrow> (\<forall>d. thmap_create b d \<noteq> None)"

definition dev_ready :: "('th, 'lp, 'n) ctl \<Rightarrow> nat \<Rightarrow> bool" where
  "dev_ready st d \<longleftrightarrow> (\<exists>ifp. ifs (nd (rs st)) d = Some ifp \<and> 1 \<le> napi_count ifp \<and> napi_count ifp \<le> BSTGW_MAX_NETIF_NAPI \<and>
     length (workers ifp) = BSTGW_MAX_NETIF_NAPI)"

lemma increase_total:
  assumes "\<forall>k. alloc_ok P k"
  shows "\<exists>P'. bstgw_ethpool_increase c n P = Inr P' \<and> (\<forall>k. alloc_ok P' k)"
proof -
  have "\<exists>P'. increase_loop n c P = Inr P' \<and> (\<forall>k. alloc_ok P' k)" using assms
  proof (induction n arbitrary: P)
    case (Suc n)
    let ?P = "P\<lparr>bufs := (bufs P)(fresh P \<mapsto> new_ethbuf c), fresh := fresh P + 1, clk := clk P + 2, free_list := fresh P # free_list P\<rparr>"
    have "\<exists>P'. increase_loop n c ?P = Inr P' \<and> (\<forall>k. alloc_ok P' k)" by (rule Suc.IH) (use Suc.prems in simp)
    then show ?case using Suc.prems by (simp add: bstgw_ethbuf_alloc_aligned_def)
  qed simp
  then show ?thesis by (auto simp: bstgw_ethpool_increase_def)
qed

lemma worker_loop_total:
  assumes "slot_inv r R i st" "mem_ok st" "ifs (nd (rs st)) d = Some ifp" "\<forall>j \<in> set js. j < length (workers ifp)" "i + length js \<le> worker_count R"
  shows "\<exists>i' st'. worker_loop b r d js i st = Inr (Some i', st') \<and> mem_ok st'"
  using assms
proof (induction js arbitrary: i st R ifp)
  case (Cons j js)
  have R: "trusted_router st = Some r" "routers st r = Some R" "r_workers R ! i = None" "i < length (r_workers R)"
    using Cons.prems(1,5) unfolding slot_inv_def by (auto dest: spec [of _ i])
  then obtain st1 where e: "worker_init i st = Inr (0, st1)" and m: "mem_ok st1"
    using Cons.prems(2) by (simp add: worker_init_def heap_alloc_def mem_ok_def Let_def)
  have i: "i < worker_count R" using Cons.prems(5) by simp
  let ?p = "next_ptr st" let ?R = "R\<lparr>r_workers := (r_workers R)[i := Some ?p]\<rparr>"
  have s: "slot_inv r ?R (i + 1) st1" "nd (rs st1) = nd (rs st)" "wrks st1 ?p = Some (zero_worker\<lparr>w_router := Some r, w_npf := r_npf R\<rparr>)"
    using worker_init_slot [OF Cons.prems(1) e _ i, of "{}"] by force+
  let ?w = "(zero_worker\<lparr>w_router := Some r, w_npf := r_npf R\<rparr>)\<lparr>worker_id := i, net_if := Some d, napi_idx := j\<rparr>"
  let ?d = "ifp\<lparr>workers := (workers ifp)[j := Some ?p], if_worker_count := if_worker_count ifp + 1\<rparr>"
  let ?st = "st1\<lparr>wrks := (wrks st1)(?p \<mapsto> ?w), rs := set_dev d ?d (rs st1)\<rparr>"
  have "slot_inv r ?R (i + 1) ?st" using s(1) by (auto simp: slot_inv_def zero_worker_def)
  moreover have "mem_ok ?st" using m by (simp add: mem_ok_def set_dev_def)
  moreover have "worker_loop b r d (j # js) i st = worker_loop b r d js (i + 1) ?st"
    using e s(2,3) Cons.prems(3,4) R(4) by (simp add: slot_router [OF s(1)] get_worker_def get_dev_def)
  ultimately show ?case using Cons.IH [of ?R "i + 1" ?st ?d] Cons.prems(4,5) by (simp add: set_dev_def)
qed auto

lemma attach_dev_total:
  assumes "slot_inv r R i st" "mem_ok st" "ifs (nd (rs st)) d = Some ifp" "maps_ok b"
  shows "\<exists>st'. attach_dev b r d st = Inr (0, st') \<and> mem_ok st'"
proof -
  obtain t where t: "thmap_create b d = Some t" using assms(4) by (auto simp: maps_ok_def)
  let ?P = "(pool (rs st))\<lparr>clk := clk (pool (rs st)) + 1\<rparr>"
  obtain P' where "bstgw_ethpool_increase (buf_junk b) (pktqueue_size R) ?P = Inr P'" "\<forall>k. alloc_ok P' k"
    using increase_total [of ?P "buf_junk b" "pktqueue_size R"] assms(2) by (auto simp: mem_ok_def)
  then show ?thesis using assms(2,3) t
    by (simp add: attach_dev_def slot_router [OF assms(1)] get_dev_def heap_alloc_def mem_ok_def ifnet_ifattach_def Let_def npf_upd_def)
qed

lemma attach_loop_total:
  assumes "slot_inv r R i st" "mem_ok st" "maps_ok b" "distinct ds" "\<forall>d \<in> set ds. dev_ready st d"
    "i + sum_list (map (napis_of st) ds) = worker_count R" "worker_count R < 2 ^ 32"
  shows "\<exists>st'. attach_loop b r ds i st = Inr (TEE_SUCCESS, st') \<and> mem_ok st'"
  using assms
proof (induction ds arbitrary: i st R)
  case (Cons d ds)
  obtain ifp where ifp: "ifs (nd (rs st)) d = Some ifp" "1 \<le> napi_count ifp" "napi_count ifp \<le> BSTGW_MAX_NETIF_NAPI" "length (workers ifp) = BSTGW_MAX_NETIF_NAPI"
    using Cons.prems(5) by (auto simp: dev_ready_def)
  have "napis_of st d = napi_count ifp" using ifp(1) by (simp add: napis_of_def)
  then have sum: "i + (napi_count ifp + sum_list (map (napis_of st) ds)) = worker_count R" using Cons.prems(6) by simp
  then have room: "add32 i (sub32 (napi_count ifp) 1) < worker_count R"
    using ifp(2) Cons.prems(7) by (cases "napi_count ifp") (simp_all add: add32_def sub32_def)
  obtain i1 st1 where w: "worker_loop b r d [0..<napi_count ifp] i st = Inr (Some i1, st1)" "mem_ok st1"
    using worker_loop_total [OF Cons.prems(1,2) ifp(1), of "[0..<napi_count ifp]" b] ifp(3,4) sum by auto
  obtain R1 ifp1 where R1: "i1 = i + napi_count ifp" "slot_inv r R1 i1 st1" "boot_frame {d} R R1 st st1" "ifs (nd (rs st1)) d = Some ifp1"
    using worker_loop_spec [OF w(1) Cons.prems(1) _ ifp(1)] sum by auto
  obtain st2 where a: "attach_dev b r d st1 = Inr (0, st2)" "mem_ok st2" using attach_dev_total [OF R1(2) w(2) R1(4) Cons.prems(3)] by auto
  have s2: "slot_inv r R1 i1 st2" "boot_frame {d} R1 R1 st1 st2" using attach_dev_spec [OF a(1) R1(2,4)] by auto
  have fr: "boot_frame {d} R R1 st st2" using boot_frame_trans [OF R1(3) s2(2)] by simp
  have same: "ifs (nd (rs st2)) e = ifs (nd (rs st)) e" if "e \<in> set ds" for e
    using that fr Cons.prems(4) by (auto simp: boot_frame_def)
  then have sums: "map (napis_of st2) ds = map (napis_of st) ds" and "\<forall>e \<in> set ds. dev_ready st2 e"
    using Cons.prems(5) by (simp_all add: napis_of_def dev_ready_def)
  moreover have "worker_count R1 = worker_count R" using fr by (simp add: boot_frame_def)
  ultimately obtain st' where "attach_loop b r ds i1 st2 = Inr (TEE_SUCCESS, st')" "mem_ok st'"
    using Cons.IH [OF s2(1) a(2) Cons.prems(3)] Cons.prems(4,7) sum R1(1) unfolding sums by auto
  then show ?case using w(1) a(1) room ifp by (simp add: slot_router [OF Cons.prems(1)] get_dev_def ifnet_setup_def)
qed auto

lemma create_total:
  assumes "npf_ok b" "mem_ok st" "n \<le> sub32 (CFG_NUM_THREADS b) 2"
  shows "\<exists>r st'. router_create b n st = Inr (Some r, st') \<and> mem_ok st' \<and> rtable (rs st') = lpm_create b \<and> nd (rs st') = nd (rs st)"
proof -
  define f g where "f m = snd (npf_dpdk_create b m)" and "g m = snd (npf_alg_icmp_init b m)" for m
  then have npf: "npf_dpdk_create b m = (True, f m)" "npf_alg_icmp_init b m = (0, g m)" for m using assms(1) by (simp_all add: npf_ok_def prod_eq_iff)
  have m: "alloc_ok (pool (rs st)) k" for k using assms(2) by (simp add: mem_ok_def)
  show ?thesis using assms(3)
    by (auto simp: router_create_def heap_alloc_def m npf npf_upd_def route_table_create_def mem_ok_def Let_def)
qed

text \<open>The two network cards the configuration names, without addresses yet.\<close>

definition cards :: "nat \<Rightarrow> nat \<Rightarrow> 'th ifnet \<Rightarrow> nat \<Rightarrow> nat \<Rightarrow> 'th ifnet \<Rightarrow> ('th, 'lp, 'n) ctl \<Rightarrow> bool" where
  "cards i p d j q e st \<longleftrightarrow> dev_at ''NW'' i p d (rs st) \<and> dev_at ''imx6q-fec'' j q e (rs st) \<and> p \<noteq> q \<and> ips_cnt d = 0 \<and> ips_cnt e = 0 \<and>
     1 < next_if_idx (nd (rs st)) \<and> distinct (netdev_list (nd (rs st))) \<and> p \<in> set (netdev_list (nd (rs st))) \<and> (\<forall>f \<in> set (netdev_list (nd (rs st))). dev_ready st f)"

lemma dev_ready_frame:
  assumes "cfg_frame (rs st) (rs st')" shows "dev_ready st' f = dev_ready st f" "napis_of st' f = napis_of st f"
proof -
  have "map_option dev_shape (ifs (nd (rs st')) f) = map_option dev_shape (ifs (nd (rs st)) f)" using assms by (simp add: cfg_frame_def)
  then show "dev_ready st' f = dev_ready st f" "napis_of st' f = napis_of st f"
    by (cases "ifs (nd (rs st')) f"; cases "ifs (nd (rs st)) f"; auto simp: dev_ready_def napis_of_def dev_shape_def)+
qed

text \<open>The start up to the loop over the devices, and the state the loop begins with.\<close>

definition start_inv :: "('th, 'lp, 'n) ctl \<Rightarrow> nat \<Rightarrow> npf_router \<Rightarrow> ('th, 'lp, 'n) ctl \<Rightarrow> bool" where
  "start_inv st r R st2 \<longleftrightarrow> slot_inv r R 0 st2 \<and> mem_ok st2 \<and> cfg_frame (rs st) (rs st2) \<and>
     sum_list (map (napis_of st2) (netdev_list (nd (rs st)))) = worker_count R \<and> worker_count R < 2 ^ 32"

definition start_rest :: "('th, 'lp, 'n) boot \<Rightarrow> nat \<Rightarrow> tee_result \<times> ('th, 'lp, 'n) ctl \<Rightarrow> (tee_result \<times> ('th, 'lp, 'n) ctl) res" where
  "start_rest b r = (\<lambda>(res, st3).
       if res \<noteq> TEE_SUCCESS then Inr (res, st3)
       else bind_res (bstgw_ethpool_increase (buf_junk b) (2 + 2 + 64) (pool (rs st3))) (\<lambda>P.
         bind_res (get_router r st3) (\<lambda>R. Inr (TEE_SUCCESS, st3\<lparr>list_slock := False, rs := (rs st3)\<lparr>pool := P\<rparr>,
           routers := (routers st3)(r \<mapsto> R\<lparr>notfer := Some (bstgw_init_notifier 1 True)\<rparr>)\<rparr>))))"

lemma start_prefix:
  assumes "cards i p d j q e st" "npf_ok b" "mem_ok st" "trusted_router st = None" "length junk = 3" "cidr_doc cidr"
    "insert_routes x (config_routes i j) (lpm_create b) = Some t" "ifnet_napi_count (nd (rs st)) \<le> sub32 (CFG_NUM_THREADS b) 2"
  obtains r R st2 where "start_inv st r R st2"
    "init_trusted_router b x cidr junk st = bind_res (attach_loop b r (netdev_list (nd (rs st))) 0 st2) (start_rest b r)"
proof -
  let ?n = "ifnet_napi_count (nd (rs st))"
  obtain r st1 where c: "router_create b ?n st = Inr (Some r, st1)" "mem_ok st1" "rtable (rs st1) = lpm_create b" "nd (rs st1) = nd (rs st)"
    using create_total [OF assms(2,3,8)] by auto
  obtain rs2 where l: "load_config x cidr junk (rs st1) = Inr (0, rs2)"
    using load_config_run [of i p d "rs st1" j q e junk cidr x t] assms(1,5-7) c(2-4) by (auto simp: cards_def dev_at_def mem_ok_def)
  let ?st = "st1\<lparr>trusted_router := Some r, rs := rs2, list_slock := True\<rparr>"
  have cf: "cfg_frame (rs st1) rs2" by (rule load_config_frame [OF l])
  then have cf': "cfg_frame (rs st) (rs ?st)" "mem_ok ?st" using c(2,4) assms(3) by (auto simp: cfg_frame_def mem_ok_def)
  have nl: "netdev_list (nd rs2) = netdev_list (nd (rs st))" using cf c(4) by (simp add: cfg_frame_def)
  obtain R where R: "slot_inv r R 0 ?st" "worker_count R = ?n" using router_create_slots [OF c(1)] by blast
  have same: "napis_of ?st = napis_of st" using dev_ready_frame(2) [OF cf'(1)] by auto
  have "sum_list (map (napis_of ?st) (netdev_list (nd (rs st)))) = worker_count R" "worker_count R < 2 ^ 32"
    using assms(8) R(2) unfolding same by (simp_all add: napi_count_sum sub32_def)
  with R cf' have inv: "start_inv st r R ?st" by (simp add: start_inv_def)
  have "ifnet_dev_count (nd (rs st)) \<noteq> 0" using assms(1) by (simp add: cards_def ifnet_dev_count_def)
  moreover have "1 \<le> napis_of st p" using assms(1) by (auto simp: cards_def dev_ready_def napis_of_def)
  then have "?n \<noteq> 0" using assms(1) by (auto simp: napi_count_sum cards_def intro!: bexI [of _ p])
  ultimately show thesis using that [OF inv] assms(4) c(1) l nl by (simp add: init_trusted_router_def start_rest_def)
qed

lemma init_total:
  assumes "cards i p d j q e st" "npf_ok b" "maps_ok b" "mem_ok st" "trusted_router st = None" "length junk = 3" "cidr_doc cidr"
    "insert_routes x (config_routes i j) (lpm_create b) = Some t" "ifnet_napi_count (nd (rs st)) \<le> sub32 (CFG_NUM_THREADS b) 2"
  shows "\<exists>st'. init_trusted_router b x cidr junk st = Inr (TEE_SUCCESS, st') \<and> mem_ok st'"
proof -
  obtain r R st2 where inv: "start_inv st r R st2" and run: "init_trusted_router b x cidr junk st = bind_res (attach_loop b r (netdev_list (nd (rs st))) 0 st2) (start_rest b r)"
    using start_prefix [OF assms(1,2,4-9)] by blast
  have s: "slot_inv r R 0 st2" "mem_ok st2" "cfg_frame (rs st) (rs st2)" "0 + sum_list (map (napis_of st2) (netdev_list (nd (rs st)))) = worker_count R"
    "worker_count R < 2 ^ 32" using inv by (simp_all add: start_inv_def)
  have dev: "distinct (netdev_list (nd (rs st)))" "\<forall>f \<in> set (netdev_list (nd (rs st))). dev_ready st2 f"
    using assms(1) dev_ready_frame(1) [OF s(3)] by (simp_all add: cards_def)
  then obtain st3 where a: "attach_loop b r (netdev_list (nd (rs st))) 0 st2 = Inr (TEE_SUCCESS, st3)" "mem_ok st3"
    using attach_loop_total [OF s(1,2) assms(3)] s(4,5) by blast
  obtain P where P: "bstgw_ethpool_increase (buf_junk b) (2 + 2 + 64) (pool (rs st3)) = Inr P" "\<forall>k. alloc_ok P k"
    using increase_total [of "pool (rs st3)"] a(2) unfolding mem_ok_def by blast
  have "\<forall>f \<in> set (netdev_list (nd (rs st))). 1 \<le> napis_of st2 f \<and> napis_of st2 f \<le> BSTGW_MAX_NETIF_NAPI"
    using dev(2) by (auto simp: dev_ready_def napis_of_def)
  then obtain R3 where "get_router r st3 = Inr R3"
    using attach_loop_spec [OF a(1) s(1) dev(1)] s(4,5) slot_router by blast
  then show ?thesis unfolding run a(1) bind_res_simps using P by (simp add: start_rest_def mem_ok_def)
qed

text \<open>
  Claim C12. The start succeeds and staffs every device. With memory, both cards of the configuration registered, enough
  threads, and NPF, the hash map and the routing table answering, \<open>init_trusted_router\<close> returns success. Then every slot of
  the router holds a worker, and every poll instance of every device has one of them that points back to it.
\<close>

theorem router_starts:
  assumes "cards i p d j q e st" and "npf_ok b" and "maps_ok b" and "mem_ok st" and "trusted_router st = None" and "length junk = 3" and "cidr_doc cidr"
    and "insert_routes x (config_routes i j) (lpm_create b) = Some t" and "ifnet_napi_count (nd (rs st)) \<le> sub32 (CFG_NUM_THREADS b) 2"
  shows "\<exists>r R st'. init_trusted_router b x cidr junk st = Inr (TEE_SUCCESS, st') \<and> router_ok r R st' \<and>
    worker_count R = ifnet_napi_count (nd (rs st)) \<and> None \<notin> set (r_workers R) \<and>
    netdev_list (nd (rs st')) = netdev_list (nd (rs st)) \<and> (\<forall>f \<in> set (netdev_list (nd (rs st))). staffed r R st' f)"
proof -
  obtain st' where i: "init_trusted_router b x cidr junk st = Inr (TEE_SUCCESS, st')" using init_total [OF assms] by blast
  have "\<forall>f \<in> set (netdev_list (nd (rs st))). 1 \<le> napis_of st f \<and> napis_of st f \<le> BSTGW_MAX_NETIF_NAPI"
    using assms(1) by (auto simp: cards_def dev_ready_def napis_of_def)
  moreover have "ifnet_napi_count (nd (rs st)) < 2 ^ 32" using assms(9) by (simp add: sub32_def)
  ultimately obtain r R where R: "slot_inv r R (worker_count R) st'" "worker_count R = ifnet_napi_count (nd (rs st))"
    "netdev_list (nd (rs st')) = netdev_list (nd (rs st))" "\<forall>f \<in> set (netdev_list (nd (rs st))). staffed r R st' f"
    using init_success [OF i] assms(1) unfolding cards_def by blast
  have "None \<notin> set (r_workers R)" using R(1) by (auto simp: slot_inv_def in_set_conv_nth)
  moreover have "router_ok r R st'" using R(1) by (auto simp: slot_inv_def router_ok_def)
  ultimately show ?thesis using i R by blast
qed

text \<open>
  Claim C9. No two sessions share a worker. After a successful start, whatever sessions the normal world opens and closes
  and whatever commands it calls, a worker session holds a worker of the router that is bound to it, and no other session
  holds the same worker.
\<close>

theorem workers_exclusive:
  assumes "init_trusted_router b x cidr junk st = Inr (TEE_SUCCESS, st1)" and "distinct (netdev_list (nd (rs st)))"
    and "\<forall>f \<in> set (netdev_list (nd (rs st))). 1 \<le> napis_of st f \<and> napis_of st f \<le> BSTGW_MAX_NETIF_NAPI"
    and "ifnet_napi_count (nd (rs st)) < 2 ^ 32" and "\<forall>sid. sessions st sid = None"
    and "ctl_run y v st1 st2" and "worker_session st2 sid p"
  shows "bound_to st2 p sid \<and> (\<exists>r R. router_ok r R st2 \<and> Some p \<in> set (r_workers R)) \<and> (\<forall>sid'. worker_session st2 sid' p \<longrightarrow> sid' = sid)"
proof -
  obtain r R where "slot_inv r R (worker_count R) st1" "sessions st1 = sessions st" using init_success [OF assms(1-4)] by blast
  then have "bind_inv st1" using assms(5) by (intro slots_bind_inv) auto
  then have "bind_inv st2" by (rule ctl_run_inv [OF assms(6)])
  then obtain r R where R: "router_ok r R st2" "\<And>s p. worker_session st2 s p \<Longrightarrow> Some p \<in> set (r_workers R) \<and> bound_to st2 p s"
    unfolding bind_inv_def worker_session_def by (metis option.inject)
  have "sid' = sid" if "worker_session st2 sid' p" for sid' using R(2) [OF that] R(2) [OF assms(7)] by (auto simp: bound_to_def)
  then show ?thesis using R(1) R(2) [OF assms(7)] by blast
qed

text \<open>A device that was never attached has a queue of capacity zero; destroying the router divides by it.\<close>

lemma destroy_unattached:
  assumes "routers st r = Some R" "0 < worker_count R" "0 < length (r_workers R)" "r_workers R ! 0 = Some p" "wrks st p = Some w" "net_if w = Some d"
    "ifs (nd (rs st)) d = Some ifp" "pq_capacity (egress_queue ifp) = 0"
  shows "router_destroy b r st = Inl Div_zero"
proof -
  obtain n where "[0..<worker_count R] = 0 # n" using assms(2) by (simp add: upt_conv_Cons)
  then show ?thesis using assms
    by (simp add: router_destroy_def get_router_def get_worker_def detach_dev_def get_dev_def ifnet_ifdetach_def bstgw_pktq_locked_drop_bufs_def)
qed

lemma attach_failure:
  assumes "slot_inv r R 0 st" "mem_ok st" "dev_ready st d" "thmap_create b d = None" "ifs (nd (rs st)) d = Some ifp"
    "pq_capacity (egress_queue ifp) = 0" "napi_count ifp \<le> worker_count R" "worker_count R < 2 ^ 32"
  shows "attach_loop b r (d # ds) 0 st = Inl Div_zero"
proof -
  have ifp: "1 \<le> napi_count ifp" "napi_count ifp \<le> BSTGW_MAX_NETIF_NAPI" "length (workers ifp) = BSTGW_MAX_NETIF_NAPI"
    using assms(3,5) by (auto simp: dev_ready_def)
  obtain i1 st1 where w: "worker_loop b r d [0..<napi_count ifp] 0 st = Inr (Some i1, st1)" "mem_ok st1"
    using worker_loop_total [OF assms(1,2,5), of "[0..<napi_count ifp]" b] ifp assms(7) by auto
  obtain R1 ifp1 v where R1: "slot_inv r R1 i1 st1" "boot_frame {d} R R1 st st1" "ifs (nd (rs st1)) d = Some ifp1" "egress_queue ifp1 = egress_queue ifp"
    "r_workers R1 ! 0 = Some (next_ptr st)" "wrks st1 (next_ptr st) = Some v" "net_if v = Some d"
    using worker_loop_spec [OF w(1) assms(1) _ assms(5)] assms(7) ifp(1) by auto
  let ?st = "st1\<lparr>rs := set_dev d (ifp1\<lparr>arp_map := None\<rparr>) (rs st1)\<rparr>"
  have a: "attach_dev b r d st1 = Inr (-1, ?st)"
    using assms(4) R1(3) by (simp add: attach_dev_def slot_router [OF R1(1)] get_dev_def ifnet_ifattach_def set_dev_def Let_def)
  have "worker_count R1 = worker_count R" "length (r_workers R1) = worker_count R" "routers ?st r = Some R1"
    using R1(1,2) by (auto simp: boot_frame_def slot_inv_def)
  then have "router_destroy b r ?st = Inl Div_zero"
    using destroy_unattached [of ?st r R1 "next_ptr st" v d "ifp1\<lparr>arp_map := None\<rparr>" b] R1 ifp(1) assms(6,7) by (simp add: set_dev_def)
  moreover have "add32 0 (sub32 (napi_count ifp) 1) < worker_count R"
    using ifp(1) assms(7,8) by (cases "napi_count ifp") (simp_all add: add32_def sub32_def)
  ultimately show ?thesis using w(1) a ifp assms(5) by (simp add: slot_router [OF assms(1)] get_dev_def ifnet_setup_def)
qed

text \<open>
  Claim C40. The error path of the start faults. When the ARP map of the first device cannot be created, the router is
  destroyed with a device whose queue was never set up: its capacity is still zero, and dropping the packets of the empty
  queue divides by it.
\<close>

theorem attach_failure_faults:
  assumes "cards i p d j q e st" and "npf_ok b" and "mem_ok st" and "trusted_router st = None" and "length junk = 3" and "cidr_doc cidr"
    and "insert_routes x (config_routes i j) (lpm_create b) = Some t" and "ifnet_napi_count (nd (rs st)) \<le> sub32 (CFG_NUM_THREADS b) 2"
    and "netdev_list (nd (rs st)) = f # fs" and "thmap_create b f = None"
    and "map_option egress_queue (ifs (nd (rs st)) f) = Some (netif_tx_stop_queue empty_queue)"
  shows "init_trusted_router b x cidr junk st = Inl Div_zero"
proof -
  obtain r R st2 where inv: "start_inv st r R st2" and run: "init_trusted_router b x cidr junk st = bind_res (attach_loop b r (netdev_list (nd (rs st))) 0 st2) (start_rest b r)"
    using start_prefix [OF assms(1-8)] by blast
  have s: "slot_inv r R 0 st2" "mem_ok st2" "cfg_frame (rs st) (rs st2)" "sum_list (map (napis_of st2) (netdev_list (nd (rs st)))) = worker_count R"
    "worker_count R < 2 ^ 32" using inv by (simp_all add: start_inv_def)
  have ready: "dev_ready st2 f" using assms(1,9) dev_ready_frame(1) [OF s(3)] by (simp add: cards_def)
  then obtain ifp where ifp: "ifs (nd (rs st2)) f = Some ifp" by (auto simp: dev_ready_def)
  have "map_option dev_shape (ifs (nd (rs st)) f) = Some (dev_shape ifp)" using s(3) ifp by (metis cfg_frame_def option.map(2))
  then have "egress_queue ifp = netif_tx_stop_queue empty_queue" using assms(11) by (auto simp: dev_shape_def)
  then have "pq_capacity (egress_queue ifp) = 0" by (simp add: netif_tx_stop_queue_def empty_queue_def)
  moreover have "napi_count ifp \<le> worker_count R" using s(4) ifp assms(9) by (simp add: napis_of_def)
  ultimately have "attach_loop b r (f # fs) 0 st2 = Inl Div_zero" using attach_failure [OF s(1,2) ready assms(10) ifp] s(5) by simp
  then show ?thesis unfolding run assms(9) by simp
qed

section \<open>Examples\<close>

text \<open>Two cards with one poll instance each, four threads, and libraries that answer; \<open>maps\<close> says whether a map is created.\<close>

definition boot_dev :: "nat \<Rightarrow> string \<Rightarrow> unit ifnet" where
  "boot_dev i nm = (cfg_dev i nm)\<lparr>napi_count := 1, egress_queue := netif_tx_stop_queue empty_queue\<rparr>"

definition boot_state :: "(unit, (byte list \<times> nat \<times> route_info) list, unit) ctl" where
  "boot_state = \<lparr>rs = cfg_state\<lparr>nd := (nd cfg_state)\<lparr>ifs := [7 \<mapsto> boot_dev 1 ''NW'', 8 \<mapsto> boot_dev 2 ''imx6q-fec'']\<rparr>\<rparr>, routers = Map.empty, trusted_router = None,
     wrks = Map.empty, npf_data = Map.empty, sessions = Map.empty, next_ptr = 1, list_slock = False\<rparr>"

definition boot_libs :: "bool \<Rightarrow> (unit, (byte list \<times> nat \<times> route_info) list, unit) boot" where
  "boot_libs maps = \<lparr>CFG_NUM_THREADS = 4, npfk_sysinit = id, npfk_sysfini = id, npf_dpdk_create = Pair True, npf_alg_icmp_init = Pair 0,
     npf_alg_icmp_fini = id, npfk_destroy = id, npfk_ifmap_attach = (\<lambda>_. id), npfk_ifmap_detach = (\<lambda>_. id), lpm_create = [],
     thmap_create = (\<lambda>_. if maps then Some () else None), queue_junk = [], buf_junk = []\<rparr>"

lemmas boot_example = boot_state_def boot_dev_def cfg_state_def cfg_dev_def zero_ifnet_def

lemma boot_state_simps: "netdev_list (nd (rs boot_state)) = [7, 8]" "ifnet_napi_count (nd (rs boot_state)) = 2" "trusted_router boot_state = None"
  "ifs (nd (rs boot_state)) 7 = Some (boot_dev 1 ''NW'')" "sessions boot_state = Map.empty"
  by (simp_all add: boot_example ifnet_napi_count_def)

lemma boot_cards: "cards 1 7 (boot_dev 1 ''NW'') 2 8 (boot_dev 2 ''imx6q-fec'') boot_state"
proof -
  have "dev_at ''NW'' 1 7 (boot_dev 1 ''NW'') (rs boot_state)" "dev_at ''imx6q-fec'' 2 8 (boot_dev 2 ''imx6q-fec'') (rs boot_state)"
    by (simp_all add: dev_at_def boot_example ifnet_nametoindex_def ifnet_getbyidx_def has_name_def)
  moreover have "dev_ready boot_state 7" "dev_ready boot_state 8" by (simp_all add: dev_ready_def boot_example BSTGW_MAX_NETIF_NAPI_def)
  moreover have "1 < next_if_idx (nd (rs boot_state))" "ips_cnt (boot_dev k nm) = 0" for k nm by (simp_all add: boot_example)
  ultimately show ?thesis by (simp add: cards_def boot_state_simps)
qed

lemma boot_libs_ok: "npf_ok (boot_libs m)" "maps_ok (boot_libs True)" "mem_ok boot_state" "CFG_NUM_THREADS (boot_libs m) = 4"
  "insert_routes cfg_ext (config_routes 1 2) (lpm_create (boot_libs m)) = Some (rev (config_routes 1 2))"
  by (simp_all add: npf_ok_def maps_ok_def mem_ok_def boot_libs_def boot_state_def cfg_state_def cfg_ext_def config_routes_def)

lemma boot_threads: "ifnet_napi_count (nd (rs boot_state)) \<le> sub32 (CFG_NUM_THREADS (boot_libs m)) 2"
  by (simp add: boot_state_simps boot_libs_ok sub32_def)

theorem router_starts_witness:
  "\<exists>r R st'. init_trusted_router (boot_libs True) cfg_ext cfg_cidr [0, 0, 0] boot_state = Inr (TEE_SUCCESS, st') \<and> router_ok r R st' \<and>
     worker_count R = 2 \<and> staffed r R st' 7"
  using router_starts [OF boot_cards boot_libs_ok(1,2,3) boot_state_simps(3) _ cfg_cidr_doc boot_libs_ok(5) boot_threads, of "[0, 0, 0]"]
  by (auto simp: boot_state_simps)

text \<open>The first session that asks gets the first worker.\<close>

lemma first_worker_session:
  assumes "slot_inv r R n st" "0 < n" "0 < worker_count R" "mem_ok st" "sessions st sid = None"
  shows "\<exists>p st'. open_session x sid (one_param TEE_PARAM_TYPE_VALUE_INPUT) BSTGW_TRUST_ROUTER_WORKER_SESSION st = Inr (TEE_SUCCESS, st') \<and>
    worker_session st' sid p"
proof -
  have R: "router_ok r R st" using assms(1) by (auto simp: slot_inv_def router_ok_def)
  obtain p ps where p: "r_workers R = Some p # ps"
    using assms(1-3) by (cases "r_workers R") (auto simp: slot_inv_def dest: spec [of _ 0])
  then have "unbound st (Some p)" using assms(1) by (auto simp: slot_inv_def)
  then have "find (unbound st) (r_workers R) = Some (Some p)" unfolding p by simp
  moreover have "alloc_ok (pool (rs st)) (clk (pool (rs st)))" using assms(4) by (simp add: mem_ok_def)
  ultimately show ?thesis using open_worker_session [OF R, of x sid]
    by (auto simp: bind_at_def worker_session_def split: prod.split)
qed

theorem workers_exclusive_witness:
  "\<exists>st1 st2 p. init_trusted_router (boot_libs True) cfg_ext cfg_cidr [0, 0, 0] boot_state = Inr (TEE_SUCCESS, st1) \<and>
     open_session ctl_ops 9 1 2 st1 = Inr (TEE_SUCCESS, st2) \<and> bound_to st2 p 9 \<and> (\<forall>sid. worker_session st2 sid p \<longrightarrow> sid = 9)"
proof -
  obtain st1 where st1: "init_trusted_router (boot_libs True) cfg_ext cfg_cidr [0, 0, 0] boot_state = Inr (TEE_SUCCESS, st1)" "mem_ok st1"
    using init_total [OF boot_cards boot_libs_ok(1,2,3) boot_state_simps(3) _ cfg_cidr_doc boot_libs_ok(5) boot_threads, of "[0, 0, 0]"] by auto
  have pre: "distinct (netdev_list (nd (rs boot_state)))" "ifnet_napi_count (nd (rs boot_state)) < 2 ^ 32" "\<forall>sid. sessions boot_state sid = None"
    "\<forall>f \<in> set (netdev_list (nd (rs boot_state))). 1 \<le> napis_of boot_state f \<and> napis_of boot_state f \<le> BSTGW_MAX_NETIF_NAPI"
    by (simp_all add: boot_state_simps) (simp_all add: boot_example napis_of_def BSTGW_MAX_NETIF_NAPI_def)
  obtain r R where R: "slot_inv r R (worker_count R) st1" "worker_count R = 2" "sessions st1 = sessions boot_state"
    using init_success [OF st1(1) pre(1,4,2)] boot_state_simps(2) by auto
  obtain p st2 where st2: "open_session ctl_ops 9 (one_param TEE_PARAM_TYPE_VALUE_INPUT) BSTGW_TRUST_ROUTER_WORKER_SESSION st1 = Inr (TEE_SUCCESS, st2)" "worker_session st2 9 p"
    using first_worker_session [OF R(1) _ _ st1(2), of 9 ctl_ops] R(2,3) pre(3) by auto
  have "ctl_step ctl_ops ctl_nv st1 st2" using opens [OF _ st2(1)] R(3) pre(3) by simp
  then have "ctl_run ctl_ops ctl_nv st1 st2" by (blast intro: run_refl run_step)
  from workers_exclusive [OF st1(1) pre(1,4,2,3) this st2(2)]
  have "bound_to st2 p 9 \<and> (\<forall>sid. worker_session st2 sid p \<longrightarrow> sid = 9)" by blast
  moreover have "open_session ctl_ops 9 1 2 st1 = Inr (TEE_SUCCESS, st2)"
    using st2(1) by (simp add: one_param_def TEE_PARAM_TYPES_def TEE_PARAM_TYPE_VALUE_INPUT_def TEE_PARAM_TYPE_NONE_def session_types)
  ultimately show ?thesis using st1(1) by blast
qed

theorem attach_failure_faults_witness:
  "init_trusted_router (boot_libs False) cfg_ext cfg_cidr [0, 0, 0] boot_state = Inl Div_zero"
proof -
  have "thmap_create (boot_libs False) 7 = None" "map_option egress_queue (ifs (nd (rs boot_state)) 7) = Some (netif_tx_stop_queue empty_queue)"
    by (simp_all add: boot_libs_def boot_state_simps boot_dev_def)
  then show ?thesis
    using attach_failure_faults [OF boot_cards boot_libs_ok(1,3) boot_state_simps(3) _ cfg_cidr_doc boot_libs_ok(5) boot_threads boot_state_simps(1)] by simp
qed

end
