(* ===== verification/Spec2Isabelle.thy ===== *)
theory Spec2Isabelle
  imports Iovec Vpoll Forward Boot
begin

text \<open>
  A verification library for TrustedGateway: a router and firewall that runs in the secure world of an
  ARM platform (OP-TEE), between a network card it owns and a virtual network card it offers to the
  normal world.

  \<^bold>\<open>The program.\<close> A frame enters through a driver: the virtual NIC (\<open>virtio-nic/vnic\<close>), whose rings lie in
  memory of the normal world and whose registers are trapped accesses of the normal world, or the
  Ethernet driver (\<open>fec_drivers\<close>). Each driver has a device (\<open>nettrug/pta/if_netdev.c\<close>) and a NAPI
  instance (\<open>nettrug/napi\<close>) that a worker polls; a notifier wakes sleeping workers. The driver hands
  frames to \<open>router_if_input\<close> (\<open>nettrug/pta/worker.c\<close>): layer-2 input and ARP (\<open>arp.c\<close>), the NPF firewall
  (not part of the sources), routing (\<open>route.c\<close>), the firewall again, and the egress queue
  (\<open>bstgw_pktq.h\<close>) of the chosen device, from which that device's worker transmits. Frames live in
  buffers of one pool (\<open>bstgw_eth_buf.c\<close>).

  \<^bold>\<open>The theories\<close>, each with the definitions, in the order of the code, and the lemmas of one part:

  \<^item> \<open>Prelude\<close>: machine types; \<open>fault\<close>, every way a C statement can go wrong, and \<open>'a res = fault + 'a\<close>, so
    that a null dereference, an access outside a block, a division by zero, a failed assertion and a
    panic are values of the model.
  \<^item> \<open>Pktq\<close>: the egress queue, a ring that refines a bounded first-in first-out list (locale \<open>bounded_fifo\<close>).
  \<^item> \<open>Ether\<close>, \<open>Ethbuf\<close>: Ethernet addresses; packet buffers, chains, the pool and its interface (locale
    \<open>buffer_pool\<close>), the buffer operations NPF is given.
  \<^item> \<open>Nwmem\<close>, \<open>Iovec\<close>, \<open>Vqueue\<close>: memory of the normal world, which it may rewrite before every access (\<open>sync\<close>);
    the scatter copies of \<open>iovec.c\<close>; the split virtqueue of \<open>vqueue.c\<close>.
  \<^item> \<open>Virtio\<close>, \<open>Vnet\<close>, \<open>Vpoll\<close>: the device state machine and the registers (\<open>virtio.c\<close>, \<open>virtio-mmio.c\<close>); the data
    path (\<open>virtio-net.c\<close>); the poll function, its termination and its failures, and \<open>vnic_init\<close>.
  \<^item> \<open>Netdev\<close>, \<open>Napi\<close>: device registry and device operations NPF is given; NAPI, notifier and worker loop as
    a step relation in which every interleaving is considered.
  \<^item> \<open>Cstring\<close>, \<open>Config\<close>: the string functions of the vendored C library (\<open>external/newlib\<close>) and the configuration
    text (\<open>config.c\<close>) that is read with them. \<open>Control\<close>: sessions, workers and commands (\<open>trust_router.c\<close>,
    \<open>npf_router.c\<close>, \<open>worker_storage.c\<close>), with the calls of the normal world as a step relation.
    \<open>Boot\<close>: creation, start and destruction of the router.
  \<^item> \<open>Router\<close>: routes, ARP, firewall calls, queueing and transmission. \<open>RouterInv\<close>, \<open>RouterInput\<close>: the
    ownership of buffers, \<open>eff A B st st'\<close>, for each of these operations. \<open>Forward\<close>: the contents of what
    is sent.

  \<^bold>\<open>State and effects.\<close> Operations are functions on explicit state: \<open>pktqueue\<close>, \<open>bufpool\<close>, \<open>netdev\<close>, \<open>napi\<close>, \<open>rstate\<close>
    (device table, pool, route table, firewall), \<open>vqueue\<close>, \<open>vnic\<close>. Buffers and devices are stores from
    addresses to records, so aliasing and double frees are visible. Allocation is an oracle of the pool
    (\<open>alloc_ok\<close> at every tick), so every out-of-memory branch is taken by some oracle. A spin lock makes the
    operations it protects atomic; where several threads matter (\<open>Napi\<close>) the program counters are explicit.

  \<^bold>\<open>External code.\<close> NPF, liblpm and thmap are the fields of the record \<open>ext\<close>; \<open>ext_ok\<close> states what the router
  relies on (addresses have six bytes, routes are well formed, the filter returns the packet it was given or
  consumes it and touches no other buffer). Address translation (\<open>va\<close>, \<open>add_mapping\<close>) and the answers of the
  platform to \<open>vnic_init\<close> are parameters.

  \<^bold>\<open>Unbounded loops.\<close> Loops over lists are structural recursions. A loop over a chain of buffers or
  descriptors, and the poll loop, are partial functions whose value \<open>None\<close> means that they do not end; the
  theorems say when they end (\<open>linearize_chain\<close>, \<open>idle_poll_rearms\<close>) and when they do not (\<open>starved_poll_spins\<close>).
  The mutual recursion between ARP resolution and output is unrolled to the depth the code reaches: a request
  is a broadcast and resolves nothing itself (\<open>arp_resolve_depth\<close>, \<open>Stack_exhausted\<close> never occurs).

  \<^bold>\<open>Not modelled.\<close> The Linux drivers of the normal world, device trees, patches and build scripts run outside
  the secure world or are data of the build. NPF, cdb, nvlist, mbedTLS and OP-TEE itself are not in the sources.
\<close>

end
